(* ===== verification/Chat_Prelude.thy ===== *)
theory Chat_Prelude
  imports Main "HOL-Library.Word" "HOL-Library.Monad_Syntax"
begin

text \<open>
  The base of the development: the C scalar types, the outcome convention, buffers and C strings.

  A C function is a state transformer of type \<open>state \<Rightarrow> (result \<times> state) option\<close>. \<open>None\<close> is the
  outcome of a run that has no defined continuation: a dereference of NULL or of freed memory, an
  access outside a buffer, a second lock of a mutex already held, or a loop that never ends. Error
  returns of the program (\<open>-1\<close>, NULL) are ordinary results. So a statement that an operation
  yields \<open>Some\<close> says at once that it ends and that it is memory safe; \<open>ok m Q\<close> packs this
  with a postcondition \<open>Q\<close>, and the collection \<open>wp\<close> holds the rules that push \<open>ok\<close> through
  the operators.
\<close>

unbundle bit_operations_syntax

named_theorems wp "weakest-precondition equations for ok"

type_synonym byte = "8 word"
type_synonym fd = int
type_synonym ptr = nat

abbreviation (input) NULL :: ptr where "NULL \<equiv> 0"

section \<open>Outcomes\<close>

definition ok :: "'a option \<Rightarrow> ('a \<Rightarrow> bool) \<Rightarrow> bool" where
  "ok m Q = (case m of None \<Rightarrow> False | Some x \<Rightarrow> Q x)"

lemma ok_Some [wp, simp]: "ok (Some x) Q = Q x"
  by (simp add: ok_def)

lemma ok_None [wp, simp]: "\<not> ok None Q"
  by (simp add: ok_def)

lemma ok_bind [wp]: "ok (Option.bind m f) Q = ok m (\<lambda>x. ok (f x) Q)"
  by (cases m) (simp_all add: ok_def)

lemma ok_if [wp]: "ok (if b then m else n) Q = (if b then ok m Q else ok n Q)"
  by simp

lemma ok_case_prod [wp]: "ok (case p of (x, y) \<Rightarrow> f x y) Q = (case p of (x, y) \<Rightarrow> ok (f x y) Q)"
  by (cases p) simp

lemma ok_conv: "ok m Q \<longleftrightarrow> (\<exists>x. m = Some x \<and> Q x)"
  by (cases m) simp_all

lemma ok_weaken: "ok m P \<Longrightarrow> (\<And>x. P x \<Longrightarrow> Q x) \<Longrightarrow> ok m Q"
  by (cases m) simp_all

lemma ok_conj: "ok m P \<Longrightarrow> ok m Q \<Longrightarrow> ok m (\<lambda>x. P x \<and> Q x)"
  by (cases m) simp_all

lemma okE: "ok m Q \<Longrightarrow> (\<And>x. m = Some x \<Longrightarrow> Q x \<Longrightarrow> R) \<Longrightarrow> R"
  by (cases m) simp_all

section \<open>Unsigned machine sizes\<close>

text \<open>
  \<open>size_t\<close> is 64 bits wide. Values are kept as naturals below \<open>SIZE_MOD\<close> and the wrap-around of
  each operation is written out.
\<close>

definition SIZE_MOD :: nat where "SIZE_MOD = 2 ^ 64"

definition sz_add :: "nat \<Rightarrow> nat \<Rightarrow> nat" where
  "sz_add a b = (a + b) mod SIZE_MOD"

definition sz_sub :: "nat \<Rightarrow> nat \<Rightarrow> nat" where
  "sz_sub a b = (if b \<le> a then a - b else SIZE_MOD + a - b)"

definition sz_mul :: "nat \<Rightarrow> nat \<Rightarrow> nat" where
  "sz_mul a b = (a * b) mod SIZE_MOD"

lemma sz_add_small: "a + b < SIZE_MOD \<Longrightarrow> sz_add a b = a + b"
  by (simp add: sz_add_def)

lemma sz_sub_small [simp]: "b \<le> a \<Longrightarrow> sz_sub a b = a - b"
  by (simp add: sz_sub_def)

lemma sz_mul_small: "a * b < SIZE_MOD \<Longrightarrow> sz_mul a b = a * b"
  by (simp add: sz_mul_def)

section \<open>Buffers\<close>

text \<open>
  A byte buffer is the list of its bytes, its length the allocated size. \<open>slice\<close> reads a range,
  \<open>memcpy_at\<close> writes one; both have no outcome when the range leaves the buffer.
\<close>

definition slice :: "byte list \<Rightarrow> nat \<Rightarrow> nat \<Rightarrow> byte list option" where
  "slice buf off n = (if off + n \<le> length buf then Some (take n (drop off buf)) else None)"

definition memcpy_at :: "byte list \<Rightarrow> nat \<Rightarrow> byte list \<Rightarrow> byte list option" where
  "memcpy_at buf off src =
     (if off + length src \<le> length buf
      then Some (take off buf @ src @ drop (off + length src) buf) else None)"

lemma ok_slice [wp]: "ok (slice buf off n) Q \<longleftrightarrow> off + n \<le> length buf \<and> Q (take n (drop off buf))"
  by (simp add: slice_def)

lemma ok_memcpy_at [wp]:
  "ok (memcpy_at buf off src) Q \<longleftrightarrow>
     off + length src \<le> length buf \<and> Q (take off buf @ src @ drop (off + length src) buf)"
  by (simp add: memcpy_at_def)

lemma memcpy_at_length: "memcpy_at buf off src = Some buf' \<Longrightarrow> length buf' = length buf"
  by (auto simp: memcpy_at_def split: if_splits)

lemma take_memcpy_at:
  "memcpy_at buf off src = Some buf' \<Longrightarrow> take (off + length src) buf' = take off buf @ src"
  by (auto simp: memcpy_at_def split: if_splits)

section \<open>C strings\<close>

text \<open>
  A \<open>char *\<close> is the rest of its buffer from the pointer on. Reading past the end of the buffer
  without meeting a NUL has no outcome. \<open>strtok_r\<close> is glibc's, for the delimiter set of one
  space: it returns the token (or NULL) and the new save pointer, which is never NULL.
\<close>

definition bytes_of :: "string \<Rightarrow> byte list" where
  "bytes_of s = map of_char s"

fun strlen_c :: "byte list \<Rightarrow> nat option" where
  "strlen_c [] = None"
| "strlen_c (b # bs) = (if b = 0 then Some 0 else map_option Suc (strlen_c bs))"

definition cstr :: "byte list \<Rightarrow> byte list" where
  "cstr bs = takeWhile (\<lambda>b. b \<noteq> 0) bs"

text \<open>\<open>strcmp (a, b) == 0\<close>.\<close>

fun strcmp_eq :: "byte list \<Rightarrow> byte list \<Rightarrow> bool option" where
  "strcmp_eq (a # as) (b # bs) =
     (if a \<noteq> b then Some False else if a = 0 then Some True else strcmp_eq as bs)"
| "strcmp_eq _ _ = None"

definition strtok_r :: "byte list \<Rightarrow> (byte list option \<times> byte list) option" where
  "strtok_r s =
     (case dropWhile (\<lambda>b. b = 32) s of
        [] \<Rightarrow> None
      | b # s1 \<Rightarrow>
          if b = 0 then Some (None, b # s1)
          else (let tok = takeWhile (\<lambda>c. c \<noteq> 32 \<and> c \<noteq> 0) (b # s1)
                in case drop (length tok) (b # s1) of
                     [] \<Rightarrow> None
                   | d # rest \<Rightarrow> Some (Some tok, if d = 0 then d # rest else rest)))"

lemma strlen_c_eq: "strlen_c bs = (if 0 \<in> set bs then Some (length (cstr bs)) else None)"
  by (induction bs) (auto simp: cstr_def)

lemma ok_strlen_c [wp]: "ok (strlen_c bs) Q \<longleftrightarrow> 0 \<in> set bs \<and> Q (length (cstr bs))"
  by (simp add: strlen_c_eq)

lemma cstr_prefix: "cstr bs = take (length (cstr bs)) bs"
  by (metis cstr_def takeWhile_eq_take)

lemma cstr_append_NUL: "0 \<notin> set s \<Longrightarrow> cstr (s @ 0 # r) = s"
  by (induction s) (auto simp: cstr_def)

lemma zero_notin_cstr [simp]: "0 \<notin> set (cstr bs)"
  by (auto simp: cstr_def dest: set_takeWhileD)

lemma length_cstr_le: "length (cstr bs) \<le> length bs"
  by (simp add: cstr_def length_takeWhile_le)

lemma length_cstr_less: "0 \<in> set bs \<Longrightarrow> length (cstr bs) < length bs"
  by (induction bs) (auto simp: cstr_def)

lemma strcmp_eq_terminated:
  "0 \<in> set a \<Longrightarrow> 0 \<in> set b \<Longrightarrow> strcmp_eq a b = Some (cstr a = cstr b)"
  by (induction a b rule: strcmp_eq.induct) (auto simp: cstr_def)

lemma ok_strcmp_eq [wp]:
  "0 \<in> set a \<Longrightarrow> 0 \<in> set b \<Longrightarrow> ok (strcmp_eq a b) Q = Q (cstr a = cstr b)"
  by (simp add: strcmp_eq_terminated)

lemma ok_case_option: "ok (case x of None \<Rightarrow> m | Some y \<Rightarrow> f y) Q = (case x of None \<Rightarrow> ok m Q | Some y \<Rightarrow> ok (f y) Q)"
  by (cases x) simp_all

text \<open>On a terminated string the tokenizer stays inside the buffer.\<close>

lemma strtok_r_terminated:
  assumes "0 \<in> set s"
  shows "ok (strtok_r s) (\<lambda>(tok, rest). 0 \<in> set rest \<and> length rest \<le> length s \<and>
     (case tok of None \<Rightarrow> cstr rest = [] | Some t \<Rightarrow> t \<noteq> [] \<and> 0 \<notin> set t \<and> 32 \<notin> set t))"
proof -
  let ?s1 = "dropWhile (\<lambda>b. b = 32) s"
  have z1: "0 \<in> set ?s1"
    using assms by (induction s) auto
  then obtain b s1 where s1: "?s1 = b # s1" by (cases ?s1) auto
  have b: "b \<noteq> 32" using hd_dropWhile [of "\<lambda>b. b = 32" s] s1 by force
  have len: "length (b # s1) \<le> length s" using length_dropWhile_le [of "\<lambda>b. b = 32" s] s1 by simp
  show ?thesis
  proof (cases "b = 0")
    case True
    then show ?thesis using s1 len by (simp add: strtok_r_def cstr_def)
  next
    case False
    let ?P = "\<lambda>c. c \<noteq> 32 \<and> c \<noteq> (0 :: byte)"
    let ?tok = "takeWhile ?P (b # s1)"
    have split: "b # s1 = ?tok @ dropWhile ?P (b # s1)" by simp
    have "0 \<in> set (dropWhile ?P (b # s1))"
    proof -
      have "0 \<in> set ?tok \<or> 0 \<in> set (dropWhile ?P (b # s1))"
        using z1 unfolding s1 by (subst (asm) split) simp
      then show ?thesis by (blast dest: set_takeWhileD)
    qed
    moreover have dr: "drop (length ?tok) (b # s1) = dropWhile ?P (b # s1)"
      by (metis dropWhile_eq_drop)
    ultimately obtain d rest where d: "drop (length ?tok) (b # s1) = d # rest" "0 \<in> set (d # rest)"
      by (cases "dropWhile ?P (b # s1)") auto
    have "dropWhile ?P (b # s1) = d # rest" using d(1) dr by (rule trans [OF sym, rotated])
    then have "d = 32 \<or> d = 0" using hd_dropWhile [of ?P "b # s1"] by (simp del: dropWhile.simps)
    then have "0 \<in> set (if d = 0 then d # rest else rest)" using d(2) by auto
    moreover have "length (if d = 0 then d # rest else rest) \<le> length s"
      using len arg_cong [OF d(1), of length] by auto
    moreover have "?tok \<noteq> []" "0 \<notin> set ?tok" "32 \<notin> set ?tok"
      using False b by (simp, blast dest: set_takeWhileD, blast dest: set_takeWhileD)
    moreover have "strtok_r s = Some (Some ?tok, if d = 0 then d # rest else rest)"
      unfolding strtok_r_def s1 list.case Let_def d(1) using False by simp
    ultimately show ?thesis by (simp del: takeWhile.simps)
  qed
qed

section \<open>Scripts of system outcomes\<close>

text \<open>
  What the operating system answers to a call is not determined by the program. Each source of
  answers is a list, consumed from the front, and a default once it is exhausted; a theorem about
  every list is a theorem about every behaviour of the system.
\<close>

definition pop_default :: "'a \<Rightarrow> 'a list \<Rightarrow> 'a \<times> 'a list" where
  "pop_default d xs = (case xs of [] \<Rightarrow> (d, []) | x # r \<Rightarrow> (x, r))"

lemma pop_default_Nil [simp]: "pop_default d [] = (d, [])"
  by (simp add: pop_default_def)

lemma pop_default_Cons [simp]: "pop_default d (x # xs) = (x, xs)"
  by (simp add: pop_default_def)

lemma set_snd_pop_default: "set (snd (pop_default d xs)) \<subseteq> set xs"
  by (cases xs) auto

lemma set_tl_subset: "set (tl xs) \<subseteq> set xs"
  by (cases xs) auto

lemma fst_pop_default: "fst (pop_default d xs) \<in> insert d (set xs)"
  by (cases xs) auto

end
