(* ===== verification/Chat_OS.thy ===== *)
theory Chat_OS
  imports Chat_Prelude
begin

text \<open>
  The operating system as the program sees it: sockets, epoll, the allocator and the clock. Each
  file descriptor has an input script (what the peer delivers and when), an output script (how much
  each write accepts) and the bytes transmitted so far. The record is extensible: the server and
  the client program add their own memory to it.
\<close>

section \<open>System state\<close>

datatype errno = EAGAIN | EWOULDBLOCK | EINTR | EBADF | EPIPE | EOTHER

datatype rd_ev = RdData "byte list" | RdEof | RdErr errno

datatype wr_ev = WrAccept nat | WrErr errno

datatype ac_ev = AcConn fd "rd_ev list" "wr_ev list" | AcErr errno

datatype epoll_data = DataFd fd | DataPtr ptr

type_synonym tm = "nat \<times> nat \<times> nat"

record os =
  inq :: "fd \<Rightarrow> rd_ev list"
  outq :: "fd \<Rightarrow> wr_ev list"
  sent :: "fd \<Rightarrow> byte list"
  opened :: "fd \<Rightarrow> bool"
  interest :: "fd \<Rightarrow> (32 word \<times> epoll_data) option"
  accepts :: "ac_ev list"
  mallocs :: "bool list"
  epctls :: "bool list"
  fcntls :: "bool list"
  closes :: "bool list"
  clock :: "tm option list"
  junk :: "nat \<Rightarrow> byte"
  brk :: ptr
  live_bufs :: int

text \<open>A quiet system: nothing open, no script, every allocation succeeding.\<close>

definition os0 :: os where
  "os0 = \<lparr>inq = (\<lambda>_. []), outq = (\<lambda>_. []), sent = (\<lambda>_. []), opened = (\<lambda>_. False),
          interest = (\<lambda>_. None), accepts = [], mallocs = [], epctls = [], fcntls = [],
          closes = [], clock = [], junk = (\<lambda>_. 0), brk = 16, live_bufs = 0\<rparr>"

section \<open>Sockets\<close>

text \<open>
  \<open>read\<close> returns at most \<open>count\<close> bytes of the next chunk, the empty list at end of stream, or an
  error; with nothing to deliver the descriptor would block. A read of zero bytes returns zero and
  takes nothing.
\<close>

definition sys_read :: "fd \<Rightarrow> nat \<Rightarrow> 'a os_scheme \<Rightarrow> (errno + byte list) \<times> 'a os_scheme" where
  "sys_read d count w =
     (if \<not> opened w d then (Inl EBADF, w)
      else if count = 0 then (Inr [], w)
      else case inq w d of
             [] \<Rightarrow> (Inl EAGAIN, w)
           | RdEof # _ \<Rightarrow> (Inr [], w)
           | RdErr e # evs \<Rightarrow> (Inl e, w\<lparr>inq := (inq w)(d := evs)\<rparr>)
           | RdData bs # evs \<Rightarrow>
               (Inr (take count bs),
                w\<lparr>inq := (inq w)(d := (if length bs \<le> count then evs
                                      else RdData (drop count bs) # evs))\<rparr>))"

text \<open>\<open>write\<close> and \<open>send\<close> transmit a prefix of the data and return its length.\<close>

definition sys_write :: "fd \<Rightarrow> byte list \<Rightarrow> 'a os_scheme \<Rightarrow> (errno + nat) \<times> 'a os_scheme" where
  "sys_write d data w =
     (if \<not> opened w d then (Inl EBADF, w)
      else case outq w d of
             [] \<Rightarrow> (Inl EAGAIN, w)
           | WrErr e # evs \<Rightarrow> (Inl e, w\<lparr>outq := (outq w)(d := evs)\<rparr>)
           | WrAccept n # evs \<Rightarrow>
               (let k = min n (length data)
                in (Inr k, w\<lparr>outq := (outq w)(d := evs),
                             sent := (sent w)(d := sent w d @ take k data)\<rparr>)))"

definition sys_close :: "fd \<Rightarrow> 'a os_scheme \<Rightarrow> int \<times> 'a os_scheme" where
  "sys_close d w =
     (if \<not> opened w d then (-1, w)
      else (let (b, cs) = pop_default True (closes w)
            in (if b then 0 else -1,
                w\<lparr>closes := cs, opened := (opened w)(d := False),
                  interest := (interest w)(d := None)\<rparr>)))"

text \<open>
  \<open>accept\<close> hands out a non-negative descriptor that is not in use, for a connection on which
  nothing has been sent and whose two scripts are its own; an entry of the script of \<open>accept\<close> that
  violates this counts as an error.
\<close>

definition sys_accept :: "'a os_scheme \<Rightarrow> (errno + fd) \<times> 'a os_scheme" where
  "sys_accept w =
     (case accepts w of
        [] \<Rightarrow> (Inl EAGAIN, w)
      | AcErr e # evs \<Rightarrow> (Inl e, w\<lparr>accepts := evs\<rparr>)
      | AcConn d rs ws # evs \<Rightarrow>
          if d < 0 \<or> opened w d then (Inl EOTHER, w\<lparr>accepts := evs\<rparr>)
          else (Inr d, w\<lparr>accepts := evs, opened := (opened w)(d := True),
                         inq := (inq w)(d := rs), outq := (outq w)(d := ws),
                         sent := (sent w)(d := [])\<rparr>))"

definition sys_fcntl_nonblock :: "fd \<Rightarrow> 'a os_scheme \<Rightarrow> int \<times> 'a os_scheme" where
  "sys_fcntl_nonblock d w =
     (let (b, fs) = pop_default True (fcntls w)
      in (if b \<and> opened w d then 0 else -1, w\<lparr>fcntls := fs\<rparr>))"

section \<open>epoll\<close>

definition EPOLLIN :: "32 word" where "EPOLLIN = 0x001"
definition EPOLLOUT :: "32 word" where "EPOLLOUT = 0x004"
definition EPOLLERR :: "32 word" where "EPOLLERR = 0x008"
definition EPOLLHUP :: "32 word" where "EPOLLHUP = 0x010"
definition EPOLLRDHUP :: "32 word" where "EPOLLRDHUP = 0x2000"

lemmas epoll_masks = EPOLLIN_def EPOLLOUT_def EPOLLERR_def EPOLLHUP_def EPOLLRDHUP_def

datatype epoll_op = EPOLL_CTL_ADD | EPOLL_CTL_MOD | EPOLL_CTL_DEL

definition epoll_ctl ::
  "epoll_op \<Rightarrow> fd \<Rightarrow> 32 word \<times> epoll_data \<Rightarrow> 'a os_scheme \<Rightarrow> int \<times> 'a os_scheme" where
  "epoll_ctl op d ev w =
     (let (b, es) = pop_default True (epctls w);
          legal = (case op of EPOLL_CTL_ADD \<Rightarrow> opened w d \<and> interest w d = None
                            | EPOLL_CTL_MOD \<Rightarrow> interest w d \<noteq> None
                            | EPOLL_CTL_DEL \<Rightarrow> interest w d \<noteq> None)
      in if b \<and> legal
         then (0, w\<lparr>epctls := es,
                    interest := (interest w)(d := (if op = EPOLL_CTL_DEL then None else Some ev))\<rparr>)
         else (-1, w\<lparr>epctls := es\<rparr>))"

section \<open>Memory\<close>

text \<open>
  An allocation succeeds when the allocator's script says so, and never beyond \<open>PTRDIFF_MAX\<close>.
  Addresses are multiples of 16 and are not reused, so that a stale pointer is never mistaken for
  a live one. The content of fresh memory is arbitrary. Anonymous byte buffers are values; only
  their number is tracked, in \<open>live_bufs\<close>.
\<close>

definition PTRDIFF_MAX :: nat where "PTRDIFF_MAX = 2 ^ 63 - 1"

definition malloc_ok :: "nat \<Rightarrow> 'a os_scheme \<Rightarrow> bool \<times> 'a os_scheme" where
  "malloc_ok n w =
     (let (b, ms) = pop_default True (mallocs w)
      in (b \<and> n \<le> PTRDIFF_MAX, w\<lparr>mallocs := ms\<rparr>))"

definition malloc_buf :: "nat \<Rightarrow> 'a os_scheme \<Rightarrow> byte list option \<times> 'a os_scheme" where
  "malloc_buf n w =
     (let (b, w1) = malloc_ok n w
      in if b then (Some (map (junk w) [0..<n]), w1\<lparr>live_bufs := live_bufs w1 + 1\<rparr>)
         else (None, w1))"

text \<open>\<open>realloc\<close> keeps the old content up to the new size; on failure the old block stays.\<close>

definition realloc_buf ::
  "byte list option \<Rightarrow> nat \<Rightarrow> 'a os_scheme \<Rightarrow> byte list option \<times> 'a os_scheme" where
  "realloc_buf p n w =
     (case p of
        None \<Rightarrow> malloc_buf n w
      | Some old \<Rightarrow>
          (let (b, w1) = malloc_ok n w
           in if b then (Some (take n old @ map (junk w) [length old..<n]), w1) else (None, w1)))"

definition free_buf :: "byte list option \<Rightarrow> 'a os_scheme \<Rightarrow> 'a os_scheme" where
  "free_buf p w = (if p = None then w else w\<lparr>live_bufs := live_bufs w - 1\<rparr>)"

definition fresh_ptr :: "'a os_scheme \<Rightarrow> ptr \<times> 'a os_scheme" where
  "fresh_ptr w = (brk w, w\<lparr>brk := brk w + 16\<rparr>)"

text \<open>The wall clock, and the environment under which no allocation or clock call fails.\<close>

definition sys_localtime :: "'a os_scheme \<Rightarrow> tm option \<times> 'a os_scheme" where
  "sys_localtime w =
     (let (t, ts) = pop_default (Some (0, 0, 0)) (clock w) in (t, w\<lparr>clock := ts\<rparr>))"

definition memory_available :: "'a os_scheme \<Rightarrow> bool" where
  "memory_available w \<longleftrightarrow> (\<forall>b \<in> set (mallocs w). b)"

lemma malloc_ok_available:
  "memory_available w \<Longrightarrow> n \<le> PTRDIFF_MAX \<Longrightarrow>
     malloc_ok n w = (True, w\<lparr>mallocs := tl (mallocs w)\<rparr>)"
  by (cases "mallocs w") (auto simp: malloc_ok_def memory_available_def)

lemma memory_available_tl [simp]:
  "memory_available w \<Longrightarrow> memory_available (w\<lparr>mallocs := tl (mallocs w)\<rparr>)"
  by (cases "mallocs w") (auto simp: memory_available_def)

section \<open>What a descriptor delivers\<close>

text \<open>
  \<open>avail\<close> is the data a reader that retries on \<open>EINTR\<close> obtains before the first end of stream,
  error or empty script. \<open>room\<close> bounds what the output script accepts.
\<close>

fun avail :: "rd_ev list \<Rightarrow> byte list" where
  "avail [] = []"
| "avail (RdData bs # evs) = (if bs = [] then [] else bs @ avail evs)"
| "avail (RdErr EINTR # evs) = avail evs"
| "avail (_ # evs) = []"

text \<open>\<open>rd_data\<close> is everything an input script still delivers.\<close>

fun rd_data :: "rd_ev list \<Rightarrow> byte list" where
  "rd_data [] = []"
| "rd_data (RdData bs # evs) = bs @ rd_data evs"
| "rd_data (_ # evs) = rd_data evs"

lemma sys_read_length: "sys_read d n w = (Inr bs, w') \<Longrightarrow> length bs \<le> n"
  by (auto simp: sys_read_def split: if_splits list.splits rd_ev.splits)

lemma sys_read_avail:
  assumes "sys_read d n w = (Inr bs, w')" "0 < n"
  shows "avail (inq w d) = bs @ (if bs = [] then [] else avail (inq w' d))"
  using assms
  by (auto simp: sys_read_def split: if_splits list.splits rd_ev.splits)

lemma sys_write_sent:
  "sys_write d data w = (Inr k, w') \<Longrightarrow>
     k \<le> length data \<and> sent w' = (sent w)(d := sent w d @ take k data)"
  by (auto simp: sys_write_def Let_def split: if_splits list.splits wr_ev.splits)

lemma sys_write_err: "sys_write d data w = (Inl e, w') \<Longrightarrow> sent w' = sent w"
  by (auto simp: sys_write_def Let_def split: if_splits list.splits wr_ev.splits)

lemma sys_write_script:
  "sys_write d data w = (r, w') \<Longrightarrow> r \<noteq> Inl EBADF \<Longrightarrow> r \<noteq> Inl EAGAIN \<Longrightarrow>
     length (outq w' d) < length (outq w d)"
  by (auto simp: sys_write_def Let_def split: if_splits list.splits wr_ev.splits)

end
