(* ===== verification/Chat_Protocol.thy ===== *)
theory Chat_Protocol
  imports Chat_OS "HOL-Library.Sublist"
begin

text \<open>
  The wire protocol (src/common/protocol.c, include/protocol.h) and the blocking transfer loops
  under it (src/common/io.c): the packed six-byte header in network byte order, its construction,
  and the functions that read and write headers, payloads and packets.
\<close>

definition MSG_TYPE_NORMAL :: byte where "MSG_TYPE_NORMAL = 0x00"
definition MSG_TYPE_ADMIN :: byte where "MSG_TYPE_ADMIN = 0x01"
definition MSG_SIZE_LIMIT :: nat where "MSG_SIZE_LIMIT = 65536"
definition BUF_SIZE :: nat where "BUF_SIZE = 4096"

text \<open>\<open>sizeof (struct msg_header)\<close> of the packed structure.\<close>

definition HEADER_SIZE :: nat where "HEADER_SIZE = 6"

section \<open>The header\<close>

text \<open>The fields hold what the memory holds: \<open>hdr_len\<close> is in network order.\<close>

record msg_header =
  hdr_len :: "32 word"
  hdr_type :: byte
  hdr_done :: byte

text \<open>Byte order conversion on the little-endian hosts the program is built for.\<close>

definition htonl :: "32 word \<Rightarrow> 32 word" where
  "htonl w = push_bit 24 (w AND 0xFF) OR push_bit 8 (w AND 0xFF00)
             OR drop_bit 8 (w AND 0xFF0000) OR drop_bit 24 w"

definition ntohl :: "32 word \<Rightarrow> 32 word" where
  "ntohl w = htonl w"

text \<open>The memory image of a little-endian 32-bit field and of the packed header.\<close>

definition u32_image :: "32 word \<Rightarrow> byte list" where
  "u32_image w = [ucast w, ucast (drop_bit 8 w), ucast (drop_bit 16 w), ucast (drop_bit 24 w)]"

definition u32_of_image :: "byte \<Rightarrow> byte \<Rightarrow> byte \<Rightarrow> byte \<Rightarrow> 32 word" where
  "u32_of_image a b c d =
     ucast a OR push_bit 8 (ucast b) OR push_bit 16 (ucast c) OR push_bit 24 (ucast d)"

definition header_image :: "msg_header \<Rightarrow> byte list" where
  "header_image h = u32_image (hdr_len h) @ [hdr_type h, hdr_done h]"

fun header_of_image :: "byte list \<Rightarrow> msg_header option" where
  "header_of_image [a, b, c, d, t, f] =
     Some \<lparr>hdr_len = u32_of_image a b c d, hdr_type = t, hdr_done = f\<rparr>"
| "header_of_image _ = None"

text \<open>\<open>create_header\<close>: the target pointer is \<open>None\<close> for NULL; the length is cut to 32 bits.\<close>

definition create_header ::
  "msg_header option \<Rightarrow> nat \<Rightarrow> byte \<Rightarrow> bool \<Rightarrow> int \<times> msg_header option" where
  "create_header header_out len ty fin =
     (case header_out of
        None \<Rightarrow> (-1, None)
      | Some _ \<Rightarrow> (0, Some \<lparr>hdr_len = htonl (of_nat len), hdr_type = ty,
                         hdr_done = (if fin then 1 else 0)\<rparr>))"

section \<open>Transfer loops\<close>

text \<open>
  \<open>read_all\<close> and \<open>write_all\<close>. The accumulator of \<open>read_all_from\<close> is the part of the buffer already
  filled, so \<open>total_read\<close> is its length; \<open>done\<close> in \<open>write_all_from\<close> is \<open>total_written\<close>.
\<close>

partial_function (option) read_all_from ::
  "fd \<Rightarrow> nat \<Rightarrow> byte list \<Rightarrow> 'a os_scheme \<Rightarrow> ((int \<times> byte list) \<times> 'a os_scheme) option" where
  "read_all_from d count acc w =
     (if length acc < count then
        case sys_read d (count - length acc) w of
          (Inl e, w1) \<Rightarrow> if e = EINTR then read_all_from d count acc w1 else Some ((-1, acc), w1)
        | (Inr bs, w1) \<Rightarrow>
            if bs = [] then Some ((int (length acc), acc), w1)
            else read_all_from d count (acc @ bs) w1
      else Some ((int (length acc), acc), w))"

definition read_all ::
  "fd \<Rightarrow> nat \<Rightarrow> 'a os_scheme \<Rightarrow> ((int \<times> byte list) \<times> 'a os_scheme) option" where
  "read_all d count w = read_all_from d count [] w"

partial_function (option) write_all_from ::
  "fd \<Rightarrow> byte list \<Rightarrow> nat \<Rightarrow> 'a os_scheme \<Rightarrow> (int \<times> 'a os_scheme) option" where
  "write_all_from d data done w =
     (if done < length data then
        case sys_write d (drop done data) w of
          (Inl e, w1) \<Rightarrow> if e = EINTR then write_all_from d data done w1 else Some (-1, w1)
        | (Inr n, w1) \<Rightarrow>
            if n = 0 then Some (int done, w1) else write_all_from d data (done + n) w1
      else Some (int done, w))"

definition write_all :: "fd \<Rightarrow> byte list \<Rightarrow> 'a os_scheme \<Rightarrow> (int \<times> 'a os_scheme) option" where
  "write_all d data w = write_all_from d data 0 w"

section \<open>Packets\<close>

text \<open>
  \<open>read_header\<close> fills the structure byte by byte: a short read leaves the rest as it was, so the
  result carries the bytes that arrived.
\<close>

definition read_header ::
  "fd \<Rightarrow> 'a os_scheme \<Rightarrow> ((int \<times> byte list) \<times> 'a os_scheme) option" where
  "read_header d w = read_all d HEADER_SIZE w"

text \<open>
  \<open>read_payload\<close> allocates \<open>msg_len + 1\<close> bytes, NUL-terminates them and reads into them. The
  result pairs the return value with the buffer left in \<open>*payload_out\<close>.
\<close>

definition read_payload ::
  "fd \<Rightarrow> nat \<Rightarrow> 'a os_scheme \<Rightarrow> ((int \<times> byte list option) \<times> 'a os_scheme) option" where
  "read_payload d n w =
     (case malloc_buf (sz_add n 1) w of
        (None, w1) \<Rightarrow> Some ((-1, None), w1)
      | (Some buf, w1) \<Rightarrow> do {
          buf1 \<leftarrow> memcpy_at buf n [0];
          ((r, bs), w2) \<leftarrow> read_all d n w1;
          buf2 \<leftarrow> memcpy_at buf1 0 bs;
          Some ((r, Some buf2), w2)
        })"

definition write_header :: "fd \<Rightarrow> msg_header \<Rightarrow> 'a os_scheme \<Rightarrow> (int \<times> 'a os_scheme) option" where
  "write_header d h w = write_all d (header_image h) w"

definition write_payload ::
  "fd \<Rightarrow> byte list \<Rightarrow> nat \<Rightarrow> 'a os_scheme \<Rightarrow> (int \<times> 'a os_scheme) option" where
  "write_payload d payload n w = do { data \<leftarrow> slice payload 0 n; write_all d data w }"

definition write_packet ::
  "fd \<Rightarrow> msg_header \<Rightarrow> byte list \<Rightarrow> nat \<Rightarrow> 'a os_scheme \<Rightarrow> (int \<times> 'a os_scheme) option" where
  "write_packet d h payload n w = do {
     (r, w1) \<leftarrow> write_header d h w;
     if r = -1 then Some (-1, w1) else write_payload d payload n w1
   }"

text \<open>
  \<open>read_packet\<close>: the payload buffer is allocated twice, the first block is lost when
  \<open>read_payload\<close> overwrites the pointer. \<open>old\<close> is the content of the header structure before the
  call, which a short header read leaves in place.
\<close>

definition read_packet ::
  "fd \<Rightarrow> byte list \<Rightarrow> 'a os_scheme
     \<Rightarrow> ((int \<times> byte list \<times> byte list option) \<times> 'a os_scheme) option" where
  "read_packet d old w = do {
     ((r, bs), w1) \<leftarrow> read_header d w;
     hdr \<leftarrow> memcpy_at old 0 bs;
     if r \<le> 0 then Some ((r, hdr, None), w1)
     else do {
       h \<leftarrow> header_of_image hdr;
       let n = unat (ntohl (hdr_len h));
       case malloc_buf n w1 of
         (None, w2) \<Rightarrow> Some ((-1, hdr, None), w2)
       | (Some _, w2) \<Rightarrow> do {
           ((r2, p), w3) \<leftarrow> read_payload d n w2;
           if r2 \<le> 0 then Some ((r2, hdr, None), free_buf p w3)
           else Some ((r2, hdr, p), w3)
         }
     }
   }"

section \<open>Byte order and the header image\<close>

text \<open>Byte swapping is an involution, and the swapped field goes out most significant byte first.\<close>

lemma byte_masks:
  "(0xFF :: 32 word) = mask 8" "(0xFF00 :: 32 word) = push_bit 8 (mask 8)"
  "(0xFF0000 :: 32 word) = push_bit 16 (mask 8)"
  by (simp_all add: mask_eq_exp_minus_1 push_bit_eq_mult)

lemma bit_htonl:
  "bit (htonl w) n \<longleftrightarrow>
     (if n < 8 then bit w (n + 24) else if n < 16 then bit w (n + 8)
      else if n < 24 then bit w (n - 8) else n < 32 \<and> bit w (n - 24))"
proof -
  consider "n < 8" | "8 \<le> n" "n < 16" | "16 \<le> n" "n < 24" | "24 \<le> n" "n < 32" | "32 \<le> n"
    by linarith
  then show ?thesis
    by cases (auto simp: htonl_def byte_masks bit_simps add.commute dest: bit_imp_le_length)
qed

lemma ntohl_htonl [simp]: "ntohl (htonl w) = w"
proof (rule bit_word_eqI)
  fix n assume "n < LENGTH(32)"
  then consider "n < 8" | "8 \<le> n" "n < 16" | "16 \<le> n" "n < 24" | "24 \<le> n" "n < 32" by force
  then show "bit (ntohl (htonl w)) n = bit w n"
    by cases (auto simp: ntohl_def bit_htonl)
qed

lemma u32_of_image_image [simp]:
  "u32_of_image (ucast w) (ucast (drop_bit 8 w)) (ucast (drop_bit 16 w)) (ucast (drop_bit 24 w)) = w"
proof (rule bit_word_eqI)
  fix n assume "n < LENGTH(32)"
  then consider "n < 8" | "8 \<le> n" "n < 16" | "16 \<le> n" "n < 24" | "24 \<le> n" "n < 32" by force
  then show "bit (u32_of_image (ucast w) (ucast (drop_bit 8 w)) (ucast (drop_bit 16 w))
              (ucast (drop_bit 24 w))) n = bit w n"
    by cases (auto simp: u32_of_image_def bit_simps)
qed

lemma u32_image_htonl:
  "u32_image (htonl w) = [ucast (drop_bit 24 w), ucast (drop_bit 16 w), ucast (drop_bit 8 w), ucast w]"
  unfolding u32_image_def list.inject
  by (intro conjI refl bit_word_eqI) (auto simp: bit_htonl bit_simps add.commute)

lemma length_header_image [simp]: "length (header_image h) = HEADER_SIZE"
  by (simp add: header_image_def u32_image_def HEADER_SIZE_def)

lemma header_image_nonempty [simp]: "header_image h \<noteq> []"
  by (simp add: header_image_def)

lemma header_of_image_image [simp]: "header_of_image (header_image h) = Some h"
  by (simp add: header_image_def u32_image_def)

section \<open>The transfer loops are total\<close>

lemma inq_triv [simp]: "w\<lparr>inq := inq w\<rparr> = (w :: 'a os_scheme)"
  by (cases w) simp

lemma sys_read_frame:
  "sys_read d n w = (r, w1) \<Longrightarrow> w1 = w\<lparr>inq := (inq w)(d := inq w1 d)\<rparr>"
  by (auto simp: sys_read_def fun_upd_idem split: if_splits list.splits rd_ev.splits)

lemma sys_read_err:
  assumes "sys_read d n w = (Inl e, w1)" "opened w d"
  shows "if e = EINTR then avail (inq w1 d) = avail (inq w d) \<and> length (inq w1 d) < length (inq w d)
         else avail (inq w d) = []"
  using assms
  by (cases e) (auto simp: sys_read_def split: if_splits list.splits rd_ev.splits)

lemma sys_read_data:
  assumes "sys_read d n w = (Inr bs, w1)" "opened w d" "0 < n"
  shows "length (inq w1 d) \<le> length (inq w d)" "length bs \<le> n"
    "avail (inq w d) = bs @ (if bs = [] then [] else avail (inq w1 d))"
  using assms
  by (auto simp: sys_read_def split: if_splits list.splits rd_ev.splits)

lemma read_all_from_spec:
  fixes w :: "'a os_scheme"
  assumes "opened w d" "length acc \<le> count"
  shows "ok (read_all_from d count acc w) (\<lambda>((r, out), w').
           out = acc @ take (count - length acc) (avail (inq w d)) \<and>
           (r = -1 \<or> r = int (length out)) \<and>
           (count \<le> length acc + length (avail (inq w d)) \<longrightarrow>
              r = int count \<and> avail (inq w' d) = drop (count - length acc) (avail (inq w d))) \<and>
           w' = w\<lparr>inq := (inq w)(d := inq w' d)\<rparr>)"
  using assms
proof (induction "count - length acc + length (inq w d)" arbitrary: acc w rule: less_induct)
  case (less acc w)
  show ?case
  proof (cases "length acc < count")
    case False
    with less.prems show ?thesis by (simp add: read_all_from.simps)
  next
    case lt: True
    obtain r w1 where r: "sys_read d (count - length acc) w = (r, w1)" by fastforce
    obtain q where w1: "w1 = w\<lparr>inq := (inq w)(d := q)\<rparr>" using sys_read_frame [OF r] by blast
    show ?thesis
    proof (cases r)
      case (Inl e)
      show ?thesis
      proof (cases "e = EINTR")
        case True
        then have *: "avail q = avail (inq w d)" "length q < length (inq w d)"
          using sys_read_err r Inl less.prems(1) w1 by fastforce+
        show ?thesis 
          using less.hyps [of acc w1] less.prems lt r Inl True *
          by (simp add: read_all_from.simps [of d count acc w] w1)
      next
        case False
        then show ?thesis 
          using sys_read_err r Inl less.prems lt w1
          by (fastforce simp add: read_all_from.simps [of d count acc w])
      qed
    next
      case (Inr bs)
      note data = sys_read_data [OF r [unfolded Inr] less.prems(1)]
      show ?thesis
      proof (cases "bs = []")
        case True
        then show ?thesis 
          using data lt r Inr w1 by (simp add: read_all_from.simps [of d count acc w])
      next
        case False
        then have ne: "0 < length bs" by simp
        have dec: "count - length (acc @ bs) + length (inq w1 d)
                        < count - length acc + length (inq w d)"
          using data(1,2) lt ne unfolding length_append by linarith
        show ?thesis 
          using less.hyps [OF dec] data lt r Inr less.prems False
          by (simp add: read_all_from.simps [of d count acc w] w1 ok_conv split_beta add.assoc)
      qed
    qed
  qed
qed

lemma outq_triv [simp]: "w\<lparr>outq := outq w\<rparr> = (w :: 'a os_scheme)"
  by (cases w) simp

lemma sent_triv [simp]: "w\<lparr>sent := sent w\<rparr> = (w :: 'a os_scheme)"
  by (cases w) simp

lemma sys_write_cases:
  assumes "sys_write d data w = (r, w1)" "opened w d"
  obtains (blocked) "r = Inl EAGAIN" "outq w d = []" "w1 = w"
  | (failed) e q where "r = Inl e" "outq w d = WrErr e # q" "w1 = w\<lparr>outq := (outq w)(d := q)\<rparr>"
  | (accepted) n q where "r = Inr (min n (length data))" "outq w d = WrAccept n # q"
      "w1 = w\<lparr>outq := (outq w)(d := q), sent := (sent w)(d := sent w d @ take n data)\<rparr>"
  using assms
  by (auto simp: sys_write_def Let_def min_def split: list.splits wr_ev.splits)

fun room :: "wr_ev list \<Rightarrow> nat" where
  "room [] = 0"
| "room (WrAccept n # evs) = n + (if n = 0 then 0 else room evs)"
| "room (WrErr EINTR # evs) = room evs"
| "room (WrErr _ # evs) = 0"

text \<open>
  Whether an output script takes \<open>n\<close> bytes from a writer that retries on \<open>EINTR\<close>, as a function of
  the script alone: the script left over when it does, \<open>None\<close> when the writer meets an error, a
  write of nothing or a full socket first. \<open>absorbs\<close> is the same for several writes in a row.
\<close>

primrec absorb :: "nat \<Rightarrow> wr_ev list \<Rightarrow> wr_ev list option" where
  "absorb n [] = (if n = 0 then Some [] else None)"
| "absorb n (e # ws) =
     (if n = 0 then Some (e # ws)
      else case e of
             WrAccept k \<Rightarrow> if k = 0 then None else absorb (n - k) ws
           | WrErr x \<Rightarrow> if x = EINTR then absorb n ws else None)"

primrec absorbs :: "nat list \<Rightarrow> wr_ev list \<Rightarrow> wr_ev list option" where
  "absorbs [] ws = Some ws"
| "absorbs (n # ns) ws = Option.bind (absorb n ws) (absorbs ns)"

lemma absorb_0 [simp]: "absorb 0 ws = Some ws"
  by (cases ws) simp_all

lemma absorbs_append: "absorbs (xs @ ys) ws = Option.bind (absorbs xs ws) (absorbs ys)"
proof (induction xs arbitrary: ws)
  case (Cons x xs)
  then show ?case by (cases "absorb x ws") simp_all
qed simp

text \<open>
  \<open>wrote d data off w r w'\<close>: from offset \<open>off\<close> on, the loop went from \<open>w\<close> to \<open>w'\<close> and returned
  \<open>r\<close>; what was transmitted is a contiguous part of the data, all of it exactly when the socket
  takes what was left.
\<close>

definition wrote ::
  "fd \<Rightarrow> byte list \<Rightarrow> nat \<Rightarrow> 'a os_scheme \<Rightarrow> int \<Rightarrow> 'a os_scheme \<Rightarrow> bool" where
  "wrote d data off w r w' \<longleftrightarrow>
     (\<exists>k. off \<le> k \<and> k \<le> length data \<and> (r = int k \<or> r = -1 \<and> k < length data) \<and>
        sent w' d = sent w d @ take (k - off) (drop off data)) \<and>
     (length data - off \<le> room (outq w d) \<longrightarrow> r = int (length data)) \<and>
     absorb (length data - off) (outq w d)
       = (if r = int (length data) then Some (outq w' d) else None) \<and>
     (WrAccept 0 \<notin> set (outq w d) \<longrightarrow> r = -1 \<or> r = int (length data)) \<and>
     set (outq w' d) \<subseteq> set (outq w d) \<and>
     w' = w\<lparr>outq := (outq w)(d := outq w' d), sent := (sent w)(d := sent w' d)\<rparr>"

lemma wrote_stop:
  assumes "off \<le> length data" "r = int off \<or> r = -1 \<and> off < length data"
    "off < length data \<Longrightarrow> room (outq w d) = 0"
    "off < length data \<Longrightarrow> r = -1 \<or> WrAccept 0 \<in> set (outq w d)"
    "set q \<subseteq> set (outq w d)" "w1 = w\<lparr>outq := (outq w)(d := q)\<rparr>"
    "off = length data \<Longrightarrow> r = int off \<and> q = outq w d"
    "off < length data \<Longrightarrow> absorb (length data - off) (outq w d) = None"
  shows "wrote d data off w r w1"
  using assms unfolding wrote_def by (cases "off < length data") (auto intro!: exI [of _ off])

lemma wrote_retry:
  assumes "wrote d data off (w\<lparr>outq := (outq w)(d := q)\<rparr>) r w'" "room q = room (outq w d)"
    "set q \<subseteq> set (outq w d)" "absorb (length data - off) q = absorb (length data - off) (outq w d)"
  shows "wrote d data off w r w'"
  using assms unfolding wrote_def by (simp, blast)

lemma wrote_more:
  assumes "wrote d data (off + k) w1 r w'" "k \<le> n" "k = min n (length data - off)"
    and w1: "w1 = w\<lparr>outq := (outq w)(d := q), sent := (sent w)(d := sent w d @ take n (drop off data))\<rparr>"
    and "room (outq w d) \<le> n + room q" "off \<le> length data" "set q \<subseteq> set (outq w d)"
    and takes: "absorb (length data - off) (outq w d) = absorb (length data - off - n) q"
  shows "wrote d data off w r w'"
proof -
  from assms(1) obtain k' where k': "off + k \<le> k'" "k' \<le> length data"
    "r = int k' \<or> r = -1 \<and> k' < length data"
    "sent w' d = sent w1 d @ take (k' - (off + k)) (drop (off + k) data)"
    and rest: "length data - (off + k) \<le> room (outq w1 d) \<longrightarrow> r = int (length data)"
    "w' = w1\<lparr>outq := (outq w1)(d := outq w' d), sent := (sent w1)(d := sent w' d)\<rparr>"
    "WrAccept 0 \<notin> set (outq w1 d) \<longrightarrow> r = -1 \<or> r = int (length data)"
    "set (outq w' d) \<subseteq> set (outq w1 d)"
    "absorb (length data - (off + k)) (outq w1 d)
       = (if r = int (length data) then Some (outq w' d) else None)"
    unfolding wrote_def by blast
  have left: "length data - (off + k) = length data - off - n" using assms(3) by simp
  have absorbed: "absorb (length data - off) (outq w d)
      = (if r = int (length data) then Some (outq w' d) else None)"
    using rest(5) takes unfolding left by (simp add: w1)
  have noz: "WrAccept 0 \<notin> set (outq w d) \<longrightarrow> r = -1 \<or> r = int (length data)"
    "set (outq w' d) \<subseteq> set (outq w d)"
    using rest(3,4) assms(7) w1 by auto
  have "take n (drop off data) = take k (drop off data)"
    using assms(3) by (simp add: min_def)
  moreover have "take k (drop off data) @ take (k' - (off + k)) (drop (off + k) data)
      = take (k' - off) (drop off data)"
    using k'(1) take_add [of k "k' - (off + k)" "drop off data"] by (simp add: add.commute)
  ultimately have "sent w' d = sent w d @ take (k' - off) (drop off data)"
    using k'(4) w1 by simp
  moreover have "length data - off \<le> room (outq w d) \<longrightarrow> r = int (length data)"
    using rest(1) w1 assms(3,5) by (auto simp: min_def split: if_splits)
  moreover have "w' = w\<lparr>outq := (outq w)(d := outq w' d), sent := (sent w)(d := sent w' d)\<rparr>"
    by (subst rest(2)) (simp add: w1)
  ultimately show ?thesis
    unfolding wrote_def
    by (intro conjI exI [of _ k']) (use k'(1-3) noz absorbed in simp_all)
qed

lemma write_all_from_spec:
  fixes w :: "'a os_scheme"
  assumes "opened w d" "off \<le> length data"
  shows "ok (write_all_from d data off w) (\<lambda>(r, w'). wrote d data off w r w')"
  using assms
proof (induction "length (outq w d)" arbitrary: off w rule: less_induct)
  case (less w off)
  note unf = write_all_from.simps [of d data off w]
  show ?case
  proof (cases "off < length data")
    case False
    then show ?thesis
      using less.prems by (subst unf) (simp add: wrote_stop [where q = "outq w d"])
  next
    case lt: True
    obtain r w1 where r: "sys_write d (drop off data) w = (r, w1)" by fastforce
    from r less.prems(1) show ?thesis
    proof (cases rule: sys_write_cases)
      case blocked
      with lt r show ?thesis
        by (simp add: unf wrote_stop [where q = "[]"] fun_upd_idem)
    next
      case (failed e q)
      show ?thesis
      proof (cases "e = EINTR")
        case True
        have "ok (write_all_from d data off w1) (\<lambda>(r, w'). wrote d data off w1 r w')"
          using less.hyps [of w1 off] failed less.prems by simp
        then have "ok (write_all_from d data off w1) (\<lambda>(r, w'). wrote d data off w r w')"
          by (rule ok_weaken) (use lt in \<open>auto simp: failed True intro: wrote_retry [where q = q]\<close>)
        with True failed lt r show ?thesis by (simp add: unf)
      next
        case False
        then have "room (outq w d) = 0" using failed by (cases e) auto
        then have "wrote d data off w (-1) w1"
          by (intro wrote_stop [where q = q]) (use failed lt False in auto)
        with failed lt r False show ?thesis by (simp add: unf)
      qed
    next
      case (accepted n q)
      show ?thesis
      proof (cases "n = 0")
        case True
        then have "wrote d data off w (int off) w1"
          by (intro wrote_stop [where q = q]) (use accepted lt in \<open>auto simp: fun_upd_idem\<close>)
        with accepted lt r True show ?thesis by (simp add: unf)
      next
        case False
        let ?k = "min n (length data - off)"
        have "ok (write_all_from d data (off + ?k) w1) (\<lambda>(r, w'). wrote d data (off + ?k) w1 r w')"
          using less.hyps [of w1 "off + ?k"] accepted lt less.prems(1) by simp
        then have "ok (write_all_from d data (off + ?k) w1) (\<lambda>(r, w'). wrote d data off w r w')"
        proof (rule ok_weaken, clarify)
          fix r w'
          assume "wrote d data (off + ?k) w1 r w'"
          then show "wrote d data off w r w'"
            by (rule wrote_more [OF _ _ refl accepted(3)]) (use accepted(2) lt False in auto)
        qed
        moreover have "min n (length data - off) \<noteq> 0" using False lt by simp
        ultimately show ?thesis using accepted(1) lt r by (simp add: unf) (simp add: min_def)
      qed
    qed
  qed
qed



lemma write_all_spec:
  "opened w d \<Longrightarrow> ok (write_all d data w) (\<lambda>(r, w'). wrote d data 0 w r w')"
  by (simp add: write_all_def write_all_from_spec)

lemma read_all_spec:
  fixes w :: "'a os_scheme"
  assumes "opened w d"
  shows "ok (read_all d n w) (\<lambda>((r, out), w').
           out = take n (avail (inq w d)) \<and> (r = -1 \<or> r = int (length out)) \<and>
           (n \<le> length (avail (inq w d)) \<longrightarrow>
              r = int n \<and> avail (inq w' d) = drop n (avail (inq w d))) \<and>
           w' = w\<lparr>inq := (inq w)(d := inq w' d)\<rparr>)"
  unfolding read_all_def
  by (rule ok_weaken [OF read_all_from_spec]) (use assms in auto)

section \<open>The wire format as a codec\<close>

text \<open>
  The interface between the two ends of a connection: an encoder and a decoder that returns the
  rest of the stream, with the law that decoding undoes encoding in front of any continuation.
\<close>

locale stream_codec =
  fixes enc :: "'m \<Rightarrow> 'b list"
    and dec :: "'b list \<Rightarrow> ('m \<times> 'b list) option"
    and wf :: "'m \<Rightarrow> bool"
  assumes dec_enc: "wf m \<Longrightarrow> dec (enc m @ r) = Some (m, r)"
begin

lemma enc_prefix_free:
  assumes "wf m" "wf m'" "enc m @ r = enc m' @ r'"
  shows "m = m' \<and> r = r'"
proof -
  have "Some (m, r) = Some (m', r')"
    unfolding dec_enc [OF assms(1), of r, symmetric] dec_enc [OF assms(2), of r', symmetric]
    by (rule arg_cong [OF assms(3)])
  then show ?thesis by simp
qed

lemma frames_unique:
  assumes "\<forall>m \<in> set ms. wf m" "\<forall>m \<in> set ms'. wf m" "length ms = length ms'"
    "concat (map enc ms) @ r = concat (map enc ms') @ r'"
  shows "ms = ms' \<and> r = r'"
  using assms(3,1,2,4)
proof (induction ms ms' rule: list_induct2)
  case (Cons m ms m' ms')
  have "m = m' \<and> concat (map enc ms) @ r = concat (map enc ms') @ r'"
    by (rule enc_prefix_free) (use Cons.prems in simp_all)
  then show ?case
    using Cons.IH Cons.prems(1,2) by simp
qed simp

end

locale stream_decoder = stream_codec +
  fixes decs :: "'b list \<Rightarrow> 'm list \<times> 'b list"
  assumes decs_step:
    "decs bs = (case dec bs of None \<Rightarrow> ([], bs)
                | Some (m, r) \<Rightarrow> (let (ms, t) = decs r in (m # ms, t)))"
    and dec_part: "wf m \<Longrightarrow> strict_prefix bs (enc m) \<Longrightarrow> dec bs = None"
    and dec_Nil: "dec [] = None"
begin

lemma decs_frames:
  "\<forall>m \<in> set ms. wf m \<Longrightarrow>
     decs (concat (map enc ms) @ r) = (let (ms', t) = decs r in (ms @ ms', t))"
proof (induction ms)
  case (Cons m ms)
  have "decs (enc m @ (concat (map enc ms) @ r))
      = (let (ms', t) = decs (concat (map enc ms) @ r) in (m # ms', t))"
    by (subst decs_step) (use Cons.prems in \<open>simp add: dec_enc\<close>)
  with Cons show ?case by (simp add: split_beta Let_def)
qed (simp add: split_beta)

lemma decs_all: "\<forall>m \<in> set ms. wf m \<Longrightarrow> dec r = None \<Longrightarrow> decs (concat (map enc ms) @ r) = (ms, r)"
  by (simp add: decs_frames) (subst decs_step, simp)

text \<open>Whatever part of a stream of frames has arrived, it decodes to a prefix of the messages.\<close>

lemma decs_prefix:
  assumes "\<forall>m \<in> set ms. wf m" "prefix bs (concat (map enc ms))"
  shows "prefix (fst (decs bs)) ms"
  using assms
proof (induction ms arbitrary: bs)
  case Nil
  then show ?case by (subst decs_step) (simp add: dec_Nil)
next
  case (Cons m ms)
  have "prefix bs (enc m @ concat (map enc ms))" using Cons.prems(2) by simp
  then consider "strict_prefix bs (enc m)" | r where "bs = enc m @ r" "prefix r (concat (map enc ms))"
    by (metis prefix_append prefix_order.less_le append.right_neutral prefix_bot.bot_least)
  then show ?case
  proof cases
    case 1
    then show ?thesis using Cons.prems(1) dec_part [of m bs] by (subst decs_step) simp
  next
    case 2
    then show ?thesis
      using Cons.IH [OF _ 2(2)] Cons.prems(1) by (subst decs_step) (simp add: dec_enc split_beta Let_def)
  qed
qed

end

type_synonym wire_msg = "byte list \<times> byte \<times> bool"

definition mk_header :: "nat \<Rightarrow> byte \<Rightarrow> bool \<Rightarrow> msg_header" where
  "mk_header n ty fin = \<lparr>hdr_len = htonl (of_nat n), hdr_type = ty, hdr_done = (if fin then 1 else 0)\<rparr>"

definition wire :: "wire_msg \<Rightarrow> byte list" where
  "wire m = (case m of (p, ty, fin) \<Rightarrow> header_image (mk_header (length p) ty fin) @ p)"

definition wf_msg :: "wire_msg \<Rightarrow> bool" where
  "wf_msg m \<longleftrightarrow> length (fst m) < 2 ^ 32"

definition un_wire :: "byte list \<Rightarrow> (wire_msg \<times> byte list) option" where
  "un_wire bs =
     (case header_of_image (take HEADER_SIZE bs) of
        None \<Rightarrow> None
      | Some h \<Rightarrow>
          (let n = unat (ntohl (hdr_len h)); r = drop HEADER_SIZE bs
           in if length r < n then None
              else Some ((take n r, hdr_type h, hdr_done h \<noteq> 0), drop n r)))"

lemma create_header_eq: "create_header (Some h) n ty fin = (0, Some (mk_header n ty fin))"
  by (simp add: create_header_def mk_header_def)

lemma header_len_roundtrip [simp]:
  "n < 2 ^ 32 \<Longrightarrow> unat (ntohl (hdr_len (mk_header n ty fin))) = n"
  by (simp add: mk_header_def unat_of_nat take_bit_nat_eq_self)

lemma mk_header_sel [simp]:
  "hdr_type (mk_header n ty fin) = ty" "hdr_done (mk_header n ty fin) = (if fin then 1 else 0)"
  by (simp_all add: mk_header_def)

lemma header_of_image_length: "header_of_image bs = Some h \<Longrightarrow> length bs = HEADER_SIZE"
  by (cases bs rule: header_of_image.cases) (simp_all add: HEADER_SIZE_def)

lemma un_wire_shrinks: "un_wire bs = Some (m, r) \<Longrightarrow> length r < length bs"
proof -
  assume a: "un_wire bs = Some (m, r)"
  then obtain h where "header_of_image (take HEADER_SIZE bs) = Some h" and
    r: "length r \<le> length bs - HEADER_SIZE"
    by (auto simp: un_wire_def Let_def split: option.splits if_splits)
  then have "HEADER_SIZE \<le> length bs"
    using header_of_image_length by fastforce
  with r show ?thesis by (simp add: HEADER_SIZE_def)
qed

function (sequential) decode_stream :: "byte list \<Rightarrow> wire_msg list \<times> byte list" where
  "decode_stream bs =
     (case un_wire bs of
        None \<Rightarrow> ([], bs)
      | Some (m, r) \<Rightarrow> (let (ms, t) = decode_stream r in (m # ms, t)))"
  by pat_completeness auto
termination
  by (relation "measure length") (auto dest: un_wire_shrinks)

declare decode_stream.simps [simp del]

lemma un_wire_wire: "wf_msg m \<Longrightarrow> un_wire (wire m @ r) = Some (m, r)"
  by (cases m) (simp add: un_wire_def wire_def wf_msg_def)

lemma un_wire_part:
  assumes "wf_msg m" "strict_prefix bs (wire m)"
  shows "un_wire bs = None"
proof (rule ccontr)
  assume "un_wire bs \<noteq> None"
  then obtain m' r where u: "un_wire bs = Some (m', r)" by auto
  then obtain h where h: "header_of_image (take HEADER_SIZE bs) = Some h"
    and n: "unat (ntohl (hdr_len h)) \<le> length bs - HEADER_SIZE"
    by (auto simp: un_wire_def Let_def split: option.splits if_splits)
  obtain p ty fin where m: "m = (p, ty, fin)" by (cases m)
  obtain z where z: "wire m = bs @ z" "z \<noteq> []"
    using assms(2) by (auto simp: strict_prefix_def prefix_def)
  have len: "HEADER_SIZE \<le> length bs"
    using header_of_image_length [OF h] by simp
  then have "take HEADER_SIZE bs = take HEADER_SIZE (wire m)" using z(1) by simp
  then have "h = mk_header (length p) ty fin" using h by (simp add: m wire_def)
  then have "length p \<le> length bs - HEADER_SIZE" using n assms(1) by (simp add: m wf_msg_def)
  moreover have "length (wire m) = HEADER_SIZE + length p" by (simp add: m wire_def)
  moreover have "0 < length z" using z(2) by simp
  moreover have "length bs + length z = length (wire m)" by (simp add: z(1))
  ultimately show False using len by linarith
qed

interpretation frames: stream_decoder wire un_wire wf_msg decode_stream
  by unfold_locales
     (simp add: un_wire_wire, rule decode_stream.simps, rule un_wire_part,
      simp_all add: un_wire_def)

section \<open>Properties of the protocol layer\<close>

lemma malloc_buf_available:
  "memory_available w \<Longrightarrow> n \<le> PTRDIFF_MAX \<Longrightarrow>
     malloc_buf n w = (Some (map (junk w) [0..<n]),
                       w\<lparr>mallocs := tl (mallocs w), live_bufs := live_bufs w + 1\<rparr>)"
  by (simp add: malloc_buf_def malloc_ok_available)

lemma memory_available_tl_iff:
  "memory_available w \<Longrightarrow> mallocs w' = tl (mallocs w) \<Longrightarrow> memory_available w'"
  by (cases "mallocs w") (auto simp: memory_available_def)

lemma read_payload_spec:
  assumes "opened w d" "memory_available w" "n < 2 ^ 32" "n \<le> length (avail (inq w d))"
  shows "ok (read_payload d n w) (\<lambda>((r, p), w').
           r = int n \<and> p = Some (take n (avail (inq w d)) @ [0]) \<and>
           avail (inq w' d) = drop n (avail (inq w d)) \<and>
           w' = w\<lparr>inq := (inq w)(d := inq w' d), mallocs := tl (mallocs w),
                  live_bufs := live_bufs w + 1\<rparr>)"
proof -
  define w1 where "w1 = w\<lparr>mallocs := tl (mallocs w), live_bufs := live_bufs w + 1\<rparr>"
  have "sz_add n 1 = Suc n" "Suc n \<le> PTRDIFF_MAX"
    using assms(3) by (simp_all add: sz_add_def SIZE_MOD_def PTRDIFF_MAX_def)
  then have m: "malloc_buf (sz_add n 1) w = (Some (map (junk w) [0..<Suc n]), w1)"
    using assms(2) by (simp add: malloc_buf_available w1_def del: upt_Suc)
  have "ok (read_all d n w1) (\<lambda>((r, out), w').
          r = int n \<and> out = take n (avail (inq w d)) \<and>
          avail (inq w' d) = drop n (avail (inq w d)) \<and>
          w' = w1\<lparr>inq := (inq w)(d := inq w' d)\<rparr>)"
    by (rule ok_weaken [OF read_all_spec]) (use assms in \<open>auto simp: w1_def\<close>)
  then obtain w2 where "read_all d n w1 = Some ((int n, take n (avail (inq w d))), w2)"
    "avail (inq w2 d) = drop n (avail (inq w d))"
    and w2: "w2 = w1\<lparr>inq := (inq w)(d := inq w2 d)\<rparr>"
    by (auto simp: ok_conv)
  moreover have "w2 = w\<lparr>inq := (inq w)(d := inq w2 d), mallocs := tl (mallocs w),
                       live_bufs := live_bufs w + 1\<rparr>"
    by (subst w2) (simp add: w1_def)
  ultimately show ?thesis
    using assms(4) unfolding read_payload_def m by (simp add: wp)
qed

text \<open>
  Claim C16. \<open>read_packet\<close> is the inverse of the wire format: from a stream that starts with a frame
  it returns the frame's header bytes and its payload, NUL-terminated, and leaves the rest of the
  stream, however the bytes are split into chunks and whatever reads are interrupted. An empty
  payload returns 0 and frees the buffer. In each case one buffer more stays allocated than the
  caller can see: the block allocated before \<open>read_payload\<close> is lost.
\<close>

theorem read_packet_decodes:
  assumes "opened w d" "memory_available w" "wf_msg (p, ty, fin)" "length old = HEADER_SIZE"
    "avail (inq w d) = wire (p, ty, fin) @ rest"
  shows "ok (read_packet d old w) (\<lambda>((r, hdr, out), w').
     r = int (length p) \<and> hdr = header_image (mk_header (length p) ty fin) \<and>
     out = (if p = [] then None else Some (p @ [0])) \<and>
     avail (inq w' d) = rest \<and>
     live_bufs w' = live_bufs w + (if p = [] then 1 else 2))"
proof -
  let ?h = "mk_header (length p) ty fin"
  have len: "length p < 2 ^ 32" using assms(3) by (simp add: wf_msg_def)
  have "ok (read_header d w) (\<lambda>((r, out), w').
          r = int HEADER_SIZE \<and> out = header_image ?h \<and> avail (inq w' d) = p @ rest \<and>
          w' = w\<lparr>inq := (inq w)(d := inq w' d)\<rparr>)"
    unfolding read_header_def
    by (rule ok_weaken [OF read_all_spec]) (use assms in \<open>auto simp: wire_def\<close>)
  then obtain w1 where rh: "read_header d w = Some ((int HEADER_SIZE, header_image ?h), w1)"
    "avail (inq w1 d) = p @ rest" and w1: "w1 = w\<lparr>inq := (inq w)(d := inq w1 d)\<rparr>"
    by (auto simp: ok_conv)
  define w2 where "w2 = w1\<lparr>mallocs := tl (mallocs w1), live_bufs := live_bufs w1 + 1\<rparr>"
  have "opened w1 d" "memory_available w1"
    by (subst w1, simp add: assms(1)) (subst w1, use assms(2) in \<open>simp add: memory_available_def\<close>)
  then have m: "malloc_buf (length p) w1 = (Some (map (junk w1) [0..<length p]), w2)"
    and w2: "opened w2 d" "memory_available w2" "avail (inq w2 d) = p @ rest"
    using len rh(2)
    by (simp_all add: malloc_buf_available PTRDIFF_MAX_def w2_def memory_available_tl_iff)
  obtain w3 where rp: "read_payload d (length p) w2 = Some ((int (length p), Some (p @ [0])), w3)"
    "avail (inq w3 d) = rest"
    and w3: "w3 = w2\<lparr>inq := (inq w2)(d := inq w3 d), mallocs := tl (mallocs w2),
                  live_bufs := live_bufs w2 + 1\<rparr>"
    using read_payload_spec [OF w2(1,2) len] w2(3) by (auto simp: ok_conv)
  have "live_bufs w3 = live_bufs w2 + 1" by (subst w3) simp
  moreover have "live_bufs w2 = live_bufs w1 + 1" by (simp add: w2_def)
  moreover have "live_bufs w1 = live_bufs w" by (subst w1) simp
  moreover have "memcpy_at old 0 (header_image ?h) = Some (header_image ?h)"
    using assms(4) by (simp add: memcpy_at_def)
  ultimately show ?thesis
    using rp len assms(4) by (simp add: read_packet_def rh m HEADER_SIZE_def free_buf_def Let_def)
qed

theorem read_packet_decodes_witness:
  "ok (read_packet 5 [9, 9, 9, 9, 9, 9]
         (os0\<lparr>opened := (\<lambda>d. d = 5),
              inq := (\<lambda>_. [RdData (take 3 (wire ([72, 105], 0, True))), RdErr EINTR,
                            RdData (drop 3 (wire ([72, 105], 0, True)) @ [7])])\<rparr>))
      (\<lambda>((r, hdr, out), w'). r = 2 \<and> out = Some [72, 105, 0] \<and> avail (inq w' 5) = [7])"
proof -
  let ?w = "os0\<lparr>opened := (\<lambda>d. d = 5),
              inq := (\<lambda>_. [RdData (take 3 (wire ([72, 105], 0, True))), RdErr EINTR,
                            RdData (drop 3 (wire ([72, 105], 0, True)) @ [7])])\<rparr>"
  have "avail (inq ?w 5) = wire ([72, 105], 0, True) @ [7]"
    by (simp add: wire_def HEADER_SIZE_def)
  then show ?thesis
    by (intro ok_weaken [OF read_packet_decodes [of ?w 5 "[72, 105]" 0 True]])
       (auto simp: os0_def memory_available_def wf_msg_def HEADER_SIZE_def)
qed

text \<open>
  Claim C17. A packet write that does not report failure has transmitted exactly one frame:
  header and payload in full, in order, behind what was sent before.
\<close>

theorem write_packet_sends_frame:
  assumes "opened w d" "WrAccept 0 \<notin> set (outq w d)"
  shows "ok (write_packet d (mk_header (length p) ty fin) p (length p) w) (\<lambda>(r, w').
     r \<noteq> -1 \<longrightarrow> r = int (length p) \<and> sent w' d = sent w d @ wire (p, ty, fin))"
proof -
  let ?h = "header_image (mk_header (length p) ty fin)"
  obtain r w1 where wr: "write_all d ?h w = Some (r, w1)" and "wrote d ?h 0 w r w1"
    using write_all_spec [OF assms(1), of ?h] by (auto simp: ok_conv)
  then have w1: "r = -1 \<or> sent w1 d = sent w d @ ?h" "WrAccept 0 \<notin> set (outq w1 d)"
    "w1 = w\<lparr>outq := (outq w)(d := outq w1 d), sent := (sent w)(d := sent w1 d)\<rparr>"
    using assms(2) unfolding wrote_def by auto
  have "opened w1 d" by (subst w1(3)) (simp add: assms(1))
  then obtain r2 w2 where wp: "write_all d p w1 = Some (r2, w2)" and "wrote d p 0 w1 r2 w2"
    using write_all_spec [of w1 d p] by (auto simp: ok_conv)
  then have "r2 = -1 \<or> r2 = int (length p) \<and> sent w2 d = sent w1 d @ p"
    using w1(2) unfolding wrote_def by auto
  then show ?thesis
    using w1(1) by (simp add: write_packet_def write_header_def write_payload_def wr wp wire_def slice_def) auto
qed

theorem write_packet_sends_frame_witness:
  "ok (write_packet 5 (mk_header 2 0 True) [72, 105] 2
         (os0\<lparr>opened := (\<lambda>d. d = 5), outq := (\<lambda>_. [WrAccept 4, WrAccept 9, WrErr EINTR, WrAccept 1,
              WrAccept 1])\<rparr>))
      (\<lambda>(r, w'). r \<noteq> -1 \<longrightarrow> r = 2 \<and> sent w' 5 = wire ([72, 105], 0, True))"
proof -
  let ?w = "os0\<lparr>opened := (\<lambda>d. d = 5), outq := (\<lambda>_. [WrAccept 4, WrAccept 9, WrErr EINTR,
              WrAccept 1, WrAccept 1])\<rparr>"
  have "opened ?w 5" "WrAccept 0 \<notin> set (outq ?w 5)" by simp_all
  from write_packet_sends_frame [OF this, of "[72, 105]" 0 True] show ?thesis
    by (simp add: ok_conv os0_def numeral_2_eq_2)
qed

text \<open>
  The header survives the wire. \<open>create_header\<close> keeps the low 32 bits of the length,
  and the six bytes are the length most significant byte first, the type, and the flag.
\<close>

theorem create_header_wire:
  "\<exists>h. create_header (Some h0) n ty fin = (0, Some h) \<and>
       header_of_image (header_image h) = Some h \<and>
       unat (ntohl (hdr_len h)) = n mod 2 ^ 32 \<and>
       header_image h = [ucast (drop_bit 24 (of_nat n :: 32 word)), ucast (drop_bit 16 (of_nat n :: 32 word)),
                         ucast (drop_bit 8 (of_nat n :: 32 word)), ucast (of_nat n :: 32 word),
                         ty, if fin then 1 else 0]"
  unfolding create_header_eq
  by (rule exI, rule conjI [OF refl], intro conjI)
     (simp, simp add: mk_header_def unat_of_nat take_bit_eq_mod,
      simp add: mk_header_def header_image_def u32_image_htonl)

text \<open>
  Framing: a stream made of whole frames decodes to exactly those messages, and a
  partial frame at its end is left over, so no two message sequences share a stream.
\<close>

theorem stream_roundtrip:
  "\<forall>m \<in> set ms. wf_msg m \<Longrightarrow> un_wire r = None \<Longrightarrow>
     decode_stream (concat (map wire ms) @ r) = (ms, r)"
  by (rule frames.decs_all)

theorem stream_roundtrip_witness:
  "decode_stream (wire ([72], 0, True) @ wire ([], 1, False) @ [0, 0]) =
     ([([72], 0, True), ([], 1, False)], [0, 0])"
  using stream_roundtrip [of "[([72], 0, True), ([], 1, False)]" "[0, 0]"]
  by (simp add: wf_msg_def un_wire_def HEADER_SIZE_def)

end
