(* ===== verification/Chat_State.thy ===== *)
theory Chat_State
  imports Chat_Protocol
begin

text \<open>
  The server's memory: \<open>struct client_info\<close>, \<open>struct msg_packet\<close>, \<open>struct msg_queue\<close> and
  \<open>struct server_state\<close> (include/client_info.h, msg_packet.h, msg_queue.h, server_state.h). Clients
  and packets live in heaps, maps from addresses to structures; a freed or never allocated address
  is not in the map, and using it has no outcome. Fixed arrays are byte lists of their length.
\<close>

definition NAME_MAX :: nat where "NAME_MAX = 64"
definition MAX_CLIENTS :: nat where "MAX_CLIENTS = 1000"
definition SIZEOF_CLIENT_INFO :: nat where "SIZEOF_CLIENT_INFO = 4312"
definition SIZEOF_MSG_PACKET :: nat where "SIZEOF_MSG_PACKET = 32"

datatype read_state = READ_HEADER | READ_PAYLOAD

record msg_packet =
  next_pkt :: ptr
  packet_data :: "byte list"
  len :: nat
  offset :: nat

record msg_queue =
  head :: ptr
  tail :: ptr
  queued_bytes :: nat
  queued_count :: nat

record client_info =
  client_fd :: fd
  state :: read_state
  header_buffer :: "byte list"
  header_bytes_read :: nat
  expected_payload_len :: "32 word"
  msg_type :: byte
  msg_done :: byte
  payload_buffer :: "byte list"
  payload_bytes_read :: nat
  write_buffer :: "byte list option"
  write_len :: nat
  write_offset :: nat
  msg_queue :: msg_queue
  epollout_enabled :: byte
  name :: "byte list"
  name_len :: nat
  has_name :: byte
  partial_msg :: "byte list option"
  partial_len :: nat
  partial_cap :: nat
  closed :: byte

text \<open>
  \<open>struct server_state\<close> together with the heaps and the global \<open>server_shutdown\<close>. The array
  \<open>client_list\<close> is a function; its users check the index against \<open>MAX_CLIENTS\<close>. The mutex is
  held or free.
\<close>

record server = os +
  clients :: "ptr \<Rightarrow> client_info option"
  packets :: "ptr \<Rightarrow> msg_packet option"
  server_fd :: fd
  epoll_fd :: fd
  client_list :: "nat \<Rightarrow> ptr"
  client_count :: nat
  client_mutex :: bool
  server_shutdown :: int

definition set_client :: "ptr \<Rightarrow> client_info \<Rightarrow> server \<Rightarrow> server" where
  "set_client c ci w = w\<lparr>clients := (clients w)(c \<mapsto> ci)\<rparr>"

definition set_packet :: "ptr \<Rightarrow> msg_packet \<Rightarrow> server \<Rightarrow> server" where
  "set_packet p k w = w\<lparr>packets := (packets w)(p \<mapsto> k)\<rparr>"

text \<open>\<open>client_list[i]\<close>, with the bound of the array.\<close>

definition list_at :: "server \<Rightarrow> nat \<Rightarrow> ptr option" where
  "list_at w i = (if i < MAX_CLIENTS then Some (client_list w i) else None)"

definition list_put :: "nat \<Rightarrow> ptr \<Rightarrow> server \<Rightarrow> server option" where
  "list_put i c w =
     (if i < MAX_CLIENTS then Some (w\<lparr>client_list := (client_list w)(i := c)\<rparr>) else None)"

text \<open>Locking a mutex that is held blocks for ever: the server has one thread.\<close>

definition mutex_lock :: "server \<Rightarrow> server option" where
  "mutex_lock w = (if client_mutex w then None else Some (w\<lparr>client_mutex := True\<rparr>))"

definition mutex_unlock :: "server \<Rightarrow> server" where
  "mutex_unlock w = w\<lparr>client_mutex := False\<rparr>"

text \<open>
  A client structure fresh from the allocator. The buffers that \<open>client_info_init\<close> leaves alone
  hold whatever the memory held; the other fields are assigned before anything reads them.
\<close>

definition fresh_client :: "(nat \<Rightarrow> byte) \<Rightarrow> client_info" where
  "fresh_client g =
     \<lparr>client_fd = 0, state = READ_HEADER, header_buffer = map g [0..<HEADER_SIZE],
      header_bytes_read = 0, expected_payload_len = 0, msg_type = g 0, msg_done = g 1,
      payload_buffer = map g [0..<BUF_SIZE], payload_bytes_read = 0, write_buffer = None,
      write_len = 0, write_offset = 0,
      msg_queue = \<lparr>head = NULL, tail = NULL, queued_bytes = 0, queued_count = 0\<rparr>,
      epollout_enabled = 0, name = map g [0..<NAME_MAX], name_len = 0, has_name = 0,
      partial_msg = None, partial_len = 0, partial_cap = 0, closed = 0\<rparr>"

definition malloc_client :: "server \<Rightarrow> ptr \<times> server" where
  "malloc_client w =
     (let (b, w1) = malloc_ok SIZEOF_CLIENT_INFO w
      in if b then (let (c, w2) = fresh_ptr w1 in (c, set_client c (fresh_client (junk w)) w2))
         else (NULL, w1))"

text \<open>\<open>free\<close> on a client: the pointer must be live (or NULL).\<close>

definition free_client :: "ptr \<Rightarrow> server \<Rightarrow> server option" where
  "free_client c w =
     (if c = NULL then Some w
      else do { _ \<leftarrow> clients w c; Some (w\<lparr>clients := (clients w)(c := None)\<rparr>) })"

section \<open>Initialisation (client_info_init.c, server_state.c)\<close>

definition client_info_init :: "ptr \<Rightarrow> fd \<Rightarrow> server \<Rightarrow> (int \<times> server) option" where
  "client_info_init c d w = do {
     ci \<leftarrow> clients w c;
     let (p, w1) = malloc_buf BUF_SIZE w;
     if p = None then Some (-1, set_client c (ci\<lparr>partial_msg := None\<rparr>) w1)
     else Some (0, set_client c
       (ci\<lparr>partial_msg := p, partial_len := 0, partial_cap := BUF_SIZE, client_fd := d,
           state := READ_HEADER, header_bytes_read := 0, payload_bytes_read := 0,
           expected_payload_len := 0, write_len := 0, write_offset := 0, name_len := 0,
           has_name := 0, epollout_enabled := 0, closed := 0,
           msg_queue := \<lparr>head = NULL, tail = NULL, queued_bytes = 0, queued_count = 0\<rparr>\<rparr>) w1)
   }"

text \<open>
  \<open>server_state_init\<close>; \<open>mutex_ok\<close> and \<open>epfd\<close> are the results of \<open>pthread_mutex_init\<close> (0 is success)
  and \<open>epoll_create1\<close>, and \<open>nonnull\<close> says that the argument is not NULL.
\<close>

definition server_state_init :: "bool \<Rightarrow> int \<Rightarrow> fd \<Rightarrow> server \<Rightarrow> int \<times> server" where
  "server_state_init nonnull mutex_ok epfd w =
     (if \<not> nonnull then (-1, w)
      else (let w1 = w\<lparr>server_fd := 0, epoll_fd := 0, client_list := (\<lambda>_. NULL),
                       client_count := 0, client_mutex := False\<rparr>
            in if mutex_ok \<noteq> 0 then (-1, w1)
               else (let w2 = w1\<lparr>server_fd := -1, client_count := 0, epoll_fd := epfd\<rparr>
                     in if epfd = -1 then (-1, w2) else (0, w2))))"

definition server_state_destroy :: "bool \<Rightarrow> int \<Rightarrow> int" where
  "server_state_destroy nonnull mutex_ok =
     (if \<not> nonnull then -1 else if mutex_ok \<noteq> 0 then -1 else 0)"

section \<open>Well-formed clients\<close>

text \<open>
  The invariant of one client structure: the array sizes, the counters inside their buffers, the
  message buffer at least as large as its recorded capacity, and the name, once given, terminated.
\<close>

definition client_wf :: "client_info \<Rightarrow> bool" where
  "client_wf ci \<longleftrightarrow>
     length (header_buffer ci) = HEADER_SIZE \<and> length (payload_buffer ci) = BUF_SIZE \<and>
     length (name ci) = NAME_MAX \<and>
     header_bytes_read ci \<le> HEADER_SIZE \<and>
     (state ci = READ_PAYLOAD \<longrightarrow> unat (expected_payload_len ci) \<le> BUF_SIZE \<and>
        payload_bytes_read ci \<le> unat (expected_payload_len ci)) \<and>
     name_len ci < NAME_MAX \<and> has_name ci \<in> {0, 1} \<and> (has_name ci = 1 \<longrightarrow> 0 \<in> set (name ci)) \<and>
     (has_name ci = 0 \<longrightarrow> name_len ci = 0) \<and>
     (\<exists>buf. partial_msg ci = Some buf \<and> partial_cap ci \<le> length buf \<and>
        length buf \<le> PTRDIFF_MAX) \<and>
     partial_len ci \<le> partial_cap ci \<and> BUF_SIZE \<le> partial_cap ci"

text \<open>
  An idle server, and a client as it is once it has given its name and sent a part \<open>msg\<close> of its
  next message: the states the concrete examples start from.
\<close>

definition server0 :: server where
  "server0 = os.extend os0 \<lparr>clients = (\<lambda>_. None), packets = (\<lambda>_. None), server_fd = 4, epoll_fd = 3,
     client_list = (\<lambda>_. NULL), client_count = 0, client_mutex = False, server_shutdown = 0\<rparr>"

definition plain_client :: "fd \<Rightarrow> byte list \<Rightarrow> byte list \<Rightarrow> client_info" where
  "plain_client d nm msg = (fresh_client (\<lambda>_. 0))\<lparr>client_fd := d,
     partial_msg := Some (msg @ replicate (BUF_SIZE - length msg) 0), partial_len := length msg,
     partial_cap := BUF_SIZE,
     name := nm @ replicate (NAME_MAX - length nm) 0, name_len := length nm, has_name := 1\<rparr>"

lemma length_fresh [simp]:
  "length (header_buffer (fresh_client g)) = HEADER_SIZE"
  "length (payload_buffer (fresh_client g)) = BUF_SIZE" "length (name (fresh_client g)) = NAME_MAX"
  by (simp_all add: fresh_client_def)

lemma client_info_init_spec:
  assumes "memory_available w" "clients w c = Some (fresh_client g)"
  shows "\<exists>ci. client_info_init c d w = Some (0, set_client c ci
             (w\<lparr>mallocs := tl (mallocs w), live_bufs := live_bufs w + 1\<rparr>)) \<and>
           client_wf ci \<and> client_fd ci = d \<and> closed ci = 0 \<and> epollout_enabled ci = 0 \<and>
           has_name ci = 0 \<and> state ci = READ_HEADER \<and> partial_len ci = 0 \<and>
           msg_queue ci = \<lparr>head = NULL, tail = NULL, queued_bytes = 0, queued_count = 0\<rparr> \<and>
           name ci = map g [0..<NAME_MAX]"
proof -
  have "BUF_SIZE \<le> PTRDIFF_MAX" by (simp add: BUF_SIZE_def PTRDIFF_MAX_def)
  with assms show ?thesis
    by (intro exI conjI)
       (auto simp: client_info_init_def malloc_buf_available client_wf_def fresh_client_def
          BUF_SIZE_def NAME_MAX_def HEADER_SIZE_def PTRDIFF_MAX_def)
qed

end
