(* ===== verification/Chat_Epoll.thy ===== *)
theory Chat_Epoll
  imports Chat_State
begin

text \<open>
  Switching write readiness on and off (src/common/epoll_mod.c). The registered mask and the flag
  \<open>epollout_enabled\<close> of the client change together, and only when \<open>epoll_ctl\<close> succeeds.
\<close>

definition enable_epollout_for_client :: "ptr \<Rightarrow> server \<Rightarrow> server option" where
  "enable_epollout_for_client c w = do {
     ci \<leftarrow> clients w c;
     if epollout_enabled ci = 1 then Some w
     else do {
       let (r, w1) = epoll_ctl EPOLL_CTL_MOD (client_fd ci) (EPOLLIN OR EPOLLOUT, DataPtr c) w;
       if r = 0 then Some (set_client c (ci\<lparr>epollout_enabled := 1\<rparr>) w1) else Some w1
     }
   }"

definition disable_epollout_for_client :: "ptr \<Rightarrow> server \<Rightarrow> server option" where
  "disable_epollout_for_client c w = do {
     ci \<leftarrow> clients w c;
     if epollout_enabled ci = 0 then Some w
     else do {
       let (r, w1) = epoll_ctl EPOLL_CTL_MOD (client_fd ci) (EPOLLIN, DataPtr c) w;
       if r = 0 then Some (set_client c (ci\<lparr>epollout_enabled := 0\<rparr>) w1) else Some w1
     }
   }"

text \<open>
  What either switch may change: the flag of this client, the registration of its descriptor
  (which keeps pointing at the client) and the consumed script entry.
\<close>

definition epoll_switched :: "ptr \<Rightarrow> client_info \<Rightarrow> server \<Rightarrow> client_info \<Rightarrow> server \<Rightarrow> bool" where
  "epoll_switched c ci w ci' w' \<longleftrightarrow>
     (\<exists>f e i. ci' = ci\<lparr>epollout_enabled := f\<rparr> \<and>
        w' = w\<lparr>epctls := e, interest := (interest w)(client_fd ci := i),
               clients := (clients w)(c \<mapsto> ci')\<rparr> \<and>
        (interest w (client_fd ci) = None \<longrightarrow> i = None) \<and>
        (\<forall>m. interest w (client_fd ci) = Some (m, DataPtr c) \<longrightarrow> (\<exists>m'. i = Some (m', DataPtr c))))"

lemma clients_triv [simp]: "w\<lparr>clients := clients w\<rparr> = (w :: server)"
  by (cases w) simp

lemma interest_triv [simp]: "w\<lparr>interest := interest w\<rparr> = (w :: 'a os_scheme)"
  by (cases w) simp

lemma epctls_triv [simp]: "w\<lparr>epctls := epctls w\<rparr> = (w :: 'a os_scheme)"
  by (cases w) simp

lemma client_info_flag_triv [simp]:
  "ci\<lparr>epollout_enabled := epollout_enabled ci\<rparr> = (ci :: client_info)"
  by (cases ci) simp

lemma epoll_switched_refl: "clients w c = Some ci \<Longrightarrow> epoll_switched c ci w ci w"
  unfolding epoll_switched_def
  by (rule exI [of _ "epollout_enabled ci"], rule exI [of _ "epctls w"],
      rule exI [of _ "interest w (client_fd ci)"])
     (simp add: fun_upd_idem)

lemma epoll_ctl_mod_cases:
  obtains (success) e where "epoll_ctl EPOLL_CTL_MOD d ev w =
      (0, w\<lparr>epctls := e, interest := (interest w)(d \<mapsto> ev)\<rparr>)" "interest w d \<noteq> None"
  | (failed) e where "epoll_ctl EPOLL_CTL_MOD d ev w = (-1, w\<lparr>epctls := e\<rparr>)"
proof (cases "fst (pop_default True (epctls w)) \<and> interest w d \<noteq> None")
  case True
  then show ?thesis
    by (intro success [of "snd (pop_default True (epctls w))"])
       (simp_all add: epoll_ctl_def split_beta Let_def)
next
  case False
  then show ?thesis
    by (intro failed [of "snd (pop_default True (epctls w))"])
       (auto simp: epoll_ctl_def split_beta Let_def)
qed

lemma epoll_switched_failed:
  assumes "clients w c = Some ci"
  shows "epoll_switched c ci w ci (w\<lparr>epctls := e\<rparr>)"
  unfolding epoll_switched_def
  by (rule exI [of _ "epollout_enabled ci"], rule exI [of _ e],
      rule exI [of _ "interest w (client_fd ci)"])
     (simp add: fun_upd_idem [of "clients w"] assms)

lemma epoll_switched_done:
  "interest w (client_fd ci) \<noteq> None \<Longrightarrow> ci' = ci\<lparr>epollout_enabled := f\<rparr> \<Longrightarrow>
     epoll_switched c ci w ci'
       (w\<lparr>epctls := e, interest := (interest w)(client_fd ci \<mapsto> (m, DataPtr c)),
          clients := (clients w)(c \<mapsto> ci')\<rparr>)"
  unfolding epoll_switched_def
  by (rule exI [of _ f], rule exI [of _ e], rule exI [of _ "Some (m, DataPtr c)"]) simp

lemma enable_epollout_spec:
  assumes "clients w c = Some ci"
  shows "ok (enable_epollout_for_client c w) (\<lambda>w'. \<exists>ci'. epoll_switched c ci w ci' w')"
proof (cases rule: epoll_ctl_mod_cases
    [of "client_fd ci" "(EPOLLIN OR EPOLLOUT, DataPtr c)" w])
  case (success e)
  show ?thesis
    using epoll_switched_done [OF success(2) refl, where f = 1 and c = c and e = e and m = "EPOLLIN OR EPOLLOUT"]
      epoll_switched_refl [OF assms] assms success(1)
    by (auto simp: enable_epollout_for_client_def set_client_def)
next
  case (failed e)
  show ?thesis
    using epoll_switched_failed [OF assms, of e] epoll_switched_refl [OF assms] assms failed
    by (auto simp: enable_epollout_for_client_def)
qed

lemma disable_epollout_spec:
  assumes "clients w c = Some ci"
  shows "ok (disable_epollout_for_client c w) (\<lambda>w'. \<exists>ci'. epoll_switched c ci w ci' w')"
proof (cases rule: epoll_ctl_mod_cases [of "client_fd ci" "(EPOLLIN, DataPtr c)" w])
  case (success e)
  show ?thesis
    using epoll_switched_done [OF success(2) refl, where f = 0 and c = c and e = e and m = EPOLLIN]
      epoll_switched_refl [OF assms] assms success(1)
    by (auto simp: disable_epollout_for_client_def set_client_def)
next
  case (failed e)
  show ?thesis
    using epoll_switched_failed [OF assms, of e] epoll_switched_refl [OF assms] assms failed
    by (auto simp: disable_epollout_for_client_def)
qed

end
