(* ===== verification/Chat_Queue.thy ===== *)
theory Chat_Queue
  imports Chat_Epoll
begin

text \<open>
  The outgoing message queue of a client: packet construction (src/server/msg_packet.c), enqueueing
  (client_enqueue_msg_packet in src/server/client_utils.c), the non-blocking flush
  (src/server/client_try_write.c) and the loop of server_loop.c that discards a queue. The queue is
  a linked list of heap cells with head and tail pointers and two counters; \<open>queue_rep\<close> relates
  it to the list of its cells, and \<open>pending\<close> is the byte string it stands for.
\<close>

section \<open>Operations\<close>

definition create_packet ::
  "msg_header \<Rightarrow> byte list \<Rightarrow> nat \<Rightarrow> server \<Rightarrow> (ptr \<times> server) option" where
  "create_packet header payload payload_len w =
     (let total = sz_add HEADER_SIZE payload_len in
      case malloc_buf total w of
        (None, w1) \<Rightarrow> Some (NULL, w1)
      | (Some buf, w1) \<Rightarrow> do {
          buf1 \<leftarrow> memcpy_at buf 0 (header_image header);
          src \<leftarrow> slice payload 0 payload_len;
          data \<leftarrow> memcpy_at buf1 HEADER_SIZE src;
          let (b, w2) = malloc_ok SIZEOF_MSG_PACKET w1;
          if b then do {
            let (p, w3) = fresh_ptr w2;
            Some (p, set_packet p \<lparr>next_pkt = NULL, packet_data = data, len = total, offset = 0\<rparr> w3)
          } else Some (NULL, free_buf (Some data) w2)
        })"

text \<open>\<open>free (packet->packet_data); free (packet)\<close>.\<close>

definition free_packet :: "ptr \<Rightarrow> server \<Rightarrow> server option" where
  "free_packet p w = do {
     k \<leftarrow> packets w p;
     Some ((free_buf (Some (packet_data k)) w)\<lparr>packets := (packets w)(p := None)\<rparr>)
   }"

definition client_enqueue_msg_packet ::
  "ptr \<Rightarrow> ptr \<Rightarrow> nat \<Rightarrow> server \<Rightarrow> (int \<times> server) option" where
  "client_enqueue_msg_packet c p msg_size_limit w =
     (if p = NULL then Some (-1, w)
      else do {
        ci \<leftarrow> clients w c;
        k \<leftarrow> packets w p;
        let q = msg_queue ci;
        if msg_size_limit < sz_add (queued_bytes q) (len k) then Some (-1, w)
        else if closed ci = 1 then Some (-1, w)
        else do {
          (q1, w1) \<leftarrow>
            (if tail q \<noteq> NULL then do {
               t \<leftarrow> packets w (tail q);
               Some (q\<lparr>tail := p\<rparr>, set_packet (tail q) (t\<lparr>next_pkt := p\<rparr>) w)
             } else Some (q\<lparr>head := p, tail := p\<rparr>, w));
          let q2 = q1\<lparr>queued_bytes := sz_add (queued_bytes q1) (len k),
                      queued_count := sz_add (queued_count q1) 1\<rparr>;
          Some (0, set_client c (ci\<lparr>msg_queue := q2\<rparr>) w1)
        }
      })"

partial_function (option) client_try_write :: "ptr \<Rightarrow> server \<Rightarrow> (int \<times> server) option" where
  "client_try_write c w = do {
     ci \<leftarrow> clients w c;
     let q = msg_queue ci;
     if head q = NULL then do {
       w1 \<leftarrow> disable_epollout_for_client c w;
       Some (0, w1)
     } else do {
       k \<leftarrow> packets w (head q);
       data \<leftarrow> slice (packet_data k) (offset k) (sz_sub (len k) (offset k));
       case sys_write (client_fd ci) data w of
         (Inr n, w1) \<Rightarrow>
           if 0 < n then do {
             let k1 = k\<lparr>offset := sz_add (offset k) n\<rparr>;
             let w2 = set_packet (head q) k1 w1;
             let q1 = q\<lparr>queued_bytes := sz_sub (queued_bytes q) n\<rparr>;
             if offset k1 = len k1 then do {
               let q2 = q1\<lparr>head := next_pkt k1\<rparr>;
               let q3 = (if head q2 = NULL then q2\<lparr>tail := NULL\<rparr> else q2);
               w3 \<leftarrow> free_packet (head q) w2;
               let q4 = q3\<lparr>queued_count := sz_sub (queued_count q3) 1\<rparr>;
               client_try_write c (set_client c (ci\<lparr>msg_queue := q4\<rparr>) w3)
             } else client_try_write c (set_client c (ci\<lparr>msg_queue := q1\<rparr>) w2)
           } else Some (-1, w1)
       | (Inl e, w1) \<Rightarrow>
           if e = EAGAIN \<or> e = EWOULDBLOCK then Some (0, w1)
           else if e = EINTR then client_try_write c w1
           else Some (-1, w1)
     }
   }"

text \<open>The loop that frees every packet of a client before the client itself is removed.\<close>

partial_function (option) discard_queue :: "ptr \<Rightarrow> server \<Rightarrow> server option" where
  "discard_queue c w = do {
     ci \<leftarrow> clients w c;
     let q = msg_queue ci;
     if head q = NULL then Some w
     else do {
       k \<leftarrow> packets w (head q);
       w1 \<leftarrow> free_packet (head q) w;
       discard_queue c (set_client c (ci\<lparr>msg_queue := q\<lparr>head := next_pkt k\<rparr>\<rparr>) w1)
     }
   }"

section \<open>The list a queue stands for\<close>

fun linked :: "(ptr \<Rightarrow> msg_packet option) \<Rightarrow> ptr \<Rightarrow> ptr list \<Rightarrow> bool" where
  "linked h p [] = (p = NULL)"
| "linked h p (a # as) =
     (p = a \<and> a \<noteq> NULL \<and> (case h a of None \<Rightarrow> False | Some k \<Rightarrow> linked h (next_pkt k) as))"

text \<open>The cells reached from a pointer in at most \<open>n\<close> steps.\<close>

fun walk :: "nat \<Rightarrow> (ptr \<Rightarrow> msg_packet option) \<Rightarrow> ptr \<Rightarrow> ptr list" where
  "walk 0 h p = []"
| "walk (Suc n) h p =
     (if p = NULL then [] else case h p of None \<Rightarrow> [] | Some k \<Rightarrow> p # walk n h (next_pkt k))"

definition pkt_wf :: "msg_packet \<Rightarrow> bool" where
  "pkt_wf k \<longleftrightarrow> len k = length (packet_data k) \<and> offset k < len k \<and> len k \<le> MSG_SIZE_LIMIT"

definition rest_of :: "msg_packet \<Rightarrow> byte list" where
  "rest_of k = drop (offset k) (packet_data k)"

definition cell :: "(ptr \<Rightarrow> msg_packet option) \<Rightarrow> ptr \<Rightarrow> msg_packet" where
  "cell h p = the (h p)"

definition pending :: "(ptr \<Rightarrow> msg_packet option) \<Rightarrow> ptr list \<Rightarrow> byte list" where
  "pending h ps = concat (map (\<lambda>p. rest_of (cell h p)) ps)"

definition queue_rep :: "(ptr \<Rightarrow> msg_packet option) \<Rightarrow> msg_queue \<Rightarrow> ptr list \<Rightarrow> bool" where
  "queue_rep h q ps \<longleftrightarrow>
     linked h (head q) ps \<and> distinct ps \<and> tail q = (if ps = [] then NULL else last ps) \<and>
     (\<forall>p \<in> set ps. pkt_wf (cell h p)) \<and> (\<forall>p \<in> set (tl ps). offset (cell h p) = 0) \<and>
     queued_count q = length ps \<and> queued_bytes q = length (pending h ps) \<and>
     queued_bytes q \<le> MSG_SIZE_LIMIT"

definition queue_cells :: "server \<Rightarrow> client_info \<Rightarrow> ptr list" where
  "queue_cells w ci = walk (queued_count (msg_queue ci)) (packets w) (head (msg_queue ci))"

lemma linked_frame: "(\<And>p. p \<in> set ps \<Longrightarrow> h' p = h p) \<Longrightarrow> linked h' a ps = linked h a ps"
  by (induction ps arbitrary: a) (auto split: option.splits)

lemma linked_alive: "linked h a ps \<Longrightarrow> p \<in> set ps \<Longrightarrow> p \<noteq> NULL \<and> h p = Some (cell h p)"
  by (induction ps arbitrary: a) (auto simp: cell_def split: option.splits)

lemma linked_walk: "linked h a ps \<Longrightarrow> walk (length ps) h a = ps"
  by (induction ps arbitrary: a) (auto split: option.splits)

lemma linked_snoc:
  "linked h a (ps @ [t]) \<Longrightarrow> distinct (ps @ [t]) \<Longrightarrow> p \<notin> set (ps @ [t]) \<Longrightarrow> p \<noteq> NULL \<Longrightarrow>
     h p = Some k \<Longrightarrow> next_pkt k = NULL \<Longrightarrow>
     linked (h(t \<mapsto> (cell h t)\<lparr>next_pkt := p\<rparr>)) a (ps @ [t, p])"
  by (induction ps arbitrary: a) (auto simp: cell_def split: option.splits if_splits)

lemma pending_frame: "(\<And>p. p \<in> set ps \<Longrightarrow> h' p = h p) \<Longrightarrow> pending h' ps = pending h ps"
  unfolding pending_def cell_def by (intro arg_cong [where f = concat] map_cong) auto

lemma pending_simps [simp]:
  "pending h [] = []" "pending h (p # ps) = rest_of (cell h p) @ pending h ps"
  "pending h (ps @ qs) = pending h ps @ pending h qs"
  by (simp_all add: pending_def)

lemma queue_rep_frame:
  assumes "\<And>p. p \<in> set ps \<Longrightarrow> h' p = h p"
  shows "queue_rep h' q ps = queue_rep h q ps"
proof -
  have "cell h' p = cell h p" if "p \<in> set ps" for p
    using assms [OF that] by (simp add: cell_def)
  moreover have "p \<in> set ps" if "p \<in> set (tl ps)" for p
    using that by (cases ps) auto
  ultimately show ?thesis
    unfolding queue_rep_def
    by (simp add: linked_frame [of ps h' h, OF assms] pending_frame [of ps h' h, OF assms])
qed

lemma queue_rep_cells:
  "queue_rep (packets w) (msg_queue ci) ps \<Longrightarrow> queue_cells w ci = ps"
  by (simp add: queue_rep_def queue_cells_def linked_walk)

lemma queue_rep_alive:
  "queue_rep h q ps \<Longrightarrow> p \<in> set ps \<Longrightarrow> p \<noteq> NULL \<and> h p = Some (cell h p)"
  unfolding queue_rep_def using linked_alive by blast

lemma queue_rep_empty [simp]:
  "queue_rep h \<lparr>head = NULL, tail = NULL, queued_bytes = 0, queued_count = 0\<rparr> ps \<longleftrightarrow> ps = []"
  by (cases ps) (auto simp: queue_rep_def)

section \<open>Enqueueing\<close>

definition pkt_new :: "msg_packet \<Rightarrow> bool" where
  "pkt_new k \<longleftrightarrow> next_pkt k = NULL \<and> offset k = 0 \<and> len k = length (packet_data k) \<and> 0 < len k"

lemma pkt_new_rest: "pkt_new k \<Longrightarrow> rest_of k = packet_data k"
  by (simp add: pkt_new_def rest_of_def)

lemma rest_of_relink [simp]: "rest_of (k\<lparr>next_pkt := p\<rparr>) = rest_of k"
  by (simp add: rest_of_def)

lemma cell_upd [simp]: "cell (h(p \<mapsto> k)) q = (if q = p then k else cell h q)"
  by (simp add: cell_def)

lemma pending_relink: "pending (h(t \<mapsto> (cell h t)\<lparr>next_pkt := p\<rparr>)) ps = pending h ps"
  unfolding pending_def by (intro arg_cong [where f = concat] map_cong) auto

text \<open>The list surgery: linking a fresh cell behind the tail appends it to the represented list.\<close>

lemma queue_rep_append:
  assumes q: "queue_rep h q ps" and p: "p \<notin> set ps" "p \<noteq> NULL" "h p = Some k" "pkt_new k"
    and fits: "queued_bytes q + len k \<le> MSG_SIZE_LIMIT"
    and h': "h' = (if ps = [] then h else h(tail q \<mapsto> (cell h (tail q))\<lparr>next_pkt := p\<rparr>))"
  shows "queue_rep h' \<lparr>head = (if ps = [] then p else head q), tail = p,
           queued_bytes = queued_bytes q + len k, queued_count = Suc (queued_count q)\<rparr> (ps @ [p])"
    and "pending h' (ps @ [p]) = pending h ps @ packet_data k"
proof -
  have cp: "cell h p = k" using p(3) by (simp add: cell_def)
  have wf: "pkt_wf k" using p(4) fits by (auto simp: pkt_wf_def pkt_new_def)
  have pend: "pending h' (ps @ [p]) = pending h ps @ packet_data k"
  proof (cases "ps = []")
    case False
    then have "tail q \<noteq> p" using q p(1) last_in_set by (auto simp: queue_rep_def)
    then show ?thesis using False cp pkt_new_rest [OF p(4)] by (simp add: h' pending_relink)
  qed (simp add: h' cp pkt_new_rest [OF p(4)])
  then show "pending h' (ps @ [p]) = pending h ps @ packet_data k" .
  have lk: "linked h' (if ps = [] then p else head q) (ps @ [p])"
  proof (cases ps rule: rev_cases)
    case (snoc qs t)
    then have "linked (h(t \<mapsto> (cell h t)\<lparr>next_pkt := p\<rparr>)) (head q) (qs @ [t, p])"
      using q p by (intro linked_snoc) (auto simp: queue_rep_def pkt_new_def)
    then show ?thesis using snoc q by (simp add: h' queue_rep_def)
  qed (use p in \<open>simp add: h' pkt_new_def\<close>)
  have cells: "pkt_wf (cell h' a)" "offset (cell h' a) = offset (cell h a)" if "a \<in> set (ps @ [p])" for a
    using that q wf cp last_in_set [of ps] by (auto simp: h' queue_rep_def pkt_wf_def)
  have tls: "offset (cell h a) = 0" if "a \<in> set (tl (ps @ [p]))" for a
    using that q cp p(4) by (cases ps) (auto simp: queue_rep_def pkt_new_def)
  have tlsub: "set (tl (ps @ [p])) \<subseteq> set (ps @ [p])" by (cases ps) auto
  have "\<forall>a \<in> set (tl (ps @ [p])). offset (cell h' a) = 0"
    using tls tlsub cells(2) by auto
  then show "queue_rep h' \<lparr>head = (if ps = [] then p else head q), tail = p,
           queued_bytes = queued_bytes q + len k, queued_count = Suc (queued_count q)\<rparr> (ps @ [p])"
    unfolding queue_rep_def
    using q p fits lk cells(1) pend by (auto simp: queue_rep_def pkt_new_def)
qed


lemma sz_add_limit: "a \<le> MSG_SIZE_LIMIT \<Longrightarrow> b < 2 ^ 63 \<Longrightarrow> sz_add a b = a + b"
  by (simp add: sz_add_def SIZE_MOD_def MSG_SIZE_LIMIT_def)

lemma length_cells_le:
  assumes "queue_rep h q ps"
  shows "length ps \<le> MSG_SIZE_LIMIT"
proof -
  have "length ps \<le> length (pending h ps)" if "\<forall>p \<in> set ps. pkt_wf (cell h p)" for ps
    using that
  proof (induction ps)
    case (Cons p ps)
    have "length ps \<le> length (pending h ps)" using Cons by simp
    moreover have "0 < length (rest_of (cell h p))"
      using Cons.prems by (simp add: pkt_wf_def rest_of_def)
    ultimately show ?case unfolding pending_simps length_append list.size by linarith
  qed simp
  then show ?thesis using assms unfolding queue_rep_def by fastforce
qed

text \<open>
  \<open>enqueued c ci ps p k w w'\<close>: the packet \<open>p\<close> now ends the queue of client \<open>c\<close>; nothing else of the
  server changed but the link of the previous tail.
\<close>

definition enqueued ::
  "ptr \<Rightarrow> client_info \<Rightarrow> ptr list \<Rightarrow> ptr \<Rightarrow> msg_packet \<Rightarrow> server \<Rightarrow> client_info \<Rightarrow> server \<Rightarrow> bool" where
  "enqueued c ci ps p k w ci' w' \<longleftrightarrow>
     ci' = ci\<lparr>msg_queue := msg_queue ci'\<rparr> \<and>
     w' = w\<lparr>clients := (clients w)(c \<mapsto> ci'), packets := packets w'\<rparr> \<and>
     queue_rep (packets w') (msg_queue ci') (ps @ [p]) \<and>
     pending (packets w') (ps @ [p]) = pending (packets w) ps @ packet_data k \<and>
     (\<forall>a. a \<notin> set ps \<longrightarrow> packets w' a = packets w a)"

lemma enqueue_spec:
  assumes c: "clients w c = Some ci" and q: "queue_rep (packets w) (msg_queue ci) ps"
    and p: "p \<notin> set ps" "p \<noteq> NULL" "packets w p = Some k" "pkt_new k" "len k < 2 ^ 63"
  shows "ok (client_enqueue_msg_packet c p MSG_SIZE_LIMIT w) (\<lambda>(r, w').
     if closed ci \<noteq> 1 \<and> length (pending (packets w) ps) + len k \<le> MSG_SIZE_LIMIT
     then r = 0 \<and> (\<exists>ci'. enqueued c ci ps p k w ci' w')
     else r = -1 \<and> w' = w)"
proof -
  let ?q = "msg_queue ci"
  have bytes: "queued_bytes ?q = length (pending (packets w) ps)" "queued_bytes ?q \<le> MSG_SIZE_LIMIT"
    and count: "queued_count ?q = length ps"
    using q by (auto simp: queue_rep_def)
  have add: "sz_add (queued_bytes ?q) (len k) = queued_bytes ?q + len k"
    "sz_add (queued_count ?q) 1 = Suc (queued_count ?q)"
    using sz_add_limit bytes(2) p(5) length_cells_le [OF q] count by simp_all
  show ?thesis
  proof (cases "closed ci \<noteq> 1 \<and> queued_bytes ?q + len k \<le> MSG_SIZE_LIMIT")
    case False
    then show ?thesis
      using c p add bytes(1) by (auto simp: client_enqueue_msg_packet_def Let_def)
  next
    case True
    let ?h = "if ps = [] then packets w
              else (packets w)(tail ?q \<mapsto> (cell (packets w) (tail ?q))\<lparr>next_pkt := p\<rparr>)"
    let ?q' = "?q\<lparr>head := (if ps = [] then p else head ?q), tail := p,
                 queued_bytes := queued_bytes ?q + len k, queued_count := Suc (queued_count ?q)\<rparr>"
    let ?w' = "w\<lparr>clients := (clients w)(c \<mapsto> ci\<lparr>msg_queue := ?q'\<rparr>), packets := ?h\<rparr>"
    have tl: "tail ?q = NULL \<longleftrightarrow> ps = []"
      "ps \<noteq> [] \<Longrightarrow> packets w (tail ?q) = Some (cell (packets w) (tail ?q))"
      "ps \<noteq> [] \<Longrightarrow> tail ?q \<in> set ps"
      using q queue_rep_alive [OF q] last_in_set by (auto simp: queue_rep_def)
    have q': "?q' = \<lparr>head = (if ps = [] then p else head ?q), tail = p,
           queued_bytes = queued_bytes ?q + len k, queued_count = Suc (queued_count ?q)\<rparr>"
      by (cases ?q) simp
    have "client_enqueue_msg_packet c p MSG_SIZE_LIMIT w = Some (0, ?w')"
      using c p True add tl
      by (auto simp: client_enqueue_msg_packet_def set_client_def set_packet_def Let_def)
    moreover have "enqueued c ci ps p k w (ci\<lparr>msg_queue := ?q'\<rparr>) ?w'"
      using queue_rep_append [OF q p(1-4) _ refl] True tl(3)
      unfolding enqueued_def q' by auto
    ultimately show ?thesis
      using True bytes(1) by auto
  qed
qed

section \<open>Creating packets\<close>

definition new_packet :: "msg_header \<Rightarrow> byte list \<Rightarrow> msg_packet" where
  "new_packet h data = \<lparr>next_pkt = NULL, packet_data = header_image h @ data,
                        len = HEADER_SIZE + length data, offset = 0\<rparr>"

lemma pkt_new_new_packet [simp]: "pkt_new (new_packet h data)"
  by (simp add: pkt_new_def new_packet_def HEADER_SIZE_def)

lemma new_packet_sel [simp]:
  "packet_data (new_packet h data) = header_image h @ data"
  "len (new_packet h data) = HEADER_SIZE + length data"
  by (simp_all add: new_packet_def)

lemma mallocs_triv [simp]: "w\<lparr>mallocs := mallocs w\<rparr> = (w :: 'a os_scheme)"
  by (cases w) simp

lemma malloc_ok_cases:
  obtains ms where "malloc_ok n w = (False, w\<lparr>mallocs := ms\<rparr>)" "set ms \<subseteq> set (mallocs w)"
     "\<not> memory_available w \<or> PTRDIFF_MAX < n"
  | ms where "malloc_ok n w = (True, w\<lparr>mallocs := ms\<rparr>)" "set ms \<subseteq> set (mallocs w)"
proof -
  let ?b = "fst (pop_default True (mallocs w))" and ?ms = "snd (pop_default True (mallocs w))"
  have eq: "malloc_ok n w = (?b \<and> n \<le> PTRDIFF_MAX, w\<lparr>mallocs := ?ms\<rparr>)"
    by (simp add: malloc_ok_def split_beta)
  have sub: "set ?ms \<subseteq> set (mallocs w)" by (rule set_snd_pop_default)
  show thesis
  proof (cases "?b \<and> n \<le> PTRDIFF_MAX")
    case True
    then show ?thesis using that(2) [OF _ sub] eq by metis
  next
    case False
    then have "\<not> memory_available w \<or> PTRDIFF_MAX < n"
      using fst_pop_default [of True "mallocs w"] unfolding memory_available_def
      by (metis insertE not_le)
    then show ?thesis using that(1) [OF _ sub] eq False by metis
  qed
qed

lemma create_packet_spec:
  assumes "n \<le> length payload" "n < 2 ^ 62" "brk w \<noteq> NULL"
  shows "ok (create_packet h payload n w) (\<lambda>(p, w'). \<exists>ms. set ms \<subseteq> set (mallocs w) \<and>
     (if p = NULL then w' = w\<lparr>mallocs := ms\<rparr> \<and> \<not> memory_available w
      else p = brk w \<and>
        w' = w\<lparr>mallocs := ms, brk := brk w + 16, live_bufs := live_bufs w + 1,
               packets := (packets w)(p \<mapsto> new_packet h (take n payload))\<rparr>))"
proof -
  have tot: "sz_add HEADER_SIZE n = HEADER_SIZE + n" "HEADER_SIZE + n \<le> PTRDIFF_MAX"
    using assms(2) by (simp_all add: sz_add_def HEADER_SIZE_def SIZE_MOD_def PTRDIFF_MAX_def)
  show ?thesis
  proof (cases rule: malloc_ok_cases [of "HEADER_SIZE + n" w])
    case (1 ms)
    with tot assms(3) show ?thesis
      by (auto simp: create_packet_def malloc_buf_def)
  next
    case (2 ms)
    let ?w1 = "w\<lparr>mallocs := ms, live_bufs := live_bufs w + 1\<rparr>"
    have m: "malloc_buf (sz_add HEADER_SIZE n) w = (Some (map (junk w) [0..<HEADER_SIZE + n]), ?w1)"
      using 2 tot by (simp add: malloc_buf_def)
    have c1: "memcpy_at (map (junk w) [0..<HEADER_SIZE + n]) 0 (header_image h)
        = Some (header_image h @ map (junk w) [HEADER_SIZE..<HEADER_SIZE + n])"
      by (simp add: memcpy_at_def drop_map)
    have c2: "memcpy_at (header_image h @ map (junk w) [HEADER_SIZE..<HEADER_SIZE + n]) HEADER_SIZE
                (take n payload) = Some (header_image h @ take n payload)"
      using assms(1) by (simp add: memcpy_at_def)
    have sl: "slice payload 0 n = Some (take n payload)" using assms(1) by (simp add: slice_def)
    show ?thesis
    proof (cases rule: malloc_ok_cases [of SIZEOF_MSG_PACKET ?w1])
      case (1 ms')
      then have "create_packet h payload n w = Some (NULL, w\<lparr>mallocs := ms'\<rparr>)"
        using m c1 c2 sl by (simp add: create_packet_def free_buf_def)
      moreover have "\<not> memory_available w" 
        using 1 2 by (auto simp: memory_available_def SIZEOF_MSG_PACKET_def PTRDIFF_MAX_def)
      ultimately show ?thesis using 1 2(2) by auto
    next
      case (2 ms')
      then have "create_packet h payload n w = Some (brk w, w\<lparr>mallocs := ms', brk := brk w + 16,
            live_bufs := live_bufs w + 1, packets := (packets w)(brk w \<mapsto> new_packet h (take n payload))\<rparr>)"
        using m c1 c2 sl tot(1) assms(1)
        by (simp add: create_packet_def fresh_ptr_def set_packet_def new_packet_def)
      then show ?thesis using assms(3) 2 \<open>set ms \<subseteq> set (mallocs w)\<close> by auto
    qed
  qed
qed

section \<open>Flushing\<close>

text \<open>
  \<open>touches c d w w'\<close>: of the system and the server only what belongs to client \<open>c\<close> and its
  descriptor \<open>d\<close> may differ, apart from the packet heap and the allocator; the registration of
  \<open>d\<close> keeps pointing at \<open>c\<close>.
\<close>

definition touches :: "ptr \<Rightarrow> fd \<Rightarrow> server \<Rightarrow> server \<Rightarrow> bool" where
  "touches c d w w' \<longleftrightarrow>
     inq w' = inq w \<and> opened w' = opened w \<and> accepts w' = accepts w \<and> fcntls w' = fcntls w \<and>
     closes w' = closes w \<and> clock w' = clock w \<and> junk w' = junk w \<and>
     server_fd w' = server_fd w \<and> epoll_fd w' = epoll_fd w \<and> client_list w' = client_list w \<and>
     client_count w' = client_count w \<and> client_mutex w' = client_mutex w \<and>
     server_shutdown w' = server_shutdown w \<and>
     set (mallocs w') \<subseteq> set (mallocs w) \<and> brk w \<le> brk w' \<and>
     (16 dvd brk w \<longrightarrow> 16 dvd brk w') \<and>
     (\<forall>d'. d' \<noteq> d \<longrightarrow> outq w' d' = outq w d' \<and> sent w' d' = sent w d' \<and>
        interest w' d' = interest w d') \<and>
     (\<forall>c'. c' \<noteq> c \<longrightarrow> clients w' c' = clients w c') \<and>
     (interest w d = None \<longrightarrow> interest w' d = None) \<and>
     (\<forall>m. interest w d = Some (m, DataPtr c) \<longrightarrow> (\<exists>m'. interest w' d = Some (m', DataPtr c)))"

lemma touches_refl [simp, intro]: "touches c d w w"
  by (simp add: touches_def)

lemma touches_trans [trans]:
  assumes "touches c d w w1" "touches c d w1 w2"
  shows "touches c d w w2"
proof -
  note t = assms [unfolded touches_def]
  have "set (mallocs w2) \<subseteq> set (mallocs w)" "brk w \<le> brk w2"
    using t by (meson subset_trans order_trans)+
  moreover have "\<forall>m. interest w d = Some (m, DataPtr c) \<longrightarrow> (\<exists>m'. interest w2 d = Some (m', DataPtr c))"
    using t by meson
  ultimately show ?thesis
    using t unfolding touches_def by (elim conjE) (intro conjI; simp)
qed

text \<open>
  \<open>flushed c ci ps w ci' ps' w'\<close>: some cells at the front of the queue are gone and freed, the
  rest still stands for the bytes not sent: sent and pending together are the same byte string.
\<close>

definition flushed ::
  "ptr \<Rightarrow> client_info \<Rightarrow> ptr list \<Rightarrow> server \<Rightarrow> client_info \<Rightarrow> ptr list \<Rightarrow> server \<Rightarrow> bool" where
  "flushed c ci ps w ci' ps' w' \<longleftrightarrow>
     touches c (client_fd ci) w w' \<and> clients w' c = Some ci' \<and>
     ci' = ci\<lparr>msg_queue := msg_queue ci', epollout_enabled := epollout_enabled ci'\<rparr> \<and>
     queue_rep (packets w') (msg_queue ci') ps' \<and>
     (\<exists>gone. ps = gone @ ps' \<and> (\<forall>a \<in> set gone. packets w' a = None) \<and>
        live_bufs w' = live_bufs w - int (length gone)) \<and>
     (\<forall>a. a \<notin> set ps \<longrightarrow> packets w' a = packets w a) \<and>
     (\<exists>s. sent w' (client_fd ci) = sent w (client_fd ci) @ s) \<and>
     sent w' (client_fd ci) @ pending (packets w') ps'
       = sent w (client_fd ci) @ pending (packets w) ps"

lemma flushed_refl:
  assumes "clients w c = Some ci" "queue_rep (packets w) (msg_queue ci) ps"
  shows "flushed c ci ps w ci ps w"
  using assms unfolding flushed_def by (cases ci) simp

lemma flushed_trans:
  assumes "flushed c ci ps w ci1 ps1 w1" "flushed c ci1 ps1 w1 ci2 ps2 w2" "distinct ps"
  shows "flushed c ci ps w ci2 ps2 w2"
proof -
  obtain g1 where g1: "ps = g1 @ ps1" "\<forall>a \<in> set g1. packets w1 a = None"
    "live_bufs w1 = live_bufs w - int (length g1)"
    using assms(1) unfolding flushed_def by blast
  obtain g2 where g2: "ps1 = g2 @ ps2" "\<forall>a \<in> set g2. packets w2 a = None"
    "live_bufs w2 = live_bufs w1 - int (length g2)"
    using assms(2) unfolding flushed_def by blast
  have fd: "client_fd ci1 = client_fd ci"
    and ci1: "ci1 = ci\<lparr>msg_queue := msg_queue ci1, epollout_enabled := epollout_enabled ci1\<rparr>"
    and ci2: "ci2 = ci1\<lparr>msg_queue := msg_queue ci2, epollout_enabled := epollout_enabled ci2\<rparr>"
    using assms(1,2) unfolding flushed_def by - (elim conjE, erule ssubst, simp)+
  have "packets w2 a = None" if "a \<in> set g1" for a
    using that g1 assms(2,3) unfolding flushed_def by auto
  then have "\<exists>gone. ps = gone @ ps2 \<and> (\<forall>a \<in> set gone. packets w2 a = None) \<and>
        live_bufs w2 = live_bufs w - int (length gone)"
    using g1 g2 by (intro exI [of _ "g1 @ g2"]) auto
  moreover have "ci2 = ci\<lparr>msg_queue := msg_queue ci2, epollout_enabled := epollout_enabled ci2\<rparr>"
    by (subst ci2, subst ci1) simp
  moreover have "touches c (client_fd ci) w w2"
    using assms(1,2) fd touches_trans unfolding flushed_def by metis
  moreover have "\<exists>s. sent w2 (client_fd ci) = sent w (client_fd ci) @ s"
    using assms(1,2) fd unfolding flushed_def by (metis append.assoc)
  ultimately show ?thesis
    using assms(1,2) fd g1(1) unfolding flushed_def by simp
qed

lemma set_client_sel [simp]:
  "clients (set_client c ci w) = (clients w)(c \<mapsto> ci)" "packets (set_client c ci w) = packets w"
  "inq (set_client c ci w) = inq w" "outq (set_client c ci w) = outq w"
  "sent (set_client c ci w) = sent w" "opened (set_client c ci w) = opened w"
  "interest (set_client c ci w) = interest w" "accepts (set_client c ci w) = accepts w"
  "mallocs (set_client c ci w) = mallocs w" "epctls (set_client c ci w) = epctls w"
  "fcntls (set_client c ci w) = fcntls w" "closes (set_client c ci w) = closes w"
  "clock (set_client c ci w) = clock w" "junk (set_client c ci w) = junk w"
  "brk (set_client c ci w) = brk w" "live_bufs (set_client c ci w) = live_bufs w"
  "server_fd (set_client c ci w) = server_fd w" "epoll_fd (set_client c ci w) = epoll_fd w"
  "client_list (set_client c ci w) = client_list w"
  "client_count (set_client c ci w) = client_count w"
  "client_mutex (set_client c ci w) = client_mutex w"
  "server_shutdown (set_client c ci w) = server_shutdown w"
  by (simp_all add: set_client_def)

lemma set_packet_sel [simp]:
  "clients (set_packet p k w) = clients w" "packets (set_packet p k w) = (packets w)(p \<mapsto> k)"
  "inq (set_packet p k w) = inq w" "outq (set_packet p k w) = outq w"
  "sent (set_packet p k w) = sent w" "opened (set_packet p k w) = opened w"
  "interest (set_packet p k w) = interest w" "accepts (set_packet p k w) = accepts w"
  "mallocs (set_packet p k w) = mallocs w" "epctls (set_packet p k w) = epctls w"
  "fcntls (set_packet p k w) = fcntls w" "closes (set_packet p k w) = closes w"
  "clock (set_packet p k w) = clock w" "junk (set_packet p k w) = junk w"
  "brk (set_packet p k w) = brk w" "live_bufs (set_packet p k w) = live_bufs w"
  "server_fd (set_packet p k w) = server_fd w" "epoll_fd (set_packet p k w) = epoll_fd w"
  "client_list (set_packet p k w) = client_list w"
  "client_count (set_packet p k w) = client_count w"
  "client_mutex (set_packet p k w) = client_mutex w"
  "server_shutdown (set_packet p k w) = server_shutdown w"
  by (simp_all add: set_packet_def)

lemma flush_partial:
  assumes c: "clients w c = Some ci" and q: "queue_rep (packets w) (msg_queue ci) (p # ps)"
    and k: "cell (packets w) p = k" and m: "offset k + m < len k"
    and w1: "w1 = w\<lparr>outq := (outq w)(client_fd ci := o'),
                    sent := (sent w)(client_fd ci := sent w (client_fd ci) @ take m (rest_of k))\<rparr>"
    and ci': "ci' = ci\<lparr>msg_queue := (msg_queue ci)\<lparr>queued_bytes := queued_bytes (msg_queue ci) - m\<rparr>\<rparr>"
  shows "flushed c ci (p # ps) w ci' (p # ps)
           (set_client c ci' (set_packet p (k\<lparr>offset := offset k + m\<rparr>) w1))"
proof -
  let ?k = "k\<lparr>offset := offset k + m\<rparr>" and ?h = "(packets w)(p \<mapsto> k\<lparr>offset := offset k + m\<rparr>)"
  have pn: "p \<notin> set ps" "pkt_wf k" "p \<noteq> NULL" "packets w p = Some k"
    using q k queue_rep_alive [OF q, of p] by (auto simp: queue_rep_def)
  have same: "pending ?h ps = pending (packets w) ps" using pn(1) by (intro pending_frame) auto
  have rest: "rest_of k = take m (rest_of k) @ rest_of ?k"
    by (simp add: rest_of_def add.commute flip: drop_drop)
  have "length (rest_of k) = m + length (rest_of ?k)"
    using m pn(2) by (simp add: rest_of_def pkt_wf_def)
  moreover have "linked ?h (next_pkt k) ps"
    using q pn by (subst linked_frame [of ps ?h "packets w"]) (auto simp: queue_rep_def)
  ultimately have "queue_rep ?h (msg_queue ci') (p # ps)"
    using q pn m k same by (auto simp: queue_rep_def ci' pkt_wf_def)
  moreover have "sent w1 (client_fd ci) @ pending ?h (p # ps)
      = sent w (client_fd ci) @ pending (packets w) (p # ps)"
    using same rest k by (simp add: w1)
  ultimately show ?thesis
    using c by (auto simp: flushed_def touches_def w1 ci')
qed

lemma flush_complete:
  assumes c: "clients w c = Some ci" and q: "queue_rep (packets w) (msg_queue ci) (p # ps)"
    and k: "cell (packets w) p = k" and m: "offset k + m = len k"
    and w1: "w1 = w\<lparr>outq := (outq w)(client_fd ci := o'),
                    sent := (sent w)(client_fd ci := sent w (client_fd ci) @ take m (rest_of k))\<rparr>"
    and ci': "ci' = ci\<lparr>msg_queue := \<lparr>head = next_pkt k, tail = (if next_pkt k = NULL then NULL else tail (msg_queue ci)),
        queued_bytes = queued_bytes (msg_queue ci) - m, queued_count = queued_count (msg_queue ci) - 1\<rparr>\<rparr>"
    and w3: "clients w3 = clients w1" "packets w3 = (packets w)(p := None)"
       "touches c (client_fd ci) w1 w3" "live_bufs w3 = live_bufs w - 1" "sent w3 = sent w1"
  shows "flushed c ci (p # ps) w ci' ps (set_client c ci' w3)"
proof -
  let ?h = "(packets w)(p := None)"
  have pn: "p \<notin> set ps" "pkt_wf k" "p \<noteq> NULL" "packets w p = Some k"
    using q k queue_rep_alive [OF q, of p] by (auto simp: queue_rep_def)
  have same: "pending ?h ps = pending (packets w) ps" using pn(1) by (intro pending_frame) auto
  have lk: "linked (packets w) (next_pkt k) ps" using q pn(4) by (simp add: queue_rep_def)
  then have nx: "next_pkt k = NULL \<longleftrightarrow> ps = []" by (cases ps) auto
  have all: "take m (rest_of k) = rest_of k" "length (rest_of k) = m"
    using m pn(2) by (simp_all add: rest_of_def pkt_wf_def)
  have cells: "cell ?h a = cell (packets w) a" if "a \<in> set ps" for a
    using that pn(1) by (auto simp: cell_def)
  have lk': "linked ?h (next_pkt k) ps"
    using lk pn(1) by (subst linked_frame [of ps ?h "packets w"]) auto
  have tls: "offset (cell ?h a) = 0" if "a \<in> set (tl ps)" for a
    using that q cells [of a] by (cases ps) (auto simp: queue_rep_def)
  have "queue_rep ?h (msg_queue ci') ps"
    unfolding queue_rep_def
    using q k same lk' nx all cells tls by (simp add: ci') (auto simp: queue_rep_def)
  moreover have "touches c (client_fd ci) w w1"
    using c by (auto simp: touches_def w1)
  then have "touches c (client_fd ci) w w3" using w3(3) touches_trans by blast
  then have "touches c (client_fd ci) w (set_client c ci' w3)"
    by (auto simp: touches_def)
  ultimately show ?thesis
    using c w3 same all k by (auto simp: flushed_def w1 ci' intro!: exI [of _ "[p]"])
qed
lemma flushed_switched:
  assumes "epoll_switched c ci w ci' w'" "clients w c = Some ci"
    "queue_rep (packets w) (msg_queue ci) ps"
  shows "flushed c ci ps w ci' ps w'"
  using assms unfolding epoll_switched_def flushed_def by (auto simp: touches_def)

lemma flushed_outq:
  assumes "clients w c = Some ci" "queue_rep (packets w) (msg_queue ci) ps"
  shows "flushed c ci ps w ci ps (w\<lparr>outq := (outq w)(client_fd ci := o')\<rparr>)"
  using assms unfolding flushed_def by (cases ci) (auto simp: touches_def)

text \<open>
  The flush on lists: \<open>pour ps ws\<close> sends the texts \<open>ps\<close> into a socket with the script \<open>ws\<close>. The result is the
  return code, what was transmitted, what remains of the texts and of the script.
\<close>

fun pour :: "byte list list \<Rightarrow> wr_ev list \<Rightarrow> int \<times> byte list \<times> byte list list \<times> wr_ev list" where
  "pour [] ws = (0, [], [], ws)"
| "pour (p # ps) [] = (0, [], p # ps, [])"
| "pour (p # ps) (WrErr e # ws) =
     (if e = EAGAIN \<or> e = EWOULDBLOCK then (0, [], p # ps, ws)
      else if e = EINTR then pour (p # ps) ws else (-1, [], p # ps, ws))"
| "pour (p # ps) (WrAccept n # ws) =
     (if n = 0 then (-1, [], p # ps, ws)
      else case pour (if length p \<le> n then ps else drop n p # ps) ws of
             (r, s, rest) \<Rightarrow> (r, take n p @ s, rest))"

definition texts :: "server \<Rightarrow> ptr list \<Rightarrow> byte list list" where
  "texts w ps = map (\<lambda>p. rest_of (cell (packets w) p)) ps"

text \<open>\<open>poured d ps w r ps' w'\<close>: the descriptor and the queue moved as \<open>pour\<close> says, which returned \<open>r\<close>.\<close>

definition poured :: "fd \<Rightarrow> ptr list \<Rightarrow> server \<Rightarrow> int \<Rightarrow> ptr list \<Rightarrow> server \<Rightarrow> bool" where
  "poured d ps w r ps' w' \<longleftrightarrow> (\<exists>s. pour (texts w ps) (outq w d) = (r, s, texts w' ps', outq w' d) \<and>
     sent w' d = sent w d @ s)"

lemma texts_simps [simp]: "texts w [] = []" "texts w (p # ps) = rest_of (cell (packets w) p) # texts w ps"
  by (simp_all add: texts_def)

lemma texts_frame: "(\<And>p. p \<in> set ps \<Longrightarrow> packets w' p = packets w p) \<Longrightarrow> texts w' ps = texts w ps"
  by (simp add: texts_def cell_def)

lemma texts_output [simp]: "texts (w\<lparr>outq := o'\<rparr>) = texts w" "texts (w\<lparr>sent := s'\<rparr>) = texts w"
  by (simp_all add: texts_def fun_eq_iff)

lemma texts_pending: "concat (texts w ps) = pending (packets w) ps"
  by (simp add: texts_def pending_def)

lemma poured_step:
  assumes "poured d ps1 w1 r ps' w'" "sent w1 d = sent w d @ s0"
    and "\<And>r s x. pour (texts w1 ps1) (outq w1 d) = (r, s, x) \<Longrightarrow> pour (texts w ps) (outq w d) = (r, s0 @ s, x)"
  shows "poured d ps w r ps' w'"
proof -
  obtain s where s: "pour (texts w1 ps1) (outq w1 d) = (r, s, texts w' ps', outq w' d)" "sent w' d = sent w1 d @ s"
    using assms(1) by (auto simp: poured_def)
  then show ?thesis using assms(2) assms(3) [OF s(1)] by (auto simp: poured_def)
qed

lemma flushed_fd: "flushed c ci ps w ci' ps' w' \<Longrightarrow> client_fd ci' = client_fd ci"
  unfolding flushed_def by - (elim conjE, erule ssubst, simp)

lemma try_write_spec:
  assumes "clients w c = Some ci" "queue_rep (packets w) (msg_queue ci) ps" "opened w (client_fd ci)"
  shows "ok (client_try_write c w) (\<lambda>(r, w'). (r = 0 \<or> r = -1 \<and> ps \<noteq> []) \<and>
           (\<exists>ci' ps'. flushed c ci ps w ci' ps' w' \<and> poured (client_fd ci) ps w r ps' w'))"
  using assms
proof (induction "length (outq w (client_fd ci))" arbitrary: w ci ps rule: less_induct)
  case (less w ci ps)
  note c = less.prems(1) and q = less.prems(2)
  note unf = client_try_write.simps [of c w]
  let ?d = "client_fd ci"
  show ?case
  proof (cases ps)
    case Nil
    then have "head (msg_queue ci) = NULL" using q by (simp add: queue_rep_def)
    moreover have "ok (disable_epollout_for_client c w) (\<lambda>w'. \<exists>ci'. flushed c ci ps w ci' ps w' \<and> poured ?d ps w 0 ps w')"
    proof (rule ok_weaken [OF disable_epollout_spec [OF c]], elim exE)
      fix w' ci'
      assume sw: "epoll_switched c ci w ci' w'"
      then have "outq w' = outq w" "sent w' = sent w" by (auto simp: epoll_switched_def)
      then have "poured ?d ps w 0 ps w'" by (simp add: poured_def Nil)
      then show "\<exists>ci'. flushed c ci ps w ci' ps w' \<and> poured ?d ps w 0 ps w'"
        using flushed_switched [OF sw c q] by blast
    qed
    ultimately show ?thesis
      using c Nil by (subst unf) (auto simp: wp Let_def elim!: ok_weaken)
  next
    case (Cons p qs)
    let ?k = "cell (packets w) p"
    have hd: "head (msg_queue ci) = p" "p \<noteq> NULL" "packets w p = Some ?k" "pkt_wf ?k"
      using q queue_rep_alive [OF q, of p] Cons by (auto simp: queue_rep_def)
    have sl: "slice (packet_data ?k) (offset ?k) (sz_sub (len ?k) (offset ?k)) = Some (rest_of ?k)"
      using hd(4) by (simp add: slice_def pkt_wf_def rest_of_def)
    have lenr: "length (rest_of ?k) = len ?k - offset ?k" "0 < length (rest_of ?k)"
      using hd(4) by (auto simp: pkt_wf_def rest_of_def)
    obtain r w1 where r: "sys_write ?d (rest_of ?k) w = (r, w1)" by fastforce
    have again: "ok (client_try_write c w2) (\<lambda>(r, w'). (r = 0 \<or> r = -1 \<and> ps \<noteq> []) \<and>
        (\<exists>ci' ps'. flushed c ci ps w ci' ps' w' \<and> poured ?d ps w r ps' w'))"
      if "flushed c ci ps w ci2 ps2 w2" "length (outq w2 ?d) < length (outq w ?d)" "sent w2 ?d = sent w ?d @ sp"
        "\<And>r s x. pour (texts w2 ps2) (outq w2 ?d) = (r, s, x) \<Longrightarrow> pour (texts w ps) (outq w ?d) = (r, sp @ s, x)"
      for ci2 ps2 w2 sp
    proof -
      have fl2: "clients w2 c = Some ci2" "queue_rep (packets w2) (msg_queue ci2) ps2"
        "opened w2 (client_fd ci2)" and fd2: "client_fd ci2 = ?d"
        using that(1) less.prems(3) flushed_fd [OF that(1)] by (auto simp: flushed_def touches_def)
      have "distinct ps" using q by (simp add: queue_rep_def)
      then have tr: "flushed c ci ps w ci3 ps3 w3" if "flushed c ci2 ps2 w2 ci3 ps3 w3" for ci3 ps3 w3
        using flushed_trans [OF \<open>flushed c ci ps w ci2 ps2 w2\<close> that] by blast
      have "ok (client_try_write c w2) (\<lambda>(r, w'). (r = 0 \<or> r = -1 \<and> ps2 \<noteq> []) \<and>
           (\<exists>ci' ps'. flushed c ci2 ps2 w2 ci' ps' w' \<and> poured ?d ps2 w2 r ps' w'))"
        using less.hyps [OF _ fl2] that(2) fd2 by simp
      then show ?thesis
        by (rule ok_weaken) (use Cons tr poured_step [OF _ that(3,4)] in blast)
    qed
    from r less.prems(3) show ?thesis
    proof (cases rule: sys_write_cases)
      case blocked
      then have "poured ?d ps w 0 ps w1" by (simp add: poured_def Cons)
      then show ?thesis
        using blocked flushed_refl [OF c q] c hd sl r by (subst unf) (auto simp: Let_def)
    next
      case (failed e o')
      have fl: "flushed c ci ps w ci ps w1" using flushed_outq [OF c q] failed(3) by simp
      show ?thesis
      proof (cases "e = EINTR")
        case True
        have "ok (client_try_write c w1) (\<lambda>(r, w'). (r = 0 \<or> r = -1 \<and> ps \<noteq> []) \<and>
            (\<exists>ci' ps'. flushed c ci ps w ci' ps' w' \<and> poured ?d ps w r ps' w'))"
          by (rule again [OF fl, of "[]"]) (use failed True in \<open>simp_all add: Cons\<close>)
        then show ?thesis using c hd sl r failed(1) True by (subst unf) (simp add: Let_def)
      next
        case False
        then have "poured ?d ps w (if e = EAGAIN \<or> e = EWOULDBLOCK then 0 else -1) ps w1"
          using failed by (simp add: poured_def Cons)
        with fl have "\<exists>ci' ps'. flushed c ci ps w ci' ps' w1 \<and>
            poured ?d ps w (if e = EAGAIN \<or> e = EWOULDBLOCK then 0 else -1) ps' w1" by blast
        moreover have "client_try_write c w = Some (if e = EAGAIN \<or> e = EWOULDBLOCK then 0 else -1, w1)"
          using False c hd sl r failed(1) by (subst unf) (simp add: Let_def)
        ultimately show ?thesis using Cons by simp
      qed
    next
      case (accepted n o')
      show ?thesis
      proof (cases "n = 0")
        case True
        then have "flushed c ci ps w ci ps w1"
          using flushed_outq [OF c q, of o'] accepted(3) by (simp add: fun_upd_idem)
        moreover have "poured ?d ps w (-1) ps w1" using True accepted by (simp add: poured_def Cons)
        ultimately show ?thesis using True c hd sl r accepted(1) Cons by (subst unf) (auto simp: Let_def)
      next
        case False
        let ?m = "min n (length (rest_of ?k))"
        have m: "0 < ?m" using False lenr by simp
        have w1: "w1 = w\<lparr>outq := (outq w)(?d := o'), sent := (sent w)(?d := sent w ?d @ take ?m (rest_of ?k))\<rparr>"
          using accepted(3) by (simp add: min_def)
        have sub: "sz_sub (queued_bytes (msg_queue ci)) ?m = queued_bytes (msg_queue ci) - ?m"
          using q Cons by (auto simp: queue_rep_def)
        have "offset ?k + ?m \<le> len ?k" using lenr by linarith
        then have "offset ?k + ?m < 2 ^ 63"
          using hd(4) by (simp add: pkt_wf_def MSG_SIZE_LIMIT_def)
        then have add: "sz_add (offset ?k) ?m = offset ?k + ?m"
          by (simp add: sz_add_def SIZE_MOD_def)
        have takem: "take ?m (rest_of ?k) = take n (rest_of ?k)" by (simp add: min_def)
        have pq: "p \<notin> set qs" using q Cons by (simp add: queue_rep_def)
        have pour: "pour (texts w ps) (outq w ?d) =
            (case pour (if length (rest_of ?k) \<le> n then texts w qs else drop n (rest_of ?k) # texts w qs) o' of
               (r, s, x) \<Rightarrow> (r, take n (rest_of ?k) @ s, x))"
          using accepted(2) False by (simp add: Cons)
        show ?thesis
        proof (cases "offset ?k + ?m = len ?k")
          case True
          then have all: "length (rest_of ?k) \<le> n" using lenr by (simp add: min_def split: if_splits)
          let ?q = "msg_queue ci"
          let ?ci' = "ci\<lparr>msg_queue := \<lparr>head = next_pkt ?k, tail = (if next_pkt ?k = NULL then NULL else tail ?q),
              queued_bytes = queued_bytes ?q - ?m, queued_count = queued_count ?q - 1\<rparr>\<rparr>"
          let ?w2 = "set_packet p (?k\<lparr>offset := offset ?k + ?m\<rparr>) w1"
          let ?w3 = "(free_buf (Some (packet_data ?k)) ?w2)\<lparr>packets := (packets w)(p := None)\<rparr>"
          have w3: "free_packet p ?w2 = Some ?w3"
            by (simp add: free_packet_def w1)
          have "flushed c ci ps w ?ci' qs (set_client c ?ci' ?w3)"
            unfolding Cons
            by (rule flush_complete [OF c q [unfolded Cons] refl True w1 refl])
               (auto simp: w1 free_buf_def touches_def)
          then have "ok (client_try_write c (set_client c ?ci' ?w3)) (\<lambda>(r, w').
              (r = 0 \<or> r = -1 \<and> ps \<noteq> []) \<and> (\<exists>ci' ps'. flushed c ci ps w ci' ps' w' \<and> poured ?d ps w r ps' w'))"
          proof (rule again [where sp = "take ?m (rest_of ?k)"])
            have tx: "texts (set_client c ?ci' ?w3) qs = texts w qs"
              by (rule texts_frame) (use pq in \<open>auto simp: free_buf_def w1\<close>)
            show "pour (texts w ps) (outq w ?d) = (r, take ?m (rest_of ?k) @ s, x)"
              if "pour (texts (set_client c ?ci' ?w3) qs) (outq (set_client c ?ci' ?w3) ?d) = (r, s, x)" for r s x
              using that all pour unfolding tx takem by (simp add: w1 free_buf_def)
          qed (simp_all add: w1 accepted(2) free_buf_def)
          moreover have "(let q2 = ?q\<lparr>queued_bytes := queued_bytes ?q - ?m, head := next_pkt ?k\<rparr>;
              q3 = (if head q2 = NULL then q2\<lparr>tail := NULL\<rparr> else q2)
              in q3\<lparr>queued_count := sz_sub (queued_count q3) 1\<rparr>) = msg_queue ?ci'"
            using q Cons by (cases ?q) (simp add: queue_rep_def Let_def)
          ultimately show ?thesis
            using c hd sl r accepted(1) True m sub add w3 by (subst unf) (simp add: Let_def)
        next
          case False
          let ?ci' = "ci\<lparr>msg_queue := (msg_queue ci)\<lparr>queued_bytes := queued_bytes (msg_queue ci) - ?m\<rparr>\<rparr>"
          let ?w2 = "set_client c ?ci' (set_packet p (?k\<lparr>offset := offset ?k + ?m\<rparr>) w1)"
          have "offset ?k + ?m < len ?k" using False lenr by simp
          then have "flushed c ci ps w ?ci' ps ?w2"
            using flush_partial [OF c q [unfolded Cons] refl _ w1 refl] Cons by simp
          then have "ok (client_try_write c ?w2) (\<lambda>(r, w'). (r = 0 \<or> r = -1 \<and> ps \<noteq> []) \<and>
              (\<exists>ci' ps'. flushed c ci ps w ci' ps' w' \<and> poured ?d ps w r ps' w'))"
          proof (rule again [where sp = "take ?m (rest_of ?k)"])
            have part: "\<not> length (rest_of ?k) \<le> n" "?m = n" using False lenr by (auto simp: min_def split: if_splits)
            have "texts ?w2 qs = texts w qs" by (rule texts_frame) (use pq in \<open>auto simp: w1\<close>)
            moreover have "rest_of (?k\<lparr>offset := offset ?k + n\<rparr>) = drop n (rest_of ?k)"
              by (simp add: rest_of_def add.commute)
            ultimately have tx: "texts ?w2 ps = drop n (rest_of ?k) # texts w qs"
              unfolding part(2) by (simp add: Cons cell_def)
            show "pour (texts w ps) (outq w ?d) = (r, take ?m (rest_of ?k) @ s, x)"
              if "pour (texts ?w2 ps) (outq ?w2 ?d) = (r, s, x)" for r s x
              using that part(1) pour unfolding tx takem by (simp add: w1)
          qed (simp_all add: w1 accepted(2))
          then show ?thesis
            using c hd sl r accepted(1) False m sub add by (subst unf) (simp add: Let_def)
        qed
      qed
    qed
  qed
qed
section \<open>Discarding\<close>

lemma packets_triv [simp]: "w\<lparr>packets := packets w\<rparr> = (w :: server)"
  by (cases w) simp

lemma live_bufs_triv [simp]: "w\<lparr>live_bufs := live_bufs w\<rparr> = (w :: 'a os_scheme)"
  by (cases w) simp

definition drop_cells ::
  "ptr list \<Rightarrow> (ptr \<Rightarrow> msg_packet option) \<Rightarrow> ptr \<Rightarrow> msg_packet option" where
  "drop_cells ps h a = (if a \<in> set ps then None else h a)"

lemma drop_cells_simps [simp]:
  "drop_cells [] h = h" "drop_cells ps (h(p := None)) = drop_cells (p # ps) h"
  by (auto simp: drop_cells_def)

text \<open>
  Discarding frees exactly the cells of the queue. The head is NULL afterwards; the tail pointer
  and the counters keep their old values, which is harmless because the client goes next.
\<close>

lemma discard_queue_eq:
  assumes "clients w c = Some ci" "linked (packets w) (head (msg_queue ci)) ps" "distinct ps"
  shows "discard_queue c w = Some (w\<lparr>
     clients := (clients w)(c \<mapsto> ci\<lparr>msg_queue := (msg_queue ci)\<lparr>head := NULL\<rparr>\<rparr>),
     packets := drop_cells ps (packets w),
     live_bufs := live_bufs w - int (length ps)\<rparr>)"
  using assms
proof (induction ps arbitrary: w ci)
  case Nil
  have "ci\<lparr>msg_queue := (msg_queue ci)\<lparr>head := NULL\<rparr>\<rparr> = ci"
    using Nil.prems(2) by (cases ci, cases "msg_queue ci") simp
  with Nil show ?case by (simp add: discard_queue.simps fun_upd_idem)
next
  case (Cons p ps)
  let ?ci = "ci\<lparr>msg_queue := (msg_queue ci)\<lparr>head := next_pkt (cell (packets w) p)\<rparr>\<rparr>"
  let ?w = "set_client c ?ci ((free_buf (Some (packet_data (cell (packets w) p))) w)
              \<lparr>packets := (packets w)(p := None)\<rparr>)"
  have hd: "head (msg_queue ci) = p" "p \<noteq> NULL" "packets w p = Some (cell (packets w) p)"
    "linked (packets w) (next_pkt (cell (packets w) p)) ps" "p \<notin> set ps" "distinct ps"
    using Cons.prems by (auto simp: cell_def split: option.splits)
  have "linked (packets ?w) (head (msg_queue ?ci)) ps"
    using hd(4,5) by (subst linked_frame [of ps _ "packets w"]) auto
  moreover have "clients ?w c = Some ?ci" by simp
  ultimately have B: "discard_queue c ?w = Some (?w\<lparr>
     clients := (clients ?w)(c \<mapsto> ?ci\<lparr>msg_queue := (msg_queue ?ci)\<lparr>head := NULL\<rparr>\<rparr>),
     packets := drop_cells ps (packets ?w),
     live_bufs := live_bufs ?w - int (length ps)\<rparr>)"
    using hd(6) by (intro Cons.IH)
  have A: "discard_queue c w = discard_queue c ?w"
    using Cons.prems(1) hd by (subst discard_queue.simps) (simp add: free_packet_def Let_def)
  have C: "?w\<lparr>
     clients := (clients ?w)(c \<mapsto> ?ci\<lparr>msg_queue := (msg_queue ?ci)\<lparr>head := NULL\<rparr>\<rparr>),
     packets := drop_cells ps (packets ?w),
     live_bufs := live_bufs ?w - int (length ps)\<rparr> = w\<lparr>
     clients := (clients w)(c \<mapsto> ci\<lparr>msg_queue := (msg_queue ci)\<lparr>head := NULL\<rparr>\<rparr>),
     packets := drop_cells (p # ps) (packets w),
     live_bufs := live_bufs w - int (length (p # ps))\<rparr>"
    by (rule server.equality) (simp_all add: free_buf_def fun_eq_iff)
  show ?case by (simp only: A B C)
qed

end
