(* ===== verification/Chat_Channel.thy ===== *)
theory Chat_Channel
  imports Chat_Queue "HOL-Library.Sublist"
begin

text \<open>
  The contract of a client's outgoing queue. \<open>fifo_channel\<close> is the interface a sender relies on:
  pushing a message adds its whole encoding at the end or nothing at all, flushing moves bytes from
  pending to sent. What follows from it, for any interleaving of pushes and flushes, is proved once
  in the locale: the byte string a peer receives is an in-order selection of whole messages. The
  interpretation on the server's queue discharges the laws.
\<close>

section \<open>The interface\<close>

lemma subseq_set: "subseq xs ys \<Longrightarrow> x \<in> set xs \<Longrightarrow> x \<in> set ys"
  by (erule list_emb_set, assumption) simp

datatype 'm chan_op = Push 'm | Flush

fun run_ops ::
  "('m \<Rightarrow> 's \<Rightarrow> 's option) \<Rightarrow> ('s \<Rightarrow> 's option) \<Rightarrow> 'm chan_op list \<Rightarrow> 's \<Rightarrow> 's option" where
  "run_ops push flush [] s = Some s"
| "run_ops push flush (Push m # ops) s = do { s1 \<leftarrow> push m s; run_ops push flush ops s1 }"
| "run_ops push flush (Flush # ops) s = do { s1 \<leftarrow> flush s; run_ops push flush ops s1 }"

fun pushed :: "'m chan_op list \<Rightarrow> 'm list" where
  "pushed [] = []"
| "pushed (Push m # ops) = m # pushed ops"
| "pushed (Flush # ops) = pushed ops"

text \<open>
  The pushed messages the queue took in: those whose push changed what is pending. The states are
  those the operations run through.
\<close>

fun accepted ::
  "('s \<Rightarrow> 'b list) \<Rightarrow> ('m \<Rightarrow> 's \<Rightarrow> 's option) \<Rightarrow> ('s \<Rightarrow> 's option) \<Rightarrow> 'm chan_op list \<Rightarrow> 's \<Rightarrow> 'm list" where
  "accepted pend push flush [] s = []"
| "accepted pend push flush (Push m # ops) s =
     (case push m s of
        None \<Rightarrow> []
      | Some s1 \<Rightarrow> (if pend s1 = pend s then [] else [m]) @ accepted pend push flush ops s1)"
| "accepted pend push flush (Flush # ops) s =
     (case flush s of None \<Rightarrow> [] | Some s1 \<Rightarrow> accepted pend push flush ops s1)"

lemma accepted_pushed: "subseq (accepted pend push flush ops s) (pushed ops)"
proof (induction ops arbitrary: s)
  case (Cons a ops)
  then show ?case by (cases a) (auto split: option.splits)
qed simp

locale fifo_channel =
  fixes inv :: "'s \<Rightarrow> bool"
    and sent_of :: "'s \<Rightarrow> 'b list"
    and pend :: "'s \<Rightarrow> 'b list"
    and enc :: "'m \<Rightarrow> 'b list"
    and wf :: "'m \<Rightarrow> bool"
    and push :: "'m \<Rightarrow> 's \<Rightarrow> 's option"
    and flush :: "'s \<Rightarrow> 's option"
  assumes push_law: "inv s \<Longrightarrow> wf m \<Longrightarrow> ok (push m s) (\<lambda>s'. inv s' \<and> sent_of s' = sent_of s \<and>
            (pend s' = pend s @ enc m \<or> pend s' = pend s))"
    and flush_law: "inv s \<Longrightarrow> ok (flush s) (\<lambda>s'. inv s' \<and>
            sent_of s' @ pend s' = sent_of s @ pend s \<and> prefix (sent_of s) (sent_of s'))"
begin

lemma run_ops_accepted:
  "inv s \<Longrightarrow> \<forall>m \<in> set (pushed ops). wf m \<Longrightarrow> ok (run_ops push flush ops s) (\<lambda>s'. inv s' \<and> prefix (sent_of s) (sent_of s') \<and>
     sent_of s' @ pend s' = sent_of s @ pend s @ concat (map enc (accepted pend push flush ops s)))"
proof (induction ops arbitrary: s)
  case Nil
  then show ?case by simp
next
  case (Cons a ops)
  show ?case
  proof (cases a)
    case (Push m)
    obtain s1 where s1: "push m s = Some s1" "inv s1" "sent_of s1 = sent_of s"
      "pend s1 = pend s @ enc m \<or> pend s1 = pend s"
      using push_law [OF Cons.prems(1), of m] Cons.prems(2) by (auto simp: Push ok_conv)
    note IH = Cons.IH [OF s1(2), unfolded s1(3)]
    show ?thesis
    proof (cases "pend s1 = pend s")
      case True
      then show ?thesis using IH Cons.prems(2) s1(1) by (simp add: Push)
    next
      case False
      then show ?thesis using IH Cons.prems(2) s1(1,4) by (simp add: Push)
    qed
  next
    case Flush
    obtain s1 where s1: "flush s = Some s1" "inv s1" "prefix (sent_of s) (sent_of s1)"
      "sent_of s1 @ pend s1 = sent_of s @ pend s"
      using flush_law [OF Cons.prems(1)] by (auto simp: ok_conv)
    show ?thesis
      unfolding Flush run_ops.simps s1(1) accepted.simps
      using Cons.IH [OF s1(2)] Cons.prems(2) s1(3,4) Flush
      by simp (erule ok_weaken, metis (no_types, lifting) append.assoc prefix_order.trans)
  qed
qed

lemma run_ops_delivers:
  assumes "inv s" "\<forall>m \<in> set (pushed ops). wf m"
  shows "ok (run_ops push flush ops s) (\<lambda>s'. inv s' \<and> prefix (sent_of s) (sent_of s') \<and>
     (\<exists>ms. subseq ms (pushed ops) \<and>
        sent_of s' @ pend s' = sent_of s @ pend s @ concat (map enc ms)))"
  by (rule ok_weaken [OF run_ops_accepted [OF assms]])
     (elim conjE, intro conjI exI, assumption+, rule accepted_pushed, assumption)

end

text \<open>
  A channel with a known capacity: while \<open>able\<close> holds, a push that fits is not refused. Then
  messages that fit together are all accepted, wherever the flushes fall.
\<close>

locale bounded_channel = fifo_channel inv sent_of pend enc wf push flush
  for inv :: "'s \<Rightarrow> bool" and sent_of :: "'s \<Rightarrow> 'b list" and pend :: "'s \<Rightarrow> 'b list"
    and enc :: "'m \<Rightarrow> 'b list" and wf :: "'m \<Rightarrow> bool" and push :: "'m \<Rightarrow> 's \<Rightarrow> 's option"
    and flush :: "'s \<Rightarrow> 's option" +
  fixes able :: "'s \<Rightarrow> bool" and limit :: nat
  assumes push_able: "inv s \<Longrightarrow> wf m \<Longrightarrow> able s \<Longrightarrow> length (pend s) + length (enc m) \<le> limit \<Longrightarrow>
            ok (push m s) (\<lambda>s'. able s' \<and> pend s' = pend s @ enc m)"
    and flush_able: "inv s \<Longrightarrow> able s \<Longrightarrow> ok (flush s) able"
    and enc_nonempty: "enc m \<noteq> []"
begin

lemma accepted_all:
  "inv s \<Longrightarrow> able s \<Longrightarrow> \<forall>m \<in> set (pushed ops). wf m \<Longrightarrow>
     length (pend s) + length (concat (map enc (pushed ops))) \<le> limit \<Longrightarrow>
     accepted pend push flush ops s = pushed ops"
proof (induction ops arbitrary: s)
  case (Cons a ops)
  show ?case
  proof (cases a)
    case (Push m)
    obtain s1 where s1: "push m s = Some s1" "inv s1" "able s1" "pend s1 = pend s @ enc m"
      using push_law [OF Cons.prems(1), of m] push_able [OF Cons.prems(1), of m] Cons.prems(2-4)
      by (auto simp: Push ok_conv)
    then show ?thesis
      using Cons.IH [OF s1(2,3)] Cons.prems(3,4) enc_nonempty [of m] by (simp add: Push)
  next
    case Flush
    obtain s1 where s1: "flush s = Some s1" "inv s1" "able s1" "prefix (sent_of s) (sent_of s1)"
      "sent_of s1 @ pend s1 = sent_of s @ pend s"
      using flush_law [OF Cons.prems(1)] flush_able [OF Cons.prems(1,2)] by (auto simp: ok_conv)
    have "length (pend s1) \<le> length (pend s)"
      using prefix_length_le [OF s1(4)] arg_cong [OF s1(5), of length] by simp
    then show ?thesis
      using Cons.IH [OF s1(2,3)] Cons.prems(3,4) s1(1) by (simp add: Flush)
  qed
qed simp

end

section \<open>The server's queue as a channel\<close>

text \<open>
  The part of the loop body of \<open>broadcast\<close> that builds a packet and puts it on a client's queue
  (src/server/broadcast.c): the packet's address, or NULL when it could not be built; a packet the
  queue refuses is freed.
\<close>

definition broadcast_enqueue ::
  "ptr \<Rightarrow> msg_header \<Rightarrow> byte list \<Rightarrow> nat \<Rightarrow> server \<Rightarrow> (ptr \<times> server) option" where
  "broadcast_enqueue c out_header msg n w = do {
     (p, w1) \<leftarrow> create_packet out_header msg n w;
     if p = NULL then Some (NULL, w1)
     else do {
       (r, w2) \<leftarrow> client_enqueue_msg_packet c p MSG_SIZE_LIMIT w1;
       if r = -1 then do { w3 \<leftarrow> free_packet p w2; Some (p, w3) }
       else Some (p, w2)
     }
   }"

definition heap_fresh :: "server \<Rightarrow> bool" where
  "heap_fresh w \<longleftrightarrow> brk w \<noteq> NULL \<and> (\<forall>a \<ge> brk w. packets w a = None \<and> clients w a = None)"

definition chan_inv :: "ptr \<Rightarrow> server \<Rightarrow> bool" where
  "chan_inv c w \<longleftrightarrow> heap_fresh w \<and>
     (case clients w c of None \<Rightarrow> False
      | Some ci \<Rightarrow> queue_rep (packets w) (msg_queue ci) (queue_cells w ci) \<and>
                  opened w (client_fd ci))"

definition chan_sent :: "ptr \<Rightarrow> server \<Rightarrow> byte list" where
  "chan_sent c w = (case clients w c of None \<Rightarrow> [] | Some ci \<Rightarrow> sent w (client_fd ci))"

definition chan_pending :: "ptr \<Rightarrow> server \<Rightarrow> byte list" where
  "chan_pending c w =
     (case clients w c of None \<Rightarrow> [] | Some ci \<Rightarrow> pending (packets w) (queue_cells w ci))"

lemma cells_below_brk:
  "heap_fresh w \<Longrightarrow> queue_rep (packets w) q ps \<Longrightarrow> p \<in> set ps \<Longrightarrow> p < brk w"
  using queue_rep_alive unfolding heap_fresh_def by (metis not_le option.distinct(1))

text \<open>
  What \<open>broadcast_enqueue\<close> does to the server: either the packet is at the end of the queue, and
  then \<open>p\<close> is its address, or the queue is as before and the packet is gone.
\<close>

lemma broadcast_enqueue_spec:
  assumes c: "clients w c = Some ci" and q: "queue_rep (packets w) (msg_queue ci) ps"
    and fresh: "heap_fresh w" and n: "n \<le> length msg" "n < 2 ^ 62"
  shows "ok (broadcast_enqueue c h msg n w) (\<lambda>(p, w').
     touches c (client_fd ci) w w' \<and> heap_fresh w' \<and> sent w' = sent w \<and> interest w' = interest w \<and>
     (\<forall>a. a \<noteq> p \<longrightarrow> a \<notin> set ps \<longrightarrow> packets w' a = packets w a) \<and> (p \<noteq> NULL \<longrightarrow> p = brk w) \<and>
     (if p \<noteq> NULL \<and> closed ci \<noteq> 1 \<and>
         length (pending (packets w) ps) + HEADER_SIZE + n \<le> MSG_SIZE_LIMIT
      then \<exists>ci'. clients w' c = Some ci' \<and> ci' = ci\<lparr>msg_queue := msg_queue ci'\<rparr> \<and>
             queue_rep (packets w') (msg_queue ci') (ps @ [p]) \<and>
             live_bufs w' = live_bufs w + 1 \<and>
             pending (packets w') (ps @ [p])
               = pending (packets w) ps @ header_image h @ take n msg
      else clients w' c = Some ci \<and> packets w' = packets w \<and> live_bufs w' = live_bufs w) \<and>
     (memory_available w \<longrightarrow> p \<noteq> NULL))"
proof -
  have b: "brk w \<noteq> NULL" using fresh by (simp add: heap_fresh_def)
  obtain p w1 ms where cp: "create_packet h msg n w = Some (p, w1)" and ms: "set ms \<subseteq> set (mallocs w)"
    and w1: "if p = NULL then w1 = w\<lparr>mallocs := ms\<rparr> \<and> \<not> memory_available w
      else p = brk w \<and>
        w1 = w\<lparr>mallocs := ms, brk := brk w + 16, live_bufs := live_bufs w + 1,
               packets := (packets w)(p \<mapsto> new_packet h (take n msg))\<rparr>"
    using create_packet_spec [OF n b, of h] by (fastforce simp: ok_conv)
  show ?thesis
  proof (cases "p = NULL")
    case True
    then show ?thesis
      using w1 ms c fresh by (simp add: broadcast_enqueue_def cp touches_def heap_fresh_def)
  next
    case False
    then have p: "p = brk w"
      and w1: "w1 = w\<lparr>mallocs := ms, brk := brk w + 16, live_bufs := live_bufs w + 1,
               packets := (packets w)(p \<mapsto> new_packet h (take n msg))\<rparr>"
      using w1 by simp_all
    have pn: "p \<notin> set ps" using cells_below_brk [OF fresh q] p by blast
    have c1: "clients w1 c = Some ci" using c w1 by simp
    have q1: "queue_rep (packets w1) (msg_queue ci) ps"
      using q pn w1 by (subst queue_rep_frame [of ps _ "packets w"]) auto
    have pend1: "pending (packets w1) ps = pending (packets w) ps"
      using pn w1 by (intro pending_frame) auto
    have k1: "packets w1 p = Some (new_packet h (take n msg))" using w1 by simp
    have pw: "packets w p = None" using p fresh by (simp add: heap_fresh_def)
    have cb: "c < brk w" using c fresh by (metis heap_fresh_def not_le option.distinct(1))
    note enq = enqueue_spec [OF c1 q1 pn False k1]
    show ?thesis
    proof (cases "closed ci \<noteq> 1 \<and> length (pending (packets w) ps) + HEADER_SIZE + n \<le> MSG_SIZE_LIMIT")
      case True
      then obtain w2 ci' where e: "client_enqueue_msg_packet c p MSG_SIZE_LIMIT w1 = Some (0, w2)"
        "enqueued c ci ps p (new_packet h (take n msg)) w1 ci' w2"
        using enq n pend1 by (auto simp: ok_conv HEADER_SIZE_def)
      then have w2: "w2 = w1\<lparr>clients := (clients w1)(c \<mapsto> ci'), packets := packets w2\<rparr>"
        "\<forall>a. a \<notin> set ps \<longrightarrow> packets w2 a = packets w1 a"
        by (auto simp: enqueued_def)
      have sel: "touches c (client_fd ci) w w2" "sent w2 = sent w" "interest w2 = interest w"
        "brk w2 = brk w + 16" "clients w2 = (clients w)(c \<mapsto> ci')" "live_bufs w2 = live_bufs w + 1"
        by (subst w2(1), simp add: w1 touches_def ms)+
      have "packets w2 a = None \<and> clients w2 a = None" if "brk w + 16 \<le> a" for a
      proof -
        have "a \<notin> set ps" "a \<noteq> p" "a \<noteq> c" "brk w \<le> a"
          using that cells_below_brk [OF fresh q, of a] cb p by auto
        then show ?thesis using w2(2) w1 sel(5) fresh by (simp add: heap_fresh_def)
      qed
      then have "heap_fresh w2" by (simp add: heap_fresh_def sel(4))
      then show ?thesis
        using e sel w2(2) True False p w1 pend1 n
        by (auto simp: broadcast_enqueue_def cp enqueued_def)
    next
      case rej: False
      let ?w3 = "(free_buf (Some (header_image h @ take n msg)) w1)\<lparr>packets := (packets w1)(p := None)\<rparr>"
      have e: "client_enqueue_msg_packet c p MSG_SIZE_LIMIT w1 = Some (-1, w1)"
        using rej enq n pend1 by (auto simp: ok_conv HEADER_SIZE_def split: if_splits)
      have "free_packet p w1 = Some ?w3" using k1 by (simp add: free_packet_def)
      then have be: "broadcast_enqueue c h msg n w = Some (p, ?w3)"
        using False e by (simp add: broadcast_enqueue_def cp)
      have sel: "packets ?w3 = packets w" "clients ?w3 = clients w" "live_bufs ?w3 = live_bufs w"
        "touches c (client_fd ci) w ?w3" "sent ?w3 = sent w" "interest ?w3 = interest w" "brk ?w3 = brk w + 16"
        using pw ms by (simp_all add: w1 free_buf_def touches_def fun_upd_idem)
      have "heap_fresh ?w3" using fresh sel by (simp add: heap_fresh_def)
      then show ?thesis
        using be sel rej False p c by simp
    qed
  qed
qed


lemma flushed_heap_fresh:
  assumes "heap_fresh w" "clients w c = Some ci" "queue_rep (packets w) (msg_queue ci) ps"
    "flushed c ci ps w ci' ps' w'"
  shows "heap_fresh w'"
proof -
  have t: "touches c (client_fd ci) w w'" "\<forall>a. a \<notin> set ps \<longrightarrow> packets w' a = packets w a"
    using assms(4) by (auto simp: flushed_def)
  have b: "brk w \<le> brk w'" "\<forall>a. a \<noteq> c \<longrightarrow> clients w' a = clients w a"
    using t(1) by (auto simp: touches_def)
  have c: "c < brk w" using assms(1,2) by (metis heap_fresh_def not_le option.distinct(1))
  have "packets w' a = None \<and> clients w' a = None" if "brk w' \<le> a" for a
  proof -
    have "brk w \<le> a" "a \<noteq> c" using that b(1) c by auto
    moreover have "a \<notin> set ps" using cells_below_brk [OF assms(1,3), of a] \<open>brk w \<le> a\<close> by auto
    ultimately show ?thesis using t(2) b(2) assms(1) by (simp add: heap_fresh_def)
  qed
  then show ?thesis using assms(1) b(1) by (simp add: heap_fresh_def)
qed

definition queue_push :: "ptr \<Rightarrow> byte list \<Rightarrow> server \<Rightarrow> server option" where
  "queue_push c p w =
     map_option snd (broadcast_enqueue c (mk_header (length p) MSG_TYPE_NORMAL True) p (length p) w)"

definition queue_flush :: "ptr \<Rightarrow> server \<Rightarrow> server option" where
  "queue_flush c w = map_option snd (client_try_write c w)"

definition normal_frame :: "byte list \<Rightarrow> byte list" where
  "normal_frame p = wire (p, MSG_TYPE_NORMAL, True)"

definition sendable :: "byte list \<Rightarrow> bool" where
  "sendable p \<longleftrightarrow> length p < 2 ^ 32"

lemma ok_map_snd: "ok (map_option snd m) Q = ok m (\<lambda>x. Q (snd x))"
  by (cases m) simp_all

lemma chan_inv_rep:
  assumes "clients w c = Some ci" "queue_rep (packets w) (msg_queue ci) ps"
  shows "chan_sent c w = sent w (client_fd ci)" "chan_pending c w = pending (packets w) ps"
    "chan_inv c w \<longleftrightarrow> heap_fresh w \<and> opened w (client_fd ci)"
  using assms queue_rep_cells [OF assms(2)]
  by (simp_all add: chan_sent_def chan_pending_def chan_inv_def)

lemma queue_push_law:
  assumes "chan_inv c w" "sendable p"
  shows "ok (queue_push c p w) (\<lambda>w'. chan_inv c w' \<and> chan_sent c w' = chan_sent c w \<and>
     (chan_pending c w' = chan_pending c w @ normal_frame p \<or> chan_pending c w' = chan_pending c w))"
proof -
  obtain ci ps where c: "clients w c = Some ci" "queue_rep (packets w) (msg_queue ci) ps"
    and inv: "heap_fresh w" "opened w (client_fd ci)"
    using assms(1) by (auto simp: chan_inv_def split: option.splits)
  note base = chan_inv_rep [OF c]
  show ?thesis
    unfolding queue_push_def ok_map_snd
  proof (rule ok_weaken [OF broadcast_enqueue_spec [OF c inv(1) order_refl]], goal_cases)
    case 1
    then show ?case using assms(2) by (simp add: sendable_def)
  next
    case (2 x)
    obtain p' w' where x: "x = (p', w')" by fastforce
    have t: "opened w' = opened w" "sent w' = sent w" "heap_fresh w'"
      using 2 by (auto simp: x touches_def)
    show ?case
    proof (cases "p' \<noteq> NULL \<and> closed ci \<noteq> 1 \<and>
         length (pending (packets w) ps) + HEADER_SIZE + length p \<le> MSG_SIZE_LIMIT")
      case True
      then obtain ci' where ci': "clients w' c = Some ci'" "ci' = ci\<lparr>msg_queue := msg_queue ci'\<rparr>"
        "queue_rep (packets w') (msg_queue ci') (ps @ [p'])"
        "pending (packets w') (ps @ [p']) = pending (packets w) ps @ normal_frame p"
        using 2 by (auto simp: x normal_frame_def wire_def)
      have "client_fd ci' = client_fd ci" by (subst ci'(2)) simp
      then show ?thesis
        using t inv ci'(4) unfolding x by (simp add: chan_inv_rep [OF ci'(1,3)] base)
    next
      case False
      then have same: "clients w' c = Some ci" "packets w' = packets w"
        using 2 by (auto simp: x)
      then have "queue_rep (packets w') (msg_queue ci) ps" using c(2) by simp
      from chan_inv_rep [OF same(1) this] show ?thesis
        using t inv same unfolding x by (simp add: base)
    qed
  qed
qed

lemma queue_flush_law:
  assumes "chan_inv c w"
  shows "ok (queue_flush c w) (\<lambda>w'. chan_inv c w' \<and>
     chan_sent c w' @ chan_pending c w' = chan_sent c w @ chan_pending c w \<and>
     prefix (chan_sent c w) (chan_sent c w'))"
proof -
  obtain ci ps where c: "clients w c = Some ci" "queue_rep (packets w) (msg_queue ci) ps"
    and inv: "heap_fresh w" "opened w (client_fd ci)"
    using assms by (auto simp: chan_inv_def split: option.splits)
  note base = chan_inv_rep [OF c]
  show ?thesis
    unfolding queue_flush_def ok_map_snd
  proof (rule ok_weaken [OF try_write_spec [OF c inv(2)]], clarify)
    fix r w' ci' ps'
    assume f: "flushed c ci ps w ci' ps' w'"
    then have c': "clients w' c = Some ci'" "queue_rep (packets w') (msg_queue ci') ps'"
      and t: "touches c (client_fd ci) w w'"
      by (auto simp: flushed_def)
    have "heap_fresh w'" by (rule flushed_heap_fresh [OF inv(1) c f])
    then show "chan_inv c (snd (r, w')) \<and>
       chan_sent c (snd (r, w')) @ chan_pending c (snd (r, w')) = chan_sent c w @ chan_pending c w \<and>
       prefix (chan_sent c w) (chan_sent c (snd (r, w')))"
      using f t inv flushed_fd [OF f]
      by (simp add: chan_inv_rep [OF c'] base) (auto simp: flushed_def touches_def)
  qed
qed

interpretation chat_queue: fifo_channel "chan_inv c" "chan_sent c" "chan_pending c"
    normal_frame sendable "queue_push c" "queue_flush c" for c
  by unfold_locales (simp_all add: queue_push_law queue_flush_law)

text \<open>A client takes messages in while allocations succeed and it is not marked closed.\<close>

definition chan_able :: "ptr \<Rightarrow> server \<Rightarrow> bool" where
  "chan_able c w \<longleftrightarrow> memory_available w \<and>
     (case clients w c of None \<Rightarrow> False | Some ci \<Rightarrow> closed ci \<noteq> 1)"

lemma touches_memory: "touches c d w w' \<Longrightarrow> memory_available w \<Longrightarrow> memory_available w'"
  by (auto simp: touches_def memory_available_def)

lemma queue_push_able:
  assumes "chan_inv c w" "sendable p" "chan_able c w"
    "length (chan_pending c w) + length (normal_frame p) \<le> MSG_SIZE_LIMIT"
  shows "ok (queue_push c p w) (\<lambda>w'. chan_able c w' \<and> chan_pending c w' = chan_pending c w @ normal_frame p)"
proof -
  obtain ci ps where c: "clients w c = Some ci" "queue_rep (packets w) (msg_queue ci) ps"
    and inv: "heap_fresh w"
    using assms(1) by (auto simp: chan_inv_def split: option.splits)
  note base = chan_inv_rep [OF c]
  have able: "memory_available w" "closed ci \<noteq> 1" using assms(3) c(1) by (simp_all add: chan_able_def)
  show ?thesis
    unfolding queue_push_def ok_map_snd
  proof (rule ok_weaken [OF broadcast_enqueue_spec [OF c inv order_refl]], goal_cases)
    case 1
    then show ?case using assms(2) by (simp add: sendable_def)
  next
    case (2 x)
    obtain p' w' where x: "x = (p', w')" by fastforce
    have fits: "p' \<noteq> NULL \<and> closed ci \<noteq> 1 \<and>
         length (pending (packets w) ps) + HEADER_SIZE + length p \<le> MSG_SIZE_LIMIT"
      using 2 able assms(4) by (simp add: x base normal_frame_def wire_def)
    then obtain ci' where ci': "clients w' c = Some ci'" "ci' = ci\<lparr>msg_queue := msg_queue ci'\<rparr>"
      "queue_rep (packets w') (msg_queue ci') (ps @ [p'])"
      "pending (packets w') (ps @ [p']) = pending (packets w) ps @ normal_frame p"
      using 2 by (auto simp: x normal_frame_def wire_def)
    have "closed ci' \<noteq> 1" by (subst ci'(2)) (simp add: able)
    moreover have "memory_available w'" using 2 touches_memory able(1) by (auto simp: x)
    ultimately show ?case
      using ci' by (simp add: x chan_able_def chan_inv_rep [OF ci'(1,3)] base)
  qed
qed

lemma queue_flush_able:
  assumes "chan_inv c w" "chan_able c w"
  shows "ok (queue_flush c w) (chan_able c)"
proof -
  obtain ci ps where c: "clients w c = Some ci" "queue_rep (packets w) (msg_queue ci) ps"
    and inv: "opened w (client_fd ci)"
    using assms by (auto simp: chan_inv_def split: option.splits)
  show ?thesis
    unfolding queue_flush_def ok_map_snd
  proof (rule ok_weaken [OF try_write_spec [OF c inv]], clarify)
    fix r w' ci' ps'
    assume "flushed c ci ps w ci' ps' w'"
    then have f: "clients w' c = Some ci'" "touches c (client_fd ci) w w'"
      "ci' = ci\<lparr>msg_queue := msg_queue ci', epollout_enabled := epollout_enabled ci'\<rparr>"
      by (simp_all add: flushed_def)
    have "closed ci' = closed ci" by (subst f(3)) simp
    then show "chan_able c (snd (r, w'))"
      using f(1) touches_memory [OF f(2)] assms(2) c(1) by (simp add: chan_able_def)
  qed
qed

interpretation chat_bounded: bounded_channel "chan_inv c" "chan_sent c" "chan_pending c"
    normal_frame sendable "queue_push c" "queue_flush c" "chan_able c" MSG_SIZE_LIMIT for c
proof (unfold_locales, goal_cases)
  case (1 s m)
  then show ?case by (rule queue_push_able)
next
  case (2 s)
  then show ?case by (rule queue_flush_able)
next
  case (3 m)
  then show ?case by (simp add: normal_frame_def wire_def)
qed

section \<open>Properties of a client's channel\<close>

text \<open>
  Claim C14. The outgoing queue keeps the framing. Whatever the interleaving of enqueue attempts and
  flushes, whatever the socket accepts at each write, and whatever allocations fail, the operations
  end without a memory fault, never take back a transmitted byte, and what is transmitted
  and queued afterwards is what was there before followed by whole frames: those of a
  subsequence, in order, of the messages offered.
\<close>

theorem queue_keeps_framing:
  assumes "chan_inv c w" "\<forall>p \<in> set (pushed ops). sendable p"
  shows "ok (run_ops (queue_push c) (queue_flush c) ops w) (\<lambda>w'. chan_inv c w' \<and>
     prefix (chan_sent c w) (chan_sent c w') \<and>
     (\<exists>ms. subseq ms (pushed ops) \<and>
        chan_sent c w' @ chan_pending c w' =
        chan_sent c w @ chan_pending c w @ concat (map normal_frame ms)))"
  using assms by (rule chat_queue.run_ops_delivers)

text \<open>A server with one named client and a socket that accepts seven bytes and then blocks.\<close>

definition one_client :: server where
  "one_client = (set_client 16 (plain_client 7 [66] []) server0)\<lparr>brk := 32,
     client_list := (\<lambda>_. NULL)(0 := 16), client_count := 1, opened := (\<lambda>d. d = 7),
     outq := (\<lambda>d. if d = 7 then [WrAccept 7] else [])\<rparr>"

lemma plain_client_sel [simp]:
  "client_fd (plain_client d nm msg) = d"
  "msg_queue (plain_client d nm msg) = \<lparr>head = NULL, tail = NULL, queued_bytes = 0, queued_count = 0\<rparr>"
  "closed (plain_client d nm msg) = 0" "epollout_enabled (plain_client d nm msg) = 0"
  "name (plain_client d nm msg) = nm @ replicate (NAME_MAX - length nm) 0"
  "name_len (plain_client d nm msg) = length nm" "has_name (plain_client d nm msg) = 1"
  "partial_msg (plain_client d nm msg) = Some (msg @ replicate (BUF_SIZE - length msg) 0)"
  "partial_len (plain_client d nm msg) = length msg" "partial_cap (plain_client d nm msg) = BUF_SIZE"
  "state (plain_client d nm msg) = READ_HEADER" "header_bytes_read (plain_client d nm msg) = 0"
  by (simp_all add: plain_client_def fresh_client_def)

lemma server0_sel [simp]:
  "clients server0 = (\<lambda>_. None)" "packets server0 = (\<lambda>_. None)" "brk server0 = 16"
  "sent server0 = (\<lambda>_. [])" "mallocs server0 = []" "junk server0 = (\<lambda>_. 0)"
  "interest server0 = (\<lambda>_. None)" "inq server0 = (\<lambda>_. [])" "outq server0 = (\<lambda>_. [])"
  "server_fd server0 = 4" "epoll_fd server0 = 3" "client_count server0 = 0"
  "client_mutex server0 = False" "server_shutdown server0 = 0" "opened server0 = (\<lambda>_. False)"
  "client_list server0 = (\<lambda>_. NULL)" "live_bufs server0 = 0" "clock server0 = []"
  "epctls server0 = []" "closes server0 = []" "fcntls server0 = []" "accepts server0 = []"
  by (simp_all add: server0_def os0_def os.defs)

lemma one_client_chan: "chan_inv 16 one_client" "chan_sent 16 one_client = []"
  "chan_pending 16 one_client = []"
  by (auto simp: chan_inv_def one_client_def heap_fresh_def queue_rep_def queue_cells_def
      chan_sent_def chan_pending_def)

theorem queue_keeps_framing_witness:
  "ok (run_ops (queue_push 16) (queue_flush 16) [Push [72, 105], Flush, Push [79], Flush] one_client)
     (\<lambda>w'. \<exists>ms. subseq ms [[72, 105], [79]] \<and>
        chan_sent 16 w' @ chan_pending 16 w' = concat (map normal_frame ms))"
  using queue_keeps_framing [of 16 one_client "[Push [72, 105], Flush, Push [79], Flush]"]
  by (simp add: one_client_chan sendable_def ok_conv) blast

text \<open>
  Claim C15. What the peer sees. On a connection that starts empty, the bytes transmitted at any
  moment decode to a prefix of the messages the queue accepted, in that order, and to all of them
  when nothing is pending any more; an accepted message is never lost, reordered or torn. The
  accepted messages are those whose push changed the pending bytes, and they are all the messages
  offered when allocations succeed, the client is not marked closed and the frames fit into the
  queue's limit together.
\<close>

theorem peer_decodes_prefix:
  assumes "chan_inv c w" "\<forall>p \<in> set (pushed ops). sendable p"
    and "chan_sent c w = []" "chan_pending c w = []"
    and "ms = accepted (chan_pending c) (queue_push c) (queue_flush c) ops w"
  shows "ok (run_ops (queue_push c) (queue_flush c) ops w) (\<lambda>w'.
       chan_sent c w' @ chan_pending c w' = concat (map normal_frame ms) \<and>
       prefix (fst (decode_stream (chan_sent c w'))) (map (\<lambda>p. (p, MSG_TYPE_NORMAL, True)) ms) \<and>
       (chan_pending c w' = [] \<longrightarrow>
          decode_stream (chan_sent c w') = (map (\<lambda>p. (p, MSG_TYPE_NORMAL, True)) ms, []))) \<and>
     subseq ms (pushed ops) \<and>
     (chan_able c w \<longrightarrow> length (concat (map normal_frame (pushed ops))) \<le> MSG_SIZE_LIMIT \<longrightarrow> ms = pushed ops)"
proof -
  let ?ms = "map (\<lambda>p. (p, MSG_TYPE_NORMAL, True)) ms"
  have sub: "subseq ms (pushed ops)" unfolding assms(5) by (rule accepted_pushed)
  have all: "ms = pushed ops"
    if "chan_able c w" "length (concat (map normal_frame (pushed ops))) \<le> MSG_SIZE_LIMIT"
    unfolding assms(5) using chat_bounded.accepted_all [OF assms(1) that(1) assms(2)] that(2) assms(4) by simp
  have wf: "\<forall>m \<in> set ?ms. wf_msg m"
    using assms(2) sub by (auto simp: wf_msg_def sendable_def dest: subseq_set)
  have "ok (run_ops (queue_push c) (queue_flush c) ops w) (\<lambda>w'.
       chan_sent c w' @ chan_pending c w' = concat (map normal_frame ms) \<and>
       prefix (fst (decode_stream (chan_sent c w'))) ?ms \<and>
       (chan_pending c w' = [] \<longrightarrow> decode_stream (chan_sent c w') = (?ms, [])))"
  proof (rule ok_weaken [OF chat_queue.run_ops_accepted [OF assms(1,2)]], elim conjE)
    fix w'
    assume "chan_sent c w' @ chan_pending c w' = chan_sent c w @ chan_pending c w
        @ concat (map normal_frame (accepted (chan_pending c) (queue_push c) (queue_flush c) ops w))"
    then have str: "chan_sent c w' @ chan_pending c w' = concat (map normal_frame ms)"
      using assms(3-5) by simp
    then have str': "chan_sent c w' @ chan_pending c w' = concat (map wire ?ms)"
      by (simp add: normal_frame_def [abs_def] comp_def)
    have "prefix (fst (decode_stream (chan_sent c w'))) ?ms"
      by (rule frames.decs_prefix [OF wf]) (metis str' prefixI)
    moreover have "decode_stream (chan_sent c w') = (?ms, [])" if "chan_pending c w' = []"
      using frames.decs_all [OF wf, of "[]"] str' that by (simp add: frames.dec_Nil)
    ultimately show "chan_sent c w' @ chan_pending c w' = concat (map normal_frame ms) \<and>
       prefix (fst (decode_stream (chan_sent c w'))) ?ms \<and>
       (chan_pending c w' = [] \<longrightarrow> decode_stream (chan_sent c w') = (?ms, []))"
      using str by blast
  qed
  then show ?thesis using sub all by blast
qed

theorem peer_decodes_prefix_witness:
  "ok (run_ops (queue_push 16) (queue_flush 16) [Push [72, 105], Flush, Push [79], Flush] one_client)
     (\<lambda>w'. chan_sent 16 w' @ chan_pending 16 w' = concat (map normal_frame [[72, 105], [79]]) \<and>
        prefix (fst (decode_stream (chan_sent 16 w')))
          [([72, 105], MSG_TYPE_NORMAL, True), ([79], MSG_TYPE_NORMAL, True)])"
proof -
  let ?ops = "[Push [72, 105], Flush, Push [79], Flush]"
  have s: "\<forall>p \<in> set (pushed ?ops). sendable p" by (simp add: sendable_def)
  have able: "chan_able 16 one_client"
    by (simp add: chan_able_def one_client_def memory_available_def)
  note P = peer_decodes_prefix [OF one_client_chan(1) s one_client_chan(2,3) refl]
  have "accepted (chan_pending 16) (queue_push 16) (queue_flush 16) ?ops one_client = [[72, 105], [79]]"
    using P able by (simp add: normal_frame_def wire_def HEADER_SIZE_def MSG_SIZE_LIMIT_def)
  then show ?thesis using conjunct1 [OF P] by (simp add: ok_conv) blast
qed

lemma pour_drains:
  "\<forall>e \<in> set ws. \<exists>n > 0. e = WrAccept n \<Longrightarrow> length (concat ps) \<le> length ws \<Longrightarrow> [] \<notin> set ps \<Longrightarrow>
     \<exists>vs. pour ps ws = (0, concat ps, [], vs)"
proof (induction ps ws rule: pour.induct)
  case (4 p ps n ws)
  let ?qs = "if length p \<le> n then ps else drop n p # ps"
  have n: "n > 0" and p: "p \<noteq> []" using "4.prems"(1,3) by auto
  have split: "concat (p # ps) = take n p @ concat ?qs" by (cases "length p \<le> n") auto
  have "0 < length (take n p)" using n p by simp
  moreover have "length (concat (p # ps)) = length (take n p) + length (concat ?qs)" by (simp only: split length_append)
  moreover have "length (concat (p # ps)) \<le> Suc (length ws)" using "4.prems"(2) by (simp only: list.size add_0_right add_Suc_right)
  ultimately have "length (concat ?qs) \<le> length ws" by linarith
  moreover have "[] \<notin> set ?qs" using "4.prems"(3) by auto
  ultimately obtain vs where "pour ?qs ws = (0, concat ?qs, [], vs)" using "4.IH" n "4.prems"(1) by auto
  then show ?case using n split by simp
qed auto

text \<open>
  Claim C9. The flush is pouring the queued texts into the socket. On the linked list the non-blocking write
  computes what \<open>pour\<close> computes on the list of the texts it holds: the return code, the bytes
  transmitted, the texts left and the writes used up; packets sent whole are freed. So a socket
  that takes at least one byte at each of as many writes as there are bytes empties the queue.
\<close>

theorem flush_is_pour:
  assumes "chan_inv c w" "clients w c = Some ci" "ps = queue_cells w ci" "d = client_fd ci"
  shows "ok (client_try_write c w) (\<lambda>(r, w'). chan_inv c w' \<and> (\<exists>ci' s. clients w' c = Some ci' \<and> client_fd ci' = d \<and>
     pour (texts w ps) (outq w d) = (r, s, texts w' (queue_cells w' ci'), outq w' d) \<and>
     sent w' d = sent w d @ s \<and>
     (\<forall>p \<in> set ps - set (queue_cells w' ci'). packets w' p = None) \<and>
     ((\<forall>e \<in> set (outq w d). \<exists>n > 0. e = WrAccept n) \<longrightarrow> length (chan_pending c w) \<le> length (outq w d) \<longrightarrow>
        r = 0 \<and> s = chan_pending c w \<and> queue_cells w' ci' = [])))"
proof -
  have q: "queue_rep (packets w) (msg_queue ci) ps" "opened w (client_fd ci)" and hf: "heap_fresh w"
    using assms(1) unfolding chan_inv_def assms(2) option.case by (simp_all add: assms(3))
  show ?thesis
  proof (rule ok_weaken [OF try_write_spec [OF assms(2) q]], goal_cases)
    case (1 x)
    then obtain r w' ci' ps' where x: "x = (r, w')" and fl: "flushed c ci ps w ci' ps' w'"
      and po: "poured d ps w r ps' w'"
      using assms(4) by auto
    have ci': "clients w' c = Some ci'" "queue_rep (packets w') (msg_queue ci') ps'" "client_fd ci' = d"
      using fl flushed_fd [OF fl] assms(4) by (simp_all add: flushed_def)
    have cells: "queue_cells w' ci' = ps'" using ci'(2) by (rule queue_rep_cells)
    have gone: "\<forall>p \<in> set ps - set ps'. packets w' p = None" using fl by (auto simp: flushed_def)
    have "opened w' d" using fl q(2) assms(4) by (simp add: flushed_def touches_def)
    then have inv: "chan_inv c w'"
      using flushed_heap_fresh [OF hf assms(2) q(1) fl] ci' cells by (simp add: chan_inv_def)
    obtain s where s: "pour (texts w ps) (outq w d) = (r, s, texts w' ps', outq w' d)" "sent w' d = sent w d @ s"
      using po by (auto simp: poured_def)
    have pend: "concat (texts w ps) = chan_pending c w" using assms(2,3) by (simp add: texts_pending chan_pending_def)
    have "[] \<noteq> rest_of (cell (packets w) p)" if "p \<in> set ps" for p
      using q(1) that by (auto simp: queue_rep_def pkt_wf_def rest_of_def)
    then have "[] \<notin> set (texts w ps)" by (auto simp: texts_def)
    then have "r = 0 \<and> s = chan_pending c w \<and> ps' = []"
      if takes: "\<forall>e \<in> set (outq w d). \<exists>n > 0. e = WrAccept n" "length (chan_pending c w) \<le> length (outq w d)"
    proof -
      obtain vs where "pour (texts w ps) (outq w d) = (0, chan_pending c w, [], vs)"
        using pour_drains [OF takes(1) _ \<open>[] \<notin> set (texts w ps)\<close>] takes(2) unfolding pend by blast
      then show ?thesis using s(1) by (simp add: texts_def)
    qed
    then show ?case using x inv ci' cells gone s by auto
  qed
qed

definition one_queued :: server where
  "one_queued = one_client\<lparr>packets := [32 \<mapsto> \<lparr>next_pkt = NULL, packet_data = [72, 105, 33], len = 3, offset = 1\<rparr>],
     clients := [16 \<mapsto> (plain_client 7 [66] [])\<lparr>msg_queue := \<lparr>head = 32, tail = 32, queued_bytes = 2, queued_count = 1\<rparr>\<rparr>],
     brk := 48, outq := (\<lambda>_. [WrAccept 1, WrErr EINTR, WrAccept 5, WrAccept 2])\<rparr>"

theorem flush_is_pour_witness:
  "ok (client_try_write 16 one_queued) (\<lambda>(r, w'). r = 0 \<and> sent w' 7 = [105, 33] \<and> outq w' 7 = [WrAccept 2] \<and>
     packets w' 32 = None)"
proof -
  let ?ci = "(plain_client 7 [66] [])\<lparr>msg_queue := \<lparr>head = 32, tail = 32, queued_bytes = 2, queued_count = 1\<rparr>\<rparr>"
  have cl: "clients one_queued 16 = Some ?ci" by (simp add: one_queued_def)
  have cells: "[32] = queue_cells one_queued ?ci"
    by (simp add: queue_cells_def one_queued_def numeral_eq_Suc)
  have inv: "chan_inv 16 one_queued"
    unfolding chan_inv_def cl option.case cells [symmetric]
    by (simp add: one_queued_def one_client_def heap_fresh_def queue_rep_def cell_def rest_of_def pkt_wf_def MSG_SIZE_LIMIT_def)
  have tx: "rest_of (cell (packets one_queued) 32) = [105, 33]" by (simp add: one_queued_def cell_def rest_of_def)
  have oq: "outq one_queued 7 = [WrAccept 1, WrErr EINTR, WrAccept 5, WrAccept 2]" "sent one_queued 7 = []"
    by (simp_all add: one_queued_def one_client_def)
  show ?thesis
    by (rule ok_weaken [OF flush_is_pour [OF inv cl cells refl]]) (auto simp: tx oq texts_def)
qed

end
