(* ===== verification/Chat_Utils.thy ===== *)
theory Chat_Utils
  imports Chat_Channel
begin

text \<open>
  The small helpers a received message passes through: the growing message buffer and the name of
  a client (src/server/client_utils.c), and the copy, case and clock helpers
  (src/common/utils.c).
\<close>

section \<open>The message buffer of a client\<close>

text \<open>The doubling loop; a capacity that has wrapped to zero would never reach the target.\<close>

partial_function (option) grow_cap :: "nat \<Rightarrow> nat \<Rightarrow> nat option" where
  "grow_cap needed cap = (if cap < needed then grow_cap needed (sz_mul cap 2) else Some cap)"

text \<open>
  \<open>memcpy\<close> through a pointer that is NULL has no outcome. When \<open>realloc\<close> fails the old block is
  lost: the pointer to it is overwritten.
\<close>

definition append_to_client_buffer :: "ptr \<Rightarrow> server \<Rightarrow> (int \<times> server) option" where
  "append_to_client_buffer c w = do {
     ci \<leftarrow> clients w c;
     let needed = sz_add (partial_len ci) (payload_bytes_read ci);
     (r, ci1, w1) \<leftarrow>
       (if partial_cap ci < needed then do {
          cap \<leftarrow> grow_cap needed (partial_cap ci);
          let (p, w1) = realloc_buf (partial_msg ci) cap w;
          Some (if p = None then -1 else 0, ci\<lparr>partial_cap := cap, partial_msg := p\<rparr>, w1)
        } else Some (0 :: int, ci, w));
     if r = -1 then Some (-1, set_client c ci1 w1)
     else do {
       buf \<leftarrow> partial_msg ci1;
       src \<leftarrow> slice (payload_buffer ci1) 0 (payload_bytes_read ci1);
       buf1 \<leftarrow> memcpy_at buf (partial_len ci1) src;
       Some (0, set_client c (ci1\<lparr>partial_msg := Some buf1,
                   partial_len := sz_add (partial_len ci1) (payload_bytes_read ci1)\<rparr>) w1)
     }
   }"

text \<open>\<open>memset\<close> comes before the test for NULL, so the test never succeeds.\<close>

definition clear_client_buffer :: "ptr \<Rightarrow> server \<Rightarrow> (int \<times> server) option" where
  "clear_client_buffer c w = do {
     ci \<leftarrow> clients w c;
     buf \<leftarrow> partial_msg ci;
     buf1 \<leftarrow> memcpy_at buf 0 (replicate (partial_len ci) 0);
     Some (0, set_client c (ci\<lparr>partial_msg := Some buf1, partial_len := 0,
                              partial_cap := BUF_SIZE\<rparr>) w)
   }"

definition store_client_name :: "ptr \<Rightarrow> server \<Rightarrow> (int \<times> server) option" where
  "store_client_name c w = do {
     ci \<leftarrow> clients w c;
     let n = (if NAME_MAX \<le> partial_len ci then NAME_MAX - 1 else partial_len ci);
     buf \<leftarrow> partial_msg ci;
     src \<leftarrow> slice buf 0 n;
     nm \<leftarrow> memcpy_at (name ci) 0 src;
     nm1 \<leftarrow> memcpy_at nm n [0];
     Some (0, set_client c (ci\<lparr>partial_len := n, name := nm1, name_len := n\<rparr>) w)
   }"

section \<open>Copy, case and clock\<close>

definition copy_buffer ::
  "byte list option \<Rightarrow> nat \<Rightarrow> 'a os_scheme \<Rightarrow> (byte list option \<times> 'a os_scheme) option" where
  "copy_buffer src n w =
     (case malloc_buf (sz_add n 1) w of
        (None, w1) \<Rightarrow> Some (None, w1)
      | (Some buf, w1) \<Rightarrow> do {
          s \<leftarrow> src;
          bs \<leftarrow> slice s 0 n;
          buf1 \<leftarrow> memcpy_at buf 0 bs;
          buf2 \<leftarrow> memcpy_at buf1 n [0];
          Some (Some buf2, w1)
        })"

text \<open>
  \<open>make_lowercase\<close> changes the bytes \<open>'A'\<close> to \<open>'Z'\<close>, which are the same as signed and as
  unsigned characters; \<open>size\<close> bytes must be there.
\<close>

definition lower_byte :: "byte \<Rightarrow> byte" where
  "lower_byte b = (if 65 \<le> b \<and> b \<le> 90 then b + 32 else b)"

definition make_lowercase :: "byte list \<Rightarrow> nat \<Rightarrow> byte list option" where
  "make_lowercase src n =
     (if n \<le> length src then Some (map lower_byte (take n src) @ drop n src) else None)"

text \<open>
  \<open>strftime\<close> with the format \<open>[%H:%M:%S]\<close>: ten characters and the terminator. A buffer of another
  size than the callers' would be left with unspecified content when it is too small, which has
  no outcome here. When the clock fails the buffer keeps its content.
\<close>

definition dec2 :: "nat \<Rightarrow> byte list" where
  "dec2 n = [of_nat (48 + n div 10 mod 10), of_nat (48 + n mod 10)]"

definition stamp :: "tm \<Rightarrow> byte list" where
  "stamp t = (case t of (h, m, s) \<Rightarrow> 91 # dec2 h @ 58 # dec2 m @ 58 # dec2 s @ [93])"

definition get_timestamp ::
  "byte list \<Rightarrow> nat \<Rightarrow> 'a os_scheme \<Rightarrow> ((int \<times> byte list) \<times> 'a os_scheme) option" where
  "get_timestamp buf n w =
     (case sys_localtime w of
        (None, w1) \<Rightarrow> Some ((-1, buf), w1)
      | (Some t, w1) \<Rightarrow>
          if length (stamp t) < n then do {
            buf1 \<leftarrow> memcpy_at buf 0 (stamp t @ [0]);
            Some ((0, buf1), w1)
          } else None)"

section \<open>The doubling loop\<close>

lemma grow_cap_enough: "needed \<le> cap \<Longrightarrow> grow_cap needed cap = Some cap"
  by (simp add: grow_cap.simps)

lemma grow_cap_once:
  "cap < needed \<Longrightarrow> needed \<le> cap * 2 \<Longrightarrow> cap * 2 < SIZE_MOD \<Longrightarrow> grow_cap needed cap = Some (cap * 2)"
  by (subst grow_cap.simps) (simp add: sz_mul_small grow_cap_enough)

lemma length_stamp [simp]: "length (stamp t) = 10"
  by (cases t) (simp add: stamp_def dec2_def)

lemma dec2_nonzero: "0 \<notin> set (dec2 n)"
proof -
  have u: "unat (of_nat m :: byte) = m" if "m < 256" for m
    using that by (simp add: unat_of_nat take_bit_nat_eq_self)
  have "(of_nat (48 + k mod 10) :: byte) \<noteq> 0" for k
  proof
    assume z: "(of_nat (48 + k mod 10) :: byte) = 0"
    have "k mod 10 < 10" by simp
    then have "48 + k mod 10 < 256" by linarith
    from u [OF this] show False unfolding z by simp
  qed
  from this [of "n div 10"] this [of n] show ?thesis by (simp add: dec2_def)
qed

lemma stamp_nonzero: "0 \<notin> set (stamp t)"
  by (cases t) (simp add: stamp_def dec2_nonzero)

section \<open>What the message buffer holds\<close>

text \<open>
  \<open>message_of ci\<close> is the message assembled so far; \<open>INPUT_MAX\<close> is a bound on what one
  connection delivers, far below the size at which the allocator gives up.
\<close>

definition message_of :: "client_info \<Rightarrow> byte list" where
  "message_of ci = (case partial_msg ci of None \<Rightarrow> [] | Some buf \<Rightarrow> take (partial_len ci) buf)"

definition INPUT_MAX :: nat where "INPUT_MAX = 2 ^ 60"

lemma length_message_of: "client_wf ci \<Longrightarrow> length (message_of ci) = partial_len ci"
  by (auto simp: client_wf_def message_of_def)

lemma append_spec:
  assumes c: "clients w c = Some ci" and wf: "client_wf ci" and mem: "memory_available w"
    and n: "payload_bytes_read ci \<le> BUF_SIZE" "partial_len ci + payload_bytes_read ci \<le> INPUT_MAX"
  shows "ok (append_to_client_buffer c w) (\<lambda>(r, w'). r = 0 \<and>
     (\<exists>ci' ms. w' = set_client c ci' (w\<lparr>mallocs := ms\<rparr>) \<and> set ms \<subseteq> set (mallocs w) \<and>
        client_wf ci' \<and> ci' = ci\<lparr>partial_msg := partial_msg ci', partial_len := partial_len ci',
           partial_cap := partial_cap ci'\<rparr> \<and>
        message_of ci' = message_of ci @ take (payload_bytes_read ci) (payload_buffer ci) \<and>
        partial_len ci' = partial_len ci + payload_bytes_read ci \<and>
        (partial_cap ci' = partial_cap ci \<or>
         partial_cap ci' = partial_cap ci * 2 \<and> partial_cap ci < partial_len ci + payload_bytes_read ci)))"
proof -
  let ?n = "payload_bytes_read ci" and ?need = "partial_len ci + payload_bytes_read ci"
  obtain buf where buf: "partial_msg ci = Some buf" "partial_cap ci \<le> length buf"
    "length buf \<le> PTRDIFF_MAX" "partial_len ci \<le> partial_cap ci" "BUF_SIZE \<le> partial_cap ci"
    "length (payload_buffer ci) = BUF_SIZE"
    using wf by (auto simp: client_wf_def)
  have add: "sz_add (partial_len ci) ?n = ?need"
    using n(2) by (simp add: sz_add_small INPUT_MAX_def SIZE_MOD_def)
  have sl: "slice (payload_buffer ci) 0 ?n = Some (take ?n (payload_buffer ci))"
    using n(1) buf(6) by (simp add: slice_def)
  show ?thesis
  proof (cases "partial_cap ci < ?need")
    case False
    let ?buf = "take (partial_len ci) buf @ take ?n (payload_buffer ci) @ drop ?need buf"
    let ?ci = "ci\<lparr>partial_msg := Some ?buf, partial_len := ?need\<rparr>"
    have len: "length (take ?n (payload_buffer ci)) = ?n" using n(1) buf(6) by simp
    have mc: "memcpy_at buf (partial_len ci) (take ?n (payload_buffer ci)) = Some ?buf"
      using False buf len by (simp add: memcpy_at_def del: length_take)
    have "client_wf ?ci" using wf False buf len by (simp add: client_wf_def)
    moreover have "message_of ?ci = message_of ci @ take ?n (payload_buffer ci)"
      using buf(1,2,4) len by (simp add: message_of_def)
    moreover have "append_to_client_buffer c w = Some (0, set_client c ?ci (w\<lparr>mallocs := mallocs w\<rparr>))"
      using c False add sl mc buf(1) by (simp add: append_to_client_buffer_def Let_def)
    ultimately show ?thesis by (auto intro!: exI [of _ "?ci"] exI [of _ "mallocs w"])
  next
    case True
    let ?cap = "partial_cap ci * 2"
    let ?old = "take ?cap buf @ map (junk w) [length buf..<?cap]"
    let ?buf = "take (partial_len ci) ?old @ take ?n (payload_buffer ci) @ drop ?need ?old"
    let ?ci = "ci\<lparr>partial_cap := ?cap, partial_msg := Some ?buf, partial_len := ?need\<rparr>"
    have cap: "?need \<le> ?cap" "?cap \<le> PTRDIFF_MAX" "?cap < SIZE_MOD"
      using True n buf by (simp_all add: INPUT_MAX_def PTRDIFF_MAX_def SIZE_MOD_def)
    have g: "grow_cap ?need (partial_cap ci) = Some ?cap"
      using grow_cap_once [OF True cap(1,3)] .
    have len: "length (take ?n (payload_buffer ci)) = ?n" using n(1) buf(6) by simp
    have lold: "?cap \<le> length ?old" "length ?old \<le> PTRDIFF_MAX" using buf(3) cap(2) by simp_all
    have re: "realloc_buf (partial_msg ci) ?cap w = (Some ?old, w\<lparr>mallocs := tl (mallocs w)\<rparr>)"
      using mem cap(2) buf(1) by (simp add: realloc_buf_def malloc_ok_available)
    have mc: "memcpy_at ?old (partial_len ci) (take ?n (payload_buffer ci)) = Some ?buf"
      using cap(1) lold len unfolding memcpy_at_def len by (simp del: length_take length_append)
    have blen: "length ?buf = length ?old" by (rule memcpy_at_length [OF mc])
    have "client_wf ?ci"
      using wf buf cap blen lold unfolding client_wf_def by (simp del: length_take length_append)
    moreover have "message_of ?ci = message_of ci @ take ?n (payload_buffer ci)"
      using buf(1,2,4) len True by (simp add: message_of_def)
    moreover have "append_to_client_buffer c w = Some (0, set_client c ?ci (w\<lparr>mallocs := tl (mallocs w)\<rparr>))"
      using c True add sl mc g re by (simp add: append_to_client_buffer_def Let_def del: length_take length_append)
    moreover have "set (tl (mallocs w)) \<subseteq> set (mallocs w)" by (cases "mallocs w") auto
    ultimately show ?thesis using True by (auto intro!: exI [of _ "?ci"] exI [of _ "tl (mallocs w)"])
  qed
qed

lemma clear_spec:
  assumes c: "clients w c = Some ci" and wf: "client_wf ci"
  shows "\<exists>ci'. clear_client_buffer c w = Some (0, set_client c ci' w) \<and> client_wf ci' \<and>
     ci' = ci\<lparr>partial_msg := partial_msg ci', partial_len := 0, partial_cap := BUF_SIZE\<rparr>"
proof -
  obtain buf where buf: "partial_msg ci = Some buf" "partial_len ci \<le> length buf"
    "length buf \<le> PTRDIFF_MAX" "BUF_SIZE \<le> length buf"
    using wf by (auto simp: client_wf_def)
  let ?buf = "replicate (partial_len ci) 0 @ drop (partial_len ci) buf"
  let ?ci = "ci\<lparr>partial_msg := Some ?buf, partial_len := 0, partial_cap := BUF_SIZE\<rparr>"
  have "clear_client_buffer c w = Some (0, set_client c ?ci w)"
    using c buf(1,2) by (simp add: clear_client_buffer_def memcpy_at_def)
  moreover have "client_wf ?ci" using wf buf by (simp add: client_wf_def)
  ultimately show ?thesis by (intro exI [of _ "?ci"]) simp
qed

text \<open>
  The stored name is the message cut to 63 bytes, with a terminator behind it. The bytes of an
  older name beyond that stay.
\<close>

lemma store_name_spec:
  assumes c: "clients w c = Some ci" and wf: "client_wf ci"
  shows "\<exists>ci'. store_client_name c w = Some (0, set_client c ci' w) \<and>
     ci' = ci\<lparr>partial_len := name_len ci', name := name ci', name_len := name_len ci'\<rparr> \<and>
     client_wf (ci'\<lparr>has_name := 1\<rparr>) \<and>
     name_len ci' = min (NAME_MAX - 1) (partial_len ci) \<and>
     take (Suc (name_len ci')) (name ci') = take (name_len ci') (message_of ci) @ [0]"
proof -
  let ?n = "min (NAME_MAX - 1) (partial_len ci)"
  obtain buf where buf: "partial_msg ci = Some buf" "partial_len ci \<le> length buf"
    "length (name ci) = NAME_MAX"
    using wf by (auto simp: client_wf_def)
  let ?nm = "take ?n buf @ 0 # drop (Suc ?n) (name ci)"
  let ?ci = "ci\<lparr>partial_len := ?n, name := ?nm, name_len := ?n\<rparr>"
  have n: "(if NAME_MAX \<le> partial_len ci then NAME_MAX - 1 else partial_len ci) = ?n" "?n < NAME_MAX"
    "?n \<le> length buf"
    using buf by (auto simp: NAME_MAX_def)
  have "slice buf 0 ?n = Some (take ?n buf)" using n(3) by (simp add: slice_def)
  moreover have "memcpy_at (name ci) 0 (take ?n buf) = Some (take ?n buf @ drop ?n (name ci))"
    using n buf by (simp add: memcpy_at_def)
  moreover have "memcpy_at (take ?n buf @ drop ?n (name ci)) ?n [0] = Some ?nm"
    using n buf(2,3) by (simp add: memcpy_at_def)
  ultimately have "store_client_name c w = Some (0, set_client c ?ci w)"
    using c buf(1) n(1) by (simp add: store_client_name_def Let_def)
  moreover have "client_wf (?ci\<lparr>has_name := 1\<rparr>)"
    using wf n buf by (auto simp: client_wf_def)
  moreover have "take (Suc ?n) ?nm = take ?n (message_of ci) @ [0]"
    using n buf by (simp add: message_of_def)
  ultimately show ?thesis by (intro exI [of _ "?ci"]) simp
qed

lemma copy_buffer_spec:
  assumes "memory_available w" "n \<le> length buf" "n \<le> INPUT_MAX"
  shows "copy_buffer (Some buf) n w = Some (Some (take n buf @ [0]),
           w\<lparr>mallocs := tl (mallocs w), live_bufs := live_bufs w + 1\<rparr>)"
proof -
  have "sz_add n 1 = Suc n" "Suc n \<le> PTRDIFF_MAX"
    using assms(3) by (simp_all add: sz_add_def SIZE_MOD_def PTRDIFF_MAX_def INPUT_MAX_def)
  moreover have "memcpy_at (take n buf @ [g]) n [0] = Some (take n buf @ [0])" for g
    using assms(2) by (simp add: memcpy_at_def)
  ultimately show ?thesis
    using assms by (simp add: copy_buffer_def malloc_buf_available slice_def memcpy_at_def drop_map)
qed

end
