(* ===== verification/Chat_Format.thy ===== *)
theory Chat_Format
  imports Chat_Utils
begin

text \<open>
  The texts the server composes (src/server/formatting.c): a chat line and a whisper, each built
  into a fresh block by appending at a running index. The index is checked by the model at every
  write, so a block that is too small would have no outcome.
\<close>

section \<open>Composition\<close>

text \<open>\<open>memcpy (m + index, bs, n); index += n\<close>, and for one byte \<open>m[index++] = b\<close>.\<close>

definition emit :: "byte list \<Rightarrow> byte list \<times> nat \<Rightarrow> (byte list \<times> nat) option" where
  "emit bs mi = (case mi of (m, i) \<Rightarrow> do { m1 \<leftarrow> memcpy_at m i bs; Some (m1, i + length bs) })"

definition format_chat_message :: "ptr \<Rightarrow> server \<Rightarrow> (byte list option \<times> server) option" where
  "format_chat_message c w = do {
     ci \<leftarrow> clients w c;
     ((_, timestamp), w1) \<leftarrow> get_timestamp (map (junk w) [0..<20]) 20 w;
     timestamp_len \<leftarrow> strlen_c timestamp;
     let string_len = sz_add (sz_add (sz_add (sz_add (sz_add timestamp_len 1) (name_len ci)) 2)
                        (partial_len ci)) 2;
     case malloc_buf string_len w1 of
       (None, w2) \<Rightarrow> Some (None, w2)
     | (Some m0, w2) \<Rightarrow> do {
         stamp_bytes \<leftarrow> slice timestamp 0 timestamp_len;
         m1 \<leftarrow> emit stamp_bytes (m0, 0);
         m2 \<leftarrow> emit [32] m1;
         nm \<leftarrow> slice (name ci) 0 (name_len ci);
         m3 \<leftarrow> emit nm m2;
         m4 \<leftarrow> emit [58] m3;
         m5 \<leftarrow> emit [32] m4;
         buf \<leftarrow> partial_msg ci;
         msg \<leftarrow> slice buf 0 (partial_len ci);
         m6 \<leftarrow> emit msg m5;
         (m7, index) \<leftarrow> emit [10] m6;
         m8 \<leftarrow> memcpy_at m7 index [0];
         if string_len \<le> index then Some (None, free_buf (Some m8) w2)
         else Some (Some m8, w2)
       }
   }"

definition whisper_thing :: "byte list" where
  "whisper_thing = bytes_of '' [Whisper from: ''"

definition format_whisper_message ::
  "ptr \<Rightarrow> byte list \<Rightarrow> nat \<Rightarrow> server \<Rightarrow> (byte list option \<times> server) option" where
  "format_whisper_message sender msg msg_len w = do {
     ci \<leftarrow> clients w sender;
     ((_, timestamp), w1) \<leftarrow> get_timestamp (map (junk w) [0..<20]) 20 w;
     timestamp_len \<leftarrow> strlen_c timestamp;
     whisper_thing_len \<leftarrow> strlen_c (whisper_thing @ [0]);
     let string_len = sz_add (sz_add (sz_add (sz_add (sz_add (sz_add timestamp_len 2)
                        whisper_thing_len) (name_len ci)) 3) msg_len) 2;
     case malloc_buf string_len w1 of
       (None, w2) \<Rightarrow> Some (None, w2)
     | (Some m0, w2) \<Rightarrow> do {
         stamp_bytes \<leftarrow> slice timestamp 0 timestamp_len;
         m1 \<leftarrow> emit stamp_bytes (m0, 0);
         m2 \<leftarrow> emit whisper_thing m1;
         nm \<leftarrow> slice (name ci) 0 (name_len ci);
         m3 \<leftarrow> emit nm m2;
         m4 \<leftarrow> emit [93] m3;
         m5 \<leftarrow> emit [58] m4;
         m6 \<leftarrow> emit [32] m5;
         text \<leftarrow> slice msg 0 msg_len;
         m7 \<leftarrow> emit text m6;
         (m8, index) \<leftarrow> emit [10] m7;
         m9 \<leftarrow> memcpy_at m8 index [0];
         if string_len \<le> index then Some (None, free_buf (Some m9) w2)
         else Some (Some m9, w2)
       }
   }"

section \<open>The texts\<close>

definition chat_text :: "tm \<Rightarrow> byte list \<Rightarrow> byte list \<Rightarrow> byte list" where
  "chat_text t nm msg = stamp t @ [32] @ nm @ [58, 32] @ msg @ [10]"

definition whisper_text :: "tm \<Rightarrow> byte list \<Rightarrow> byte list \<Rightarrow> byte list" where
  "whisper_text t nm msg = stamp t @ whisper_thing @ nm @ [93, 58, 32] @ msg @ [10]"

definition clock_works :: "'a os_scheme \<Rightarrow> bool" where
  "clock_works w \<longleftrightarrow> None \<notin> set (clock w)"

definition now :: "'a os_scheme \<Rightarrow> tm" where
  "now w = (case clock w of [] \<Rightarrow> (0, 0, 0) | t # _ \<Rightarrow> the t)"

definition display_name :: "client_info \<Rightarrow> byte list" where
  "display_name ci = take (name_len ci) (name ci)"

text \<open>\<open>built acc n mi\<close>: the block has \<open>n\<close> bytes, and up to the index it holds \<open>acc\<close>.\<close>

definition built :: "byte list \<Rightarrow> nat \<Rightarrow> byte list \<times> nat \<Rightarrow> bool" where
  "built acc n mi \<longleftrightarrow> length (fst mi) = n \<and> snd mi = length acc \<and> take (length acc) (fst mi) = acc"

lemma built_start: "built [] (length m) (m, 0)"
  by (simp add: built_def)

lemma emit_built:
  assumes "built acc n mi" "length acc + length bs \<le> n"
    and "\<And>mi'. built (acc @ bs) n mi' \<Longrightarrow> ok (f mi') Q"
  shows "ok (Option.bind (emit bs mi) f) Q"
proof -
  obtain m i where mi: "mi = (m, i)" by fastforce
  have "emit bs mi = Some (take i m @ bs @ drop (i + length bs) m, length (acc @ bs))"
    using assms(1,2) by (simp add: emit_def memcpy_at_def built_def mi)
  moreover have "built (acc @ bs) n (take i m @ bs @ drop (i + length bs) m, length (acc @ bs))"
    using assms(1,2) by (simp add: built_def mi)
  ultimately show ?thesis using assms(3) by simp
qed

lemma terminate_built:
  assumes "built acc n mi" "length acc < n"
    and "\<And>m. length m = n \<Longrightarrow> take (Suc (length acc)) m = acc @ [0] \<Longrightarrow> ok (f m) Q"
  shows "ok (Option.bind (memcpy_at (fst mi) (snd mi) [0]) f) Q"
proof -
  let ?m = "take (snd mi) (fst mi) @ [0] @ drop (Suc (snd mi)) (fst mi)"
  have "memcpy_at (fst mi) (snd mi) [0] = Some ?m"
    using assms(1,2) by (simp add: memcpy_at_def built_def)
  moreover have "length ?m = n" "take (Suc (length acc)) ?m = acc @ [0]"
    using assms(1,2) by (simp_all add: built_def)
  ultimately show ?thesis using assms(3) by simp
qed

lemma get_timestamp_works:
  assumes "clock_works w" "20 \<le> length buf"
  shows "get_timestamp buf 20 w
     = Some ((0, stamp (now w) @ 0 # drop 11 buf), w\<lparr>clock := tl (clock w)\<rparr>)"
proof (cases "clock w")
  case Nil
  then show ?thesis
    using assms(2) by (simp add: get_timestamp_def sys_localtime_def memcpy_at_def now_def)
next
  case (Cons a ts)
  then obtain t where "a = Some t" using assms(1) by (cases a) (auto simp: clock_works_def)
  then show ?thesis
    using assms(2) Cons by (simp add: get_timestamp_def sys_localtime_def memcpy_at_def now_def)
qed

lemma strlen_stamp [simp]: "strlen_c (stamp t @ 0 # r) = Some 10"
  by (simp add: strlen_c_eq cstr_append_NUL stamp_nonzero)

lemma clock_works_tl [simp]: "clock_works w \<Longrightarrow> clock_works (w\<lparr>clock := tl (clock w)\<rparr>)"
  by (cases "clock w") (auto simp: clock_works_def)

lemma length_display_name: "client_wf ci \<Longrightarrow> length (display_name ci) = name_len ci"
  by (simp add: display_name_def client_wf_def)

section \<open>The blocks hold the texts\<close>

lemma format_chat_spec:
  assumes c: "clients w c = Some ci" and wf: "client_wf ci" and len: "partial_len ci \<le> INPUT_MAX"
    and env: "clock_works w" "memory_available w"
  shows "format_chat_message c w = Some (Some (chat_text (now w) (display_name ci) (message_of ci) @ [0]),
           w\<lparr>clock := tl (clock w), mallocs := tl (mallocs w), live_bufs := live_bufs w + 1\<rparr>)"
proof -
  let ?w1 = "w\<lparr>clock := tl (clock w)\<rparr>"
  let ?n = "10 + 1 + name_len ci + 2 + partial_len ci + 2"
  let ?ts = "stamp (now w) @ 0 # drop 11 (map (junk w) [0..<20])"
  have bounds: "name_len ci < NAME_MAX" using wf by (simp add: client_wf_def)
  then have n: "sz_add (sz_add (sz_add (sz_add (sz_add 10 1) (name_len ci)) 2) (partial_len ci)) 2 = ?n"
    "?n \<le> PTRDIFF_MAX"
    using len by (simp_all add: sz_add_def SIZE_MOD_def INPUT_MAX_def NAME_MAX_def PTRDIFF_MAX_def)
  let ?w2 = "?w1\<lparr>mallocs := tl (mallocs w), live_bufs := live_bufs w + 1\<rparr>"
  let ?m0 = "map (junk w) [0..<?n]"
  have mem: "malloc_buf ?n ?w1 = (Some ?m0, ?w2)"
    using env n(2) by (subst malloc_buf_available) (simp_all add: memory_available_def)
  have sl: "slice ?ts 0 10 = Some (stamp (now w))"
    "slice (name ci) 0 (name_len ci) = Some (display_name ci)"
    using wf bounds by (simp_all add: slice_def display_name_def client_wf_def)
  obtain buf where buf: "partial_msg ci = Some buf" "slice buf 0 (partial_len ci) = Some (message_of ci)"
    using wf by (auto simp: client_wf_def slice_def message_of_def)
  let ?txt = "chat_text (now w) (display_name ci) (message_of ci)"
  have lens: "length (display_name ci) = name_len ci" "length (message_of ci) = partial_len ci"
    using wf length_display_name length_message_of by blast+
  have "ok (format_chat_message c w) (\<lambda>r. r = (Some (?txt @ [0]), ?w2))"
    unfolding format_chat_message_def c get_timestamp_works [OF env(1), of "map (junk w) [0..<20]", simplified]
    apply (simp only: Option.bind.simps prod.case strlen_stamp n(1) Let_def mem sl buf option.case)
    apply (rule emit_built [OF built_start], simp)
    apply (rule emit_built, assumption, simp)
    apply (rule emit_built, assumption, simp add: lens)
    apply (rule emit_built, assumption, simp add: lens)
    apply (rule emit_built, assumption, simp add: lens)
    apply (rule emit_built, assumption, simp add: lens)
    apply (rule emit_built, assumption, simp add: lens)
    apply (simp only: split_beta)
    apply (rule terminate_built, assumption, simp add: lens)
    apply (auto simp: built_def lens chat_text_def take_all)
    done
  then show ?thesis by (auto simp: ok_conv)
qed

lemma whisper_thing_text [simp]: "0 \<notin> set whisper_thing" "length whisper_thing = 16"
  by (simp_all add: whisper_thing_def bytes_of_def of_char_def)

lemma strlen_whisper_thing [simp]: "strlen_c (whisper_thing @ [0]) = Some 16"
  by (simp add: strlen_c_eq cstr_append_NUL)

lemma format_whisper_spec:
  assumes c: "clients w c = Some ci" and wf: "client_wf ci"
    and len: "n \<le> length msg" "n \<le> INPUT_MAX"
    and env: "clock_works w" "memory_available w"
  shows "ok (format_whisper_message c msg n w) (\<lambda>(r, w'). \<exists>rest.
           r = Some (whisper_text (now w) (display_name ci) (take n msg) @ 0 # rest) \<and>
           w' = w\<lparr>clock := tl (clock w), mallocs := tl (mallocs w), live_bufs := live_bufs w + 1\<rparr>)"
proof -
  let ?w1 = "w\<lparr>clock := tl (clock w)\<rparr>"
  let ?n = "10 + 2 + 16 + name_len ci + 3 + n + 2"
  let ?ts = "stamp (now w) @ 0 # drop 11 (map (junk w) [0..<20])"
  have bounds: "name_len ci < NAME_MAX" using wf by (simp add: client_wf_def)
  then have n: "sz_add (sz_add (sz_add (sz_add (sz_add (sz_add 10 2) 16) (name_len ci)) 3) n) 2 = ?n"
    "?n \<le> PTRDIFF_MAX"
    using len by (simp_all add: sz_add_def SIZE_MOD_def INPUT_MAX_def NAME_MAX_def PTRDIFF_MAX_def)
  let ?w2 = "?w1\<lparr>mallocs := tl (mallocs w), live_bufs := live_bufs w + 1\<rparr>"
  let ?m0 = "map (junk w) [0..<?n]"
  have mem: "malloc_buf ?n ?w1 = (Some ?m0, ?w2)"
    using env n(2) by (subst malloc_buf_available) (simp_all add: memory_available_def)
  have sl: "slice ?ts 0 10 = Some (stamp (now w))"
    "slice (name ci) 0 (name_len ci) = Some (display_name ci)" "slice msg 0 n = Some (take n msg)"
    using wf bounds len by (simp_all add: slice_def display_name_def client_wf_def)
  let ?txt = "whisper_text (now w) (display_name ci) (take n msg)"
  have lens: "length (display_name ci) = name_len ci" "length (take n msg) = n"
    using wf length_display_name len by simp_all
  have ltxt: "length ?txt = 10 + 16 + name_len ci + 3 + n + 1"
    using lens by (simp add: whisper_text_def)
  show ?thesis
    unfolding format_whisper_message_def c get_timestamp_works [OF env(1), of "map (junk w) [0..<20]", simplified]
    apply (simp only: Option.bind.simps prod.case strlen_stamp strlen_whisper_thing n(1) Let_def mem sl
        option.case)
    apply (rule emit_built [OF built_start], simp)
    apply (rule emit_built, assumption, simp)
    apply (rule emit_built, assumption, simp add: lens)
    apply (rule emit_built, assumption, simp add: lens)
    apply (rule emit_built, assumption, simp add: lens)
    apply (rule emit_built, assumption, simp add: lens)
    apply (rule emit_built, assumption, simp add: lens len)
    apply (rule emit_built, assumption, simp add: lens len)
    apply (simp only: split_beta)
    apply (rule terminate_built, assumption, simp add: lens len)
    subgoal for m1 m2 m3 m4 m5 m6 m7 m8 m
      using append_take_drop_id [of "Suc (length ?txt)" m] ltxt lens len
      by (auto simp: built_def whisper_text_def intro!: exI [of _ "drop (Suc (length ?txt)) m"])
    done
qed

end
