(* ===== verification/Chat_Invariant.thy ===== *)
theory Chat_Invariant
  imports Chat_Format
begin

text \<open>
  The invariant of the whole server: which clients are registered, what holds of each, and how
  they are kept apart; and \<open>delivered\<close>, what serving one client's output may change. Every
  handler is shown to preserve the invariant from these two.
\<close>

section \<open>The registered clients\<close>

definition roster :: "server \<Rightarrow> ptr list" where
  "roster w = map (client_list w) [0..<client_count w]"

definition client_ok :: "server \<Rightarrow> ptr \<Rightarrow> bool" where
  "client_ok w c \<longleftrightarrow> c \<noteq> NULL \<and> 16 dvd c \<and>
     (case clients w c of None \<Rightarrow> False
      | Some ci \<Rightarrow> client_wf ci \<and> 0 \<in> set (name ci) \<and>
          queue_rep (packets w) (msg_queue ci) (queue_cells w ci) \<and>
          opened w (client_fd ci) \<and> 0 \<le> client_fd ci \<and> client_fd ci \<noteq> server_fd w \<and>
          (\<exists>m. interest w (client_fd ci) = Some (m, DataPtr c)) \<and>
          partial_len ci \<le> INPUT_MAX)"

definition fd_of :: "server \<Rightarrow> ptr \<Rightarrow> fd" where
  "fd_of w c = (case clients w c of None \<Rightarrow> -1 | Some ci \<Rightarrow> client_fd ci)"

definition cells_of :: "server \<Rightarrow> ptr \<Rightarrow> ptr set" where
  "cells_of w c = (case clients w c of None \<Rightarrow> {} | Some ci \<Rightarrow> set (queue_cells w ci))"

definition apart :: "server \<Rightarrow> ptr \<Rightarrow> ptr \<Rightarrow> bool" where
  "apart w c c' \<longleftrightarrow> fd_of w c \<noteq> fd_of w c' \<and> cells_of w c \<inter> cells_of w c' = {}"

text \<open>Every registration with epoll is the listening socket's or that of a registered client.\<close>

definition interest_ok :: "server \<Rightarrow> bool" where
  "interest_ok w \<longleftrightarrow> (\<forall>d m e. interest w d = Some (m, e) \<longrightarrow> opened w d \<and>
     (e = DataFd (server_fd w) \<and> d = server_fd w \<or>
      (\<exists>c \<in> set (roster w). e = DataPtr c \<and> fd_of w c = d)))"

text \<open>
  The environment assumed: allocations of ordinary size succeed, the clock works, fresh memory
  holds a zero byte among its first 64 (an unnamed client's name field is read as a string), and no
  connection still to be accepted delivers more than \<open>INPUT_MAX\<close> bytes.
\<close>

definition env_ok :: "server \<Rightarrow> bool" where
  "env_ok w \<longleftrightarrow> memory_available w \<and> clock_works w \<and> (\<exists>i < NAME_MAX. junk w i = 0) \<and>
     (\<forall>d rs ws. AcConn d rs ws \<in> set (accepts w) \<longrightarrow> length (rd_data rs) \<le> INPUT_MAX)"

definition server_ok :: "server \<Rightarrow> bool" where
  "server_ok w \<longleftrightarrow> heap_fresh w \<and> 16 dvd brk w \<and> env_ok w \<and>
     client_count w \<le> MAX_CLIENTS \<and> distinct (roster w) \<and>
     (\<forall>c \<in> set (roster w). client_ok w c) \<and>
     (\<forall>c \<in> set (roster w). \<forall>c' \<in> set (roster w). c \<noteq> c' \<longrightarrow> apart w c c') \<and>
     interest_ok w \<and> \<not> 16 dvd server_fd w \<and> opened w (server_fd w)"

lemma client_okE:
  assumes "client_ok w c"
  obtains ci where "clients w c = Some ci" "client_wf ci" "0 \<in> set (name ci)"
    "queue_rep (packets w) (msg_queue ci) (queue_cells w ci)" "opened w (client_fd ci)"
    "client_fd ci \<noteq> server_fd w" "partial_len ci \<le> INPUT_MAX"
  using assms by (auto simp: client_ok_def split: option.splits)

lemma server_ok_client: "server_ok w \<Longrightarrow> c \<in> set (roster w) \<Longrightarrow> client_ok w c"
  by (simp add: server_ok_def)

section \<open>Serving one client's output\<close>

text \<open>
  \<open>delivered c bs w w'\<close>: the server went from \<open>w\<close> to \<open>w'\<close> touching only client \<open>c\<close>, whose stream
  (what is transmitted followed by what is queued) grew by \<open>bs\<close>.
\<close>

definition stream :: "server \<Rightarrow> ptr \<Rightarrow> byte list" where
  "stream w c = chan_sent c w @ chan_pending c w"

definition out_fields :: "client_info \<Rightarrow> client_info \<Rightarrow> bool" where
  "out_fields ci ci' \<longleftrightarrow> ci' = ci\<lparr>msg_queue := msg_queue ci', epollout_enabled := epollout_enabled ci',
      closed := closed ci'\<rparr> \<and> (closed ci' = closed ci \<or> closed ci' = 1)"

definition delivered :: "ptr \<Rightarrow> byte list \<Rightarrow> server \<Rightarrow> server \<Rightarrow> bool" where
  "delivered c bs w w' \<longleftrightarrow>
     (\<exists>ci ci'. clients w c = Some ci \<and> clients w' c = Some ci' \<and> out_fields ci ci' \<and>
        touches c (client_fd ci) w w' \<and> heap_fresh w' \<and>
        queue_rep (packets w') (msg_queue ci') (queue_cells w' ci') \<and>
        (\<forall>a < brk w. a \<notin> set (queue_cells w ci) \<longrightarrow> packets w' a = packets w a) \<and>
        set (queue_cells w' ci') \<subseteq> set (queue_cells w ci) \<union> {brk w..} \<and>
        stream w' c = stream w c @ bs \<and> prefix (chan_sent c w) (chan_sent c w'))"

lemma out_fields_sel:
  "out_fields ci ci' \<Longrightarrow> client_fd ci' = client_fd ci \<and> client_wf ci' = client_wf ci \<and>
     name ci' = name ci \<and> name_len ci' = name_len ci \<and> has_name ci' = has_name ci \<and>
     partial_msg ci' = partial_msg ci \<and> partial_len ci' = partial_len ci \<and>
     partial_cap ci' = partial_cap ci \<and> state ci' = state ci \<and> msg_done ci' = msg_done ci \<and>
     payload_bytes_read ci' = payload_bytes_read ci \<and> header_bytes_read ci' = header_bytes_read ci \<and>
     expected_payload_len ci' = expected_payload_len ci \<and> header_buffer ci' = header_buffer ci \<and>
     payload_buffer ci' = payload_buffer ci \<and> msg_type ci' = msg_type ci"
  unfolding out_fields_def by (elim conjE, erule ssubst) (simp add: client_wf_def)

lemma out_fields_trans: "out_fields ci ci1 \<Longrightarrow> out_fields ci1 ci2 \<Longrightarrow> out_fields ci ci2"
  unfolding out_fields_def by (cases ci, cases ci1, cases ci2) auto

lemma out_fields_refl [simp]: "out_fields ci ci"
  unfolding out_fields_def by (cases ci) simp

lemma out_fields_intros:
  "ci' = ci\<lparr>msg_queue := q, epollout_enabled := e\<rparr> \<Longrightarrow> out_fields ci ci'"
  "ci' = ci\<lparr>msg_queue := q\<rparr> \<Longrightarrow> out_fields ci ci'"
  "ci' = ci\<lparr>closed := 1\<rparr> \<Longrightarrow> out_fields ci ci'"
  by (simp_all add: out_fields_def)

lemma delivered_refl:
  assumes "clients w c = Some ci" "heap_fresh w" "queue_rep (packets w) (msg_queue ci) (queue_cells w ci)"
  shows "delivered c [] w w"
  using assms unfolding delivered_def by auto

lemma delivered_trans [trans]:
  assumes "delivered c bs w w1" "delivered c bs1 w1 w2"
  shows "delivered c (bs @ bs1) w w2"
proof -
  obtain ci ci1 where 1: "clients w c = Some ci" "clients w1 c = Some ci1" "out_fields ci ci1"
    "touches c (client_fd ci) w w1"
    "\<forall>a < brk w. a \<notin> set (queue_cells w ci) \<longrightarrow> packets w1 a = packets w a"
    "set (queue_cells w1 ci1) \<subseteq> set (queue_cells w ci) \<union> {brk w..}"
    "stream w1 c = stream w c @ bs" "prefix (chan_sent c w) (chan_sent c w1)"
    using assms(1) unfolding delivered_def by blast
  obtain ci2 where 2: "clients w2 c = Some ci2" "out_fields ci1 ci2" "heap_fresh w2"
    "touches c (client_fd ci) w1 w2" "queue_rep (packets w2) (msg_queue ci2) (queue_cells w2 ci2)"
    "\<forall>a < brk w1. a \<notin> set (queue_cells w1 ci1) \<longrightarrow> packets w2 a = packets w1 a"
    "set (queue_cells w2 ci2) \<subseteq> set (queue_cells w1 ci1) \<union> {brk w1..}"
    "stream w2 c = stream w1 c @ bs1" "prefix (chan_sent c w1) (chan_sent c w2)"
    using assms(2) 1(2) out_fields_sel [OF 1(3)] unfolding delivered_def by auto
  have b: "brk w \<le> brk w1" using 1(4) by (simp add: touches_def)
  have cells: "set (queue_cells w2 ci2) \<subseteq> set (queue_cells w ci) \<union> {brk w..}"
    using 1(6) 2(7) b by fastforce
  have frame: "packets w2 a = packets w a" if "a < brk w" "a \<notin> set (queue_cells w ci)" for a
  proof -
    have "a \<notin> set (queue_cells w1 ci1)" "a < brk w1" using that 1(6) b by auto
    then show ?thesis using 1(5) 2(6) that by simp
  qed
  show ?thesis
    unfolding delivered_def
    using 1 2 frame cells touches_trans [OF 1(4) 2(4)] out_fields_trans [OF 1(3) 2(2)]
      prefix_order.trans [OF 1(8) 2(9)]
    by (intro exI [of _ ci] exI [of _ ci2]) simp
qed

section \<open>Preservation\<close>

text \<open>
  \<open>evolves c w w'\<close>: a step on behalf of client \<open>c\<close>, reading included, that leaves \<open>c\<close> well formed.
\<close>

definition evolves :: "ptr \<Rightarrow> server \<Rightarrow> server \<Rightarrow> bool" where
  "evolves c w w' \<longleftrightarrow>
     (\<exists>ci ci'. clients w c = Some ci \<and> clients w' c = Some ci' \<and> client_fd ci' = client_fd ci \<and>
        touches c (client_fd ci) w (w'\<lparr>inq := inq w\<rparr>) \<and>
        (\<forall>d. d \<noteq> client_fd ci \<longrightarrow> inq w' d = inq w d) \<and>
        heap_fresh w' \<and> client_wf ci' \<and> 0 \<in> set (name ci') \<and>
        queue_rep (packets w') (msg_queue ci') (queue_cells w' ci') \<and>
        (\<forall>a < brk w. a \<notin> set (queue_cells w ci) \<longrightarrow> packets w' a = packets w a) \<and>
        set (queue_cells w' ci') \<subseteq> set (queue_cells w ci) \<union> {brk w..} \<and>
        partial_len ci' \<le> INPUT_MAX)"

lemma delivered_evolves:
  assumes "client_ok w c" "delivered c bs w w'"
  shows "evolves c w w'"
proof -
  obtain ci ci' where *: "clients w c = Some ci" "clients w' c = Some ci'" "out_fields ci ci'"
    "touches c (client_fd ci) w w'" "heap_fresh w'"
    "queue_rep (packets w') (msg_queue ci') (queue_cells w' ci')"
    "\<forall>a < brk w. a \<notin> set (queue_cells w ci) \<longrightarrow> packets w' a = packets w a"
    "set (queue_cells w' ci') \<subseteq> set (queue_cells w ci) \<union> {brk w..}"
    using assms(2) unfolding delivered_def by blast
  have inq: "inq w' = inq w" and same: "touches c (client_fd ci) w (w'\<lparr>inq := inq w\<rparr>)"
    using *(4) by (auto simp: touches_def)
  note sel = out_fields_sel [OF *(3)]
  show ?thesis
    unfolding evolves_def using * sel inq same assms(1)
    by - (rule exI [of _ ci], rule exI [of _ ci'], auto simp: client_ok_def)
qed

lemma cells_of_Some: "clients w c = Some ci \<Longrightarrow> cells_of w c = set (queue_cells w ci)"
  by (simp add: cells_of_def)

lemma client_cells_below:
  assumes "heap_fresh w" "client_ok w c"
  shows "\<forall>a \<in> cells_of w c. a < brk w \<and> a \<noteq> NULL"
  using assms cells_below_brk queue_rep_alive
  by (fastforce simp: client_ok_def cells_of_def split: option.splits)

text \<open>A client whose structure and cells are as before keeps its queue.\<close>

lemma other_client_kept:
  assumes "clients w' c = clients w c" "clients w c = Some ci"
    and "queue_rep (packets w) (msg_queue ci) (queue_cells w ci)"
    and "\<forall>a \<in> set (queue_cells w ci). packets w' a = packets w a"
  shows "queue_rep (packets w') (msg_queue ci) (queue_cells w' ci)" "queue_cells w' ci = queue_cells w ci"
    "chan_pending c w' = chan_pending c w"
proof -
  have q: "queue_rep (packets w') (msg_queue ci) (queue_cells w ci)"
    using assms(3,4) by (subst queue_rep_frame [of _ _ "packets w"]) auto
  then show cells: "queue_cells w' ci = queue_cells w ci" by (rule queue_rep_cells)
  show "queue_rep (packets w') (msg_queue ci) (queue_cells w' ci)" using q cells by simp
  show "chan_pending c w' = chan_pending c w"
    using assms(1,2,4) cells pending_frame [of "queue_cells w ci" "packets w'" "packets w"]
    by (simp add: chan_pending_def)
qed

lemma evolves_other:
  assumes ok: "server_ok w" and c: "c \<in> set (roster w)" "c' \<in> set (roster w)" "c' \<noteq> c"
    and ev: "evolves c w w'"
  shows "clients w' c' = clients w c'" "client_ok w' c'" "cells_of w' c' = cells_of w c'"
    "stream w' c' = stream w c'" "chan_sent c' w' = chan_sent c' w"
proof -
  obtain ci ci1 where e: "clients w c = Some ci"
    "touches c (client_fd ci) w (w'\<lparr>inq := inq w\<rparr>)" "\<forall>d. d \<noteq> client_fd ci \<longrightarrow> inq w' d = inq w d"
    "\<forall>a < brk w. a \<notin> set (queue_cells w ci) \<longrightarrow> packets w' a = packets w a"
    using ev unfolding evolves_def by blast
  have cok: "client_ok w c'" using ok c(2) by (rule server_ok_client)
  then obtain ci' where ci': "clients w c' = Some ci'"
    "queue_rep (packets w) (msg_queue ci') (queue_cells w ci')"
    by (auto simp: client_ok_def split: option.splits)
  have apart: "apart w c c'" using ok c by (simp add: server_ok_def)
  have fd: "client_fd ci' \<noteq> client_fd ci" using apart e(1) ci'(1) by (simp add: apart_def fd_of_def)
  show cl: "clients w' c' = clients w c'" using e(2) c(3) by (simp add: touches_def)
  have "heap_fresh w" using ok by (simp add: server_ok_def)
  then have "\<forall>a \<in> set (queue_cells w ci'). a < brk w" "set (queue_cells w ci') \<inter> set (queue_cells w ci) = {}"
    using client_cells_below [OF _ cok] apart by (auto simp: cells_of_def ci'(1) e(1) apart_def)
  then have "\<forall>a \<in> set (queue_cells w ci'). packets w' a = packets w a" using e(4) by auto
  note kept = other_client_kept [OF cl ci' this]
  show "cells_of w' c' = cells_of w c'" using cl kept(2) ci'(1) by (simp add: cells_of_def)
  have fdsame: "inq w' (client_fd ci') = inq w (client_fd ci')" "opened w' = opened w"
    "interest w' (client_fd ci') = interest w (client_fd ci')" "server_fd w' = server_fd w"
    "sent w' (client_fd ci') = sent w (client_fd ci')"
    using e(2,3) fd by (auto simp: touches_def)
  show "client_ok w' c'"
    using cok cl kept(1) ci'(1) fdsame by (simp add: client_ok_def)
  show "chan_sent c' w' = chan_sent c' w" using cl ci'(1) fdsame by (simp add: chan_sent_def)
  then show "stream w' c' = stream w c'" using kept(3) by (simp add: stream_def)
qed

lemma roster_cong: "client_list w' = client_list w \<Longrightarrow> client_count w' = client_count w \<Longrightarrow> roster w' = roster w"
  by (simp add: roster_def)

lemma evolves_keeps:
  assumes ok: "server_ok w" and c: "c \<in> set (roster w)" and ev: "evolves c w w'"
  shows "server_ok w'" "roster w' = roster w" "client_mutex w' = client_mutex w"
proof -
  obtain ci ci1 where e: "clients w c = Some ci" "clients w' c = Some ci1" "client_fd ci1 = client_fd ci"
    "touches c (client_fd ci) w (w'\<lparr>inq := inq w\<rparr>)" "\<forall>d. d \<noteq> client_fd ci \<longrightarrow> inq w' d = inq w d"
    "heap_fresh w'"
    "client_wf ci1" "0 \<in> set (name ci1)" "queue_rep (packets w') (msg_queue ci1) (queue_cells w' ci1)"
    "set (queue_cells w' ci1) \<subseteq> set (queue_cells w ci) \<union> {brk w..}" "partial_len ci1 \<le> INPUT_MAX"
    using ev unfolding evolves_def by blast
  show ro: "roster w' = roster w" using e(4) by (intro roster_cong) (simp_all add: touches_def)
  show "client_mutex w' = client_mutex w" using e(4) by (simp add: touches_def)
  have same: "opened w' = opened w" "server_fd w' = server_fd w" "client_count w' = client_count w"
    "junk w' = junk w" "clock w' = clock w" "set (mallocs w') \<subseteq> set (mallocs w)"
    "accepts w' = accepts w"
    "16 dvd brk w \<longrightarrow> 16 dvd brk w'"
    "\<And>d. d \<noteq> client_fd ci \<Longrightarrow> interest w' d = interest w d"
    "\<And>a. a \<noteq> c \<Longrightarrow> clients w' a = clients w a"
    "\<And>m. interest w (client_fd ci) = Some (m, DataPtr c) \<Longrightarrow> \<exists>m'. interest w' (client_fd ci) = Some (m', DataPtr c)"
    using e(4) by (auto simp: touches_def)
  have cok: "client_ok w c" using ok c by (rule server_ok_client)
  have fd: "fd_of w' a = fd_of w a" for a
    using same(10) e(1,2,3) by (cases "a = c") (simp_all add: fd_of_def)
  have env: "env_ok w'"
    using ok same(4-7) by (auto simp: server_ok_def env_ok_def memory_available_def clock_works_def)
  have cint: "\<exists>m'. interest w' (client_fd ci) = Some (m', DataPtr c)"
    using cok e(1) same(11) by (auto simp: client_ok_def)
  have "client_ok w' c"
    using cok e same(1,2) cint by (simp add: client_ok_def)
  then have cl: "client_ok w' a" if "a \<in> set (roster w)" for a
    using evolves_other(2) [OF ok c that _ ev] by (cases "a = c") simp_all
  have cells: "cells_of w' c \<subseteq> cells_of w c \<union> {brk w..}" using e by (simp add: cells_of_def)
  have fresh: "heap_fresh w" using ok by (simp add: server_ok_def)
  have new: "cells_of w' c \<inter> cells_of w' b = {}" if "b \<in> set (roster w)" "b \<noteq> c" for b
  proof -
    have "cells_of w' b = cells_of w b" using evolves_other(3) [OF ok c that ev] .
    moreover have "cells_of w c \<inter> cells_of w b = {}" using ok c that by (simp add: server_ok_def apart_def)
    moreover have "\<forall>a \<in> cells_of w b. a < brk w"
      using client_cells_below [OF fresh server_ok_client [OF ok that(1)]] by simp
    ultimately show ?thesis using cells by fastforce
  qed
  have ap: "apart w' a b" if "a \<in> set (roster w)" "b \<in> set (roster w)" "a \<noteq> b" for a b
  proof -
    have "apart w a b" using ok that by (simp add: server_ok_def)
    then show ?thesis
      using new [of a] new [of b] that evolves_other(3) [OF ok c _ _ ev]
      by (cases "a = c"; cases "b = c") (auto simp: apart_def fd)
  qed
  have iok: "interest_ok w'"
    unfolding interest_ok_def
  proof (intro allI impI)
    fix d m x
    assume i: "interest w' d = Some (m, x)"
    show "opened w' d \<and> (x = DataFd (server_fd w') \<and> d = server_fd w' \<or>
        (\<exists>c \<in> set (roster w'). x = DataPtr c \<and> fd_of w' c = d))"
    proof (cases "d = client_fd ci")
      case True
      then have "x = DataPtr c" "fd_of w' c = d" using i cint e by (auto simp: fd_of_def)
      then show ?thesis using True c ro cok e(1) same(1) by (auto simp: client_ok_def)
    next
      case False
      then show ?thesis
        using i same(1,2,9) ok unfolding server_ok_def interest_ok_def ro fd by metis
    qed
  qed
  show "server_ok w'"
    using ok e(6) same env cl ap iok unfolding server_ok_def ro by simp
qed

text \<open>
  Steps outside the clients: allocation of anonymous blocks, the clock, transmitted bytes, the
  mutex and the shutdown flag.
\<close>

definition same_core :: "server \<Rightarrow> server \<Rightarrow> bool" where
  "same_core w w' \<longleftrightarrow> clients w' = clients w \<and> packets w' = packets w \<and> inq w' = inq w \<and>
     opened w' = opened w \<and> interest w' = interest w \<and> accepts w' = accepts w \<and> junk w' = junk w \<and> brk w' = brk w \<and>
     server_fd w' = server_fd w \<and> client_list w' = client_list w \<and> client_count w' = client_count w \<and>
     set (mallocs w') \<subseteq> set (mallocs w) \<and> set (clock w') \<subseteq> set (clock w)"

lemma same_core_refl [simp]: "same_core w w"
  by (simp add: same_core_def)

lemma same_core_trans [trans]: "same_core w w1 \<Longrightarrow> same_core w1 w2 \<Longrightarrow> same_core w w2"
  by (auto simp: same_core_def)

lemma same_core_queue_cells: "same_core w w' \<Longrightarrow> queue_cells w' = queue_cells w"
  by (rule ext) (simp add: same_core_def queue_cells_def)

lemma same_core_keeps:
  assumes "server_ok w" "same_core w w'"
  shows "server_ok w'" "roster w' = roster w"
proof -
  have cells: "queue_cells w' = queue_cells w" using assms(2) by (rule same_core_queue_cells)
  show ro: "roster w' = roster w" using assms(2) by (simp add: same_core_def roster_def)
  have "client_ok w' = client_ok w" "fd_of w' = fd_of w" "cells_of w' = cells_of w"
    using assms(2) cells
    by (simp_all add: same_core_def client_ok_def fd_of_def cells_of_def fun_eq_iff [of _ "client_ok _"]
          fun_eq_iff [of _ "fd_of _"] fun_eq_iff [of _ "cells_of _"] split: option.split)
  moreover have "env_ok w'"
    using assms by (auto simp: server_ok_def env_ok_def same_core_def memory_available_def clock_works_def)
  moreover have "heap_fresh w' = heap_fresh w" using assms(2) by (simp add: heap_fresh_def same_core_def)
  ultimately show "server_ok w'"
    using assms ro by (simp add: server_ok_def apart_def interest_ok_def same_core_def)
qed

lemma server_ok_parts:
  assumes "server_ok w"
  shows "heap_fresh w" "memory_available w" "clock_works w" "client_count w \<le> MAX_CLIENTS"
    "distinct (roster w)" "env_ok w"
  using assms by (simp_all add: server_ok_def env_ok_def)

text \<open>A change of the input side of a client, and of what its descriptor has left to read.\<close>

lemma input_step_evolves:
  assumes "client_ok w c" "heap_fresh w" "clients w c = Some ci"
    and ci': "client_fd ci' = client_fd ci" "msg_queue ci' = msg_queue ci" "client_wf ci'" "0 \<in> set (name ci')"
    and "partial_len ci' \<le> INPUT_MAX"
  shows "evolves c w (set_client c ci' (w\<lparr>inq := (inq w)(client_fd ci := q)\<rparr>))" (is "evolves c w ?w")
proof -
  have "c < brk w" using assms(2,3) by (metis heap_fresh_def not_le option.distinct(1))
  then have "heap_fresh ?w" using assms(2) by (simp add: heap_fresh_def)
  moreover have "queue_cells ?w ci' = queue_cells w ci" using ci'(2) by (simp add: queue_cells_def)
  ultimately show ?thesis
    unfolding evolves_def
    using assms
    by - (rule exI [of _ ci], rule exI [of _ ci'], simp add: client_ok_def touches_def)
qed

lemma client_step_evolves:
  assumes "client_ok w c" "heap_fresh w" "clients w c = Some ci"
    and ci': "client_fd ci' = client_fd ci" "msg_queue ci' = msg_queue ci" "client_wf ci'" "0 \<in> set (name ci')"
    and "partial_len ci' \<le> INPUT_MAX"
  shows "evolves c w (set_client c ci' w)"
  using input_step_evolves [OF assms(1-3) ci' assms(8), of "inq w (client_fd ci)"] by simp

text \<open>
  What remains of a client's input side while messages are handled: only the buffer may shrink. A
  closed client stays closed.
\<close>

definition in_kept :: "client_info \<Rightarrow> client_info \<Rightarrow> bool" where
  "in_kept ci ci' \<longleftrightarrow> client_fd ci' = client_fd ci \<and> state ci' = state ci \<and>
     payload_bytes_read ci' = payload_bytes_read ci \<and> partial_len ci' \<le> partial_len ci \<and>
     (closed ci = 1 \<longrightarrow> closed ci' = 1)"

lemma in_kept_refl [simp]: "in_kept ci ci"
  by (simp add: in_kept_def)

lemma in_kept_trans: "in_kept ci c1 \<Longrightarrow> in_kept c1 c2 \<Longrightarrow> in_kept ci c2"
  by (auto simp: in_kept_def)

lemma out_fields_in_kept: "out_fields ci ci' \<Longrightarrow> in_kept ci ci'"
  using out_fields_sel [of ci ci'] by (auto simp: in_kept_def out_fields_def)

section \<open>A server with two clients\<close>

text \<open>
  The state the concrete examples of the later theories start from: two named clients, the first
  with the input script \<open>evs\<close> and the message \<open>msg\<close> in its buffer, whose sockets accept seven bytes and then block.
\<close>

definition two_clients :: "rd_ev list \<Rightarrow> byte list \<Rightarrow> server" where
  "two_clients evs msg = (set_client 32 (plain_client 8 [66] []) (set_client 16 (plain_client 7 [65] msg) server0))
     \<lparr>brk := 48, client_list := (\<lambda>_. NULL)(0 := 16, 1 := 32), client_count := 2,
      opened := (\<lambda>d. d \<in> {4, 7, 8}),
      inq := (\<lambda>d. if d = 7 then evs else []), outq := (\<lambda>d. if d \<in> {7, 8} then [WrAccept 7] else []),
      interest := [4 \<mapsto> (EPOLLIN, DataFd 4), 7 \<mapsto> (EPOLLIN OR EPOLLRDHUP, DataPtr 16),
                   8 \<mapsto> (EPOLLIN OR EPOLLRDHUP, DataPtr 32)]\<rparr>"

lemma two_clients_sel [simp]:
  "clients (two_clients evs msg) = [16 \<mapsto> plain_client 7 [65] msg, 32 \<mapsto> plain_client 8 [66] []]"
  "packets (two_clients evs msg) = (\<lambda>_. None)" "roster (two_clients evs msg) = [16, 32]"
  "client_mutex (two_clients evs msg) = False" "server_shutdown (two_clients evs msg) = 0"
  "clock (two_clients evs msg) = []" "mallocs (two_clients evs msg) = []" "server_fd (two_clients evs msg) = 4"
  "inq (two_clients evs msg) 7 = evs" "client_count (two_clients evs msg) = 2"
  "sent (two_clients evs msg) = (\<lambda>_. [])" "brk (two_clients evs msg) = 48" "live_bufs (two_clients evs msg) = 0"
  "outq (two_clients evs msg) 7 = [WrAccept 7]" "outq (two_clients evs msg) 8 = [WrAccept 7]"
  "accepts (two_clients evs msg) = []"
  "opened (two_clients evs msg) d = (d \<in> {4, 7, 8})"
  "interest (two_clients evs msg) = [4 \<mapsto> (EPOLLIN, DataFd 4), 7 \<mapsto> (EPOLLIN OR EPOLLRDHUP, DataPtr 16),
                   8 \<mapsto> (EPOLLIN OR EPOLLRDHUP, DataPtr 32)]"
  by (simp_all add: two_clients_def roster_def numeral_2_eq_2)

lemma queue_cells_empty [simp]:
  "msg_queue ci = \<lparr>head = NULL, tail = NULL, queued_bytes = 0, queued_count = 0\<rparr> \<Longrightarrow> queue_cells w ci = []"
  by (simp add: queue_cells_def)

lemma client_wf_plain [simp]:
  "length nm < NAME_MAX \<Longrightarrow> length msg \<le> BUF_SIZE \<Longrightarrow> client_wf (plain_client d nm msg)"
  by (simp add: client_wf_def plain_client_def fresh_client_def HEADER_SIZE_def BUF_SIZE_def
      NAME_MAX_def PTRDIFF_MAX_def)

lemma message_of_plain [simp]: "message_of (plain_client d nm msg) = msg"
  by (simp add: message_of_def)

lemma two_clients_ok: "length msg \<le> BUF_SIZE \<Longrightarrow> server_ok (two_clients evs msg)"
proof -
  assume msg: "length msg \<le> BUF_SIZE"
  have "env_ok (two_clients evs msg)"
    by (auto simp: env_ok_def memory_available_def clock_works_def two_clients_def NAME_MAX_def
        intro: exI [of _ "0 :: nat"])
  moreover have "heap_fresh (two_clients evs msg)" by (simp add: heap_fresh_def)
  moreover have "client_ok (two_clients evs msg) 16" "client_ok (two_clients evs msg) 32"
    using msg by (auto simp: client_ok_def two_clients_def NAME_MAX_def INPUT_MAX_def BUF_SIZE_def)
  moreover have "apart (two_clients evs msg) 16 32" "apart (two_clients evs msg) 32 16"
    by (auto simp: apart_def fd_of_def cells_of_def)
  moreover have "interest_ok (two_clients evs msg)"
    unfolding interest_ok_def by (auto simp: fd_of_def split: if_splits)
  ultimately show ?thesis by (simp add: server_ok_def MAX_CLIENTS_def)
qed

lemma two_clients_stream [simp]:
  "stream (two_clients evs msg) c = []" "chan_pending c (two_clients evs msg) = []"
  by (auto simp: stream_def chan_sent_def chan_pending_def)

end
