(* ===== verification/Chat_Broadcast.thy ===== *)
theory Chat_Broadcast
  imports Chat_Invariant
begin

text \<open>
  Sending to clients (src/server/broadcast.c): \<open>broadcast\<close>, which queues a packet for every open
  client but the sender, and the two direct sends, which write to a descriptor past its queue.
\<close>

section \<open>Operations\<close>

text \<open>
  The body of the loop of \<open>broadcast\<close> for the client at \<open>c\<close>. The comparison of the queue's head
  with the packet is made on the pointer value, also when the packet has just been freed.
\<close>

definition broadcast_client ::
  "ptr \<Rightarrow> msg_header \<Rightarrow> byte list \<Rightarrow> nat \<Rightarrow> ptr \<Rightarrow> server \<Rightarrow> server option" where
  "broadcast_client sender out_header msg n c w =
     (if c = sender then Some w
      else do {
        ci \<leftarrow> clients w c;
        if closed ci = 1 then Some w
        else do {
          (packet, w1) \<leftarrow> broadcast_enqueue c out_header msg n w;
          if packet = NULL then Some w1
          else do {
            ci1 \<leftarrow> clients w1 c;
            w2 \<leftarrow>
              (if epollout_enabled ci1 = 0 \<and> head (msg_queue ci1) = packet then do {
                 (r, w2) \<leftarrow> client_try_write c w1;
                 if r = -1 then do { ci2 \<leftarrow> clients w2 c; Some (set_client c (ci2\<lparr>closed := 1\<rparr>) w2) }
                 else Some w2
               } else Some w1);
            ci3 \<leftarrow> clients w2 c;
            if head (msg_queue ci3) \<noteq> NULL then enable_epollout_for_client c w2 else Some w2
          }
        }
      })"

partial_function (option) broadcast_from ::
  "ptr \<Rightarrow> msg_header \<Rightarrow> byte list \<Rightarrow> nat \<Rightarrow> nat \<Rightarrow> server \<Rightarrow> server option" where
  "broadcast_from sender out_header msg n i w =
     (if i < client_count w then do {
        c \<leftarrow> list_at w i;
        w1 \<leftarrow> broadcast_client sender out_header msg n c w;
        broadcast_from sender out_header msg n (i + 1) w1
      } else Some w)"

definition broadcast :: "ptr \<Rightarrow> byte list \<Rightarrow> nat \<Rightarrow> server \<Rightarrow> (int \<times> server) option" where
  "broadcast sender msg n w = do {
     w1 \<leftarrow> mutex_lock w;
     let (r, h) = create_header (Some \<lparr>hdr_len = 0, hdr_type = 0, hdr_done = 0\<rparr>) n MSG_TYPE_NORMAL True;
     if r = -1 then Some (-1, w1)
     else do {
       out_header \<leftarrow> h;
       w2 \<leftarrow> broadcast_from sender out_header msg n 0 w1;
       Some (0, mutex_unlock w2)
     }
   }"

text \<open>The two direct sends differ in the type byte only.\<close>

definition send_direct :: "byte \<Rightarrow> fd \<Rightarrow> byte list \<Rightarrow> nat \<Rightarrow> 'a os_scheme \<Rightarrow> (int \<times> 'a os_scheme) option" where
  "send_direct ty cfd msg n w = do {
     let (r, h) = create_header (Some \<lparr>hdr_len = 0, hdr_type = 0, hdr_done = 0\<rparr>) n ty True;
     if r = -1 then Some (-1, w)
     else do {
       out_header \<leftarrow> h;
       (r1, w1) \<leftarrow> write_header cfd out_header w;
       if r1 = -1 then Some (-1, w1)
       else do {
         (r2, w2) \<leftarrow> write_payload cfd msg n w1;
         if r2 = -1 then Some (-1, w2) else Some (0, w2)
       }
     }
   }"

definition server_send_message :: "fd \<Rightarrow> byte list \<Rightarrow> nat \<Rightarrow> 'a os_scheme \<Rightarrow> (int \<times> 'a os_scheme) option" where
  "server_send_message = send_direct MSG_TYPE_ADMIN"

definition client_send_direct_message ::
  "fd \<Rightarrow> byte list \<Rightarrow> nat \<Rightarrow> 'a os_scheme \<Rightarrow> (int \<times> 'a os_scheme) option" where
  "client_send_direct_message = send_direct MSG_TYPE_NORMAL"

section \<open>One recipient\<close>

lemma delivered_flushed:
  assumes "clients w c = Some ci" "queue_rep (packets w) (msg_queue ci) ps" "heap_fresh w"
    and f: "flushed c ci ps w ci' ps' w'"
  shows "delivered c [] w w'"
proof -
  have ps: "queue_cells w ci = ps" using assms(2) by (rule queue_rep_cells)
  have c': "clients w' c = Some ci'" "queue_rep (packets w') (msg_queue ci') ps'"
    "ci' = ci\<lparr>msg_queue := msg_queue ci', epollout_enabled := epollout_enabled ci'\<rparr>"
    using f by (auto simp: flushed_def)
  have ps': "queue_cells w' ci' = ps'" using c'(2) by (rule queue_rep_cells)
  have "out_fields ci ci'" by (rule out_fields_intros(1) [OF c'(3)])
  moreover note flushed_heap_fresh [OF assms(3,1,2) f]
  moreover have "set ps' \<subseteq> set ps" using f by (auto simp: flushed_def)
  moreover have "stream w' c = stream w c" "prefix (chan_sent c w) (chan_sent c w')"
    using f c' ps ps' assms(1) flushed_fd [OF f]
    by (auto simp: stream_def chan_sent_def chan_pending_def flushed_def)
  moreover have "touches c (client_fd ci) w w'" "\<forall>a. a \<notin> set ps \<longrightarrow> packets w' a = packets w a"
    using f by (auto simp: flushed_def)
  ultimately show ?thesis
    unfolding delivered_def using assms(1) c'(1,2) ps ps'
    by - (rule exI [of _ ci], rule exI [of _ ci'], auto)
qed

lemma delivered_closed:
  assumes "clients w c = Some ci" "heap_fresh w" "queue_rep (packets w) (msg_queue ci) (queue_cells w ci)"
  shows "delivered c [] w (set_client c (ci\<lparr>closed := 1\<rparr>) w)"
proof -
  have "c < brk w" using assms(1,2) by (metis heap_fresh_def not_le option.distinct(1))
  then have "heap_fresh (set_client c (ci\<lparr>closed := 1\<rparr>) w)"
    using assms(2) by (simp add: heap_fresh_def)
  moreover have "queue_cells (set_client c (ci\<lparr>closed := 1\<rparr>) w) (ci\<lparr>closed := 1\<rparr>) = queue_cells w ci"
    by (simp add: queue_cells_def)
  ultimately show ?thesis
    unfolding delivered_def using assms
    by - (rule exI [of _ ci], rule exI [of _ "ci\<lparr>closed := 1\<rparr>"],
        simp add: out_fields_def touches_def stream_def chan_sent_def chan_pending_def)
qed

lemma delivered_live:
  assumes "delivered c bs w w'"
  obtains ci' where "clients w' c = Some ci'" "heap_fresh w'"
    "queue_rep (packets w') (msg_queue ci') (queue_cells w' ci')"
  using assms unfolding delivered_def by blast

text \<open>The flush and the switch as steps of \<open>delivered\<close>.\<close>

lemma try_write_delivers:
  assumes "clients w c = Some ci" "heap_fresh w" "queue_rep (packets w) (msg_queue ci) (queue_cells w ci)"
    "opened w (client_fd ci)"
  shows "ok (client_try_write c w) (\<lambda>(r, w'). r \<in> {0, -1} \<and> delivered c [] w w')"
  by (rule ok_weaken [OF try_write_spec [OF assms(1,3,4)]])
     (use delivered_flushed [OF assms(1,3,2)] in auto)

lemma enable_delivers:
  assumes "clients w c = Some ci" "heap_fresh w" "queue_rep (packets w) (msg_queue ci) (queue_cells w ci)"
  shows "ok (enable_epollout_for_client c w) (\<lambda>w'. delivered c [] w w')"
  by (rule ok_weaken [OF enable_epollout_spec [OF assms(1)]])
     (use delivered_flushed [OF assms(1,3,2)] flushed_switched [OF _ assms(1,3)] in blast)

definition fits :: "server \<Rightarrow> ptr \<Rightarrow> nat \<Rightarrow> bool" where
  "fits w c n \<longleftrightarrow> length (chan_pending c w) + HEADER_SIZE + n \<le> MSG_SIZE_LIMIT"

lemma enqueue_delivers:
  assumes c: "clients w c = Some ci" "heap_fresh w" "queue_rep (packets w) (msg_queue ci) (queue_cells w ci)"
    and n: "n \<le> length msg" "n < 2 ^ 62" and op: "closed ci \<noteq> 1"
  shows "ok (broadcast_enqueue c h msg n w) (\<lambda>(p, w').
     delivered c (if p \<noteq> NULL \<and> fits w c n then header_image h @ take n msg else []) w w' \<and>
     (memory_available w \<longrightarrow> p \<noteq> NULL))"
proof (rule ok_weaken [OF broadcast_enqueue_spec [OF c(1,3,2) n]], goal_cases)
  case (1 x)
  let ?ps = "queue_cells w ci"
  have pend: "chan_pending c w = pending (packets w) ?ps" using c(1) by (simp add: chan_pending_def)
  obtain p w' where x: "x = (p, w')" by fastforce
  from 1 have t: "touches c (client_fd ci) w w'" and hf: "heap_fresh w'" and s: "sent w' = sent w"
    and fr: "\<forall>a. a \<noteq> p \<longrightarrow> a \<notin> set ?ps \<longrightarrow> packets w' a = packets w a" and p: "p \<noteq> NULL \<longrightarrow> p = brk w"
    and r: "if p \<noteq> NULL \<and> closed ci \<noteq> 1 \<and> length (pending (packets w) ?ps) + HEADER_SIZE + n \<le> MSG_SIZE_LIMIT
      then \<exists>ci'. clients w' c = Some ci' \<and> ci' = ci\<lparr>msg_queue := msg_queue ci'\<rparr> \<and>
             queue_rep (packets w') (msg_queue ci') (?ps @ [p]) \<and> live_bufs w' = live_bufs w + 1 \<and>
             pending (packets w') (?ps @ [p]) = pending (packets w) ?ps @ header_image h @ take n msg
      else clients w' c = Some ci \<and> packets w' = packets w \<and> live_bufs w' = live_bufs w"
    and mem: "memory_available w \<longrightarrow> p \<noteq> NULL"
    unfolding x prod.case by - (elim conjE, assumption)+
  have fits: "fits w c n \<longleftrightarrow> length (pending (packets w) ?ps) + HEADER_SIZE + n \<le> MSG_SIZE_LIMIT"
    by (simp add: fits_def pend)
  have frame: "packets w' a = packets w a" if "a < brk w" "a \<notin> set ?ps" for a
  proof (cases "p = NULL")
    case True
    then show ?thesis using r by simp
  next
    case False
    then show ?thesis using that p fr by auto
  qed
  have "delivered c (if p \<noteq> NULL \<and> fits w c n then header_image h @ take n msg else []) w w'"
  proof (cases "p \<noteq> NULL \<and> fits w c n")
    case True
    then obtain ci' where ci': "clients w' c = Some ci'" "ci' = ci\<lparr>msg_queue := msg_queue ci'\<rparr>"
      "queue_rep (packets w') (msg_queue ci') (?ps @ [p])"
      "pending (packets w') (?ps @ [p]) = pending (packets w) ?ps @ header_image h @ take n msg"
      using r op fits by auto
    have cells: "queue_cells w' ci' = ?ps @ [p]" using ci'(3) by (rule queue_rep_cells)
    have of: "out_fields ci ci'" by (rule out_fields_intros(2) [OF ci'(2)])
    have fd: "client_fd ci' = client_fd ci" by (subst ci'(2)) simp
    have "stream w' c = stream w c @ header_image h @ take n msg" "chan_sent c w' = chan_sent c w"
      using ci'(1,4) c(1) cells fd s by (simp_all add: stream_def chan_sent_def chan_pending_def)
    then show ?thesis
      unfolding delivered_def using True c(1) ci'(1,3) cells of t hf frame p
      by - (rule exI [of _ ci], rule exI [of _ ci'], simp)
  next
    case False
    then have r': "clients w' c = Some ci" "packets w' = packets w" using r fits by auto
    then have cells: "queue_cells w' ci = ?ps" by (simp add: queue_cells_def)
    have "stream w' c = stream w c" "chan_sent c w' = chan_sent c w"
      using r' c(1) cells s by (simp_all add: stream_def chan_sent_def chan_pending_def)
    then show ?thesis
      unfolding delivered_def using False c(1,3) r' cells t hf frame
      by - (rule exI [of _ ci], rule exI [of _ ci], auto)
  qed
  then show ?case
    using mem by (simp add: x)
qed

lemma broadcast_client_delivers:
  assumes c: "clients w c = Some ci" "heap_fresh w" "queue_rep (packets w) (msg_queue ci) (queue_cells w ci)"
    "opened w (client_fd ci)"
    and n: "n \<le> length msg" "n < 2 ^ 62"
  shows "ok (broadcast_client sender h msg n c w) (\<lambda>w'. \<exists>b.
     delivered c (if b then header_image h @ take n msg else []) w w' \<and>
     (b \<longrightarrow> c \<noteq> sender \<and> closed ci \<noteq> 1 \<and> fits w c n) \<and>
     (memory_available w \<longrightarrow> c \<noteq> sender \<longrightarrow> closed ci \<noteq> 1 \<longrightarrow> fits w c n \<longrightarrow> b))"
proof (cases "c = sender \<or> closed ci = 1")
  case True
  then have skip: "broadcast_client sender h msg n c w = Some w"
    using c(1) by (auto simp: broadcast_client_def)
  show ?thesis
    unfolding skip ok_Some by (rule exI [of _ False]) (use True delivered_refl [OF c(1-3)] in auto)
next
  case False
  let ?f = "\<lambda>b. if b then header_image h @ take n msg else []"
  obtain p w1 where e: "broadcast_enqueue c h msg n w = Some (p, w1)"
    and d1: "delivered c (?f (p \<noteq> NULL \<and> fits w c n)) w w1" and mem: "memory_available w \<longrightarrow> p \<noteq> NULL"
    using enqueue_delivers [OF c(1-3) n, of h] False by (auto simp: ok_conv)
  show ?thesis
  proof (cases "p = NULL")
    case True
    then show ?thesis
      using False c e d1 mem by (auto simp: broadcast_client_def intro!: exI [of _ False])
  next
    case pn: False
    let ?b = "fits w c n"
    have d1: "delivered c (?f ?b) w w1" using d1 pn by simp
    obtain ci1 where c1: "clients w1 c = Some ci1" "heap_fresh w1"
      "queue_rep (packets w1) (msg_queue ci1) (queue_cells w1 ci1)"
      using delivered_live [OF d1] .
    have op1: "opened w1 (client_fd ci1)"
      using d1 c c1(1) by (auto simp: delivered_def touches_def dest!: out_fields_sel)
    have "ok (if epollout_enabled ci1 = 0 \<and> head (msg_queue ci1) = p then do {
                 (r, w2) \<leftarrow> client_try_write c w1;
                 if r = -1 then do { ci2 \<leftarrow> clients w2 c; Some (set_client c (ci2\<lparr>closed := 1\<rparr>) w2) }
                 else Some w2
               } else Some w1) (\<lambda>w2. delivered c [] w1 w2)" (is "ok ?m _")
    proof (cases "epollout_enabled ci1 = 0 \<and> head (msg_queue ci1) = p")
      case True
      obtain r w2 where t: "client_try_write c w1 = Some (r, w2)" "delivered c [] w1 w2"
        using try_write_delivers [OF c1 op1] by (auto simp: ok_conv)
      obtain ci2 where c2: "clients w2 c = Some ci2" "heap_fresh w2"
        "queue_rep (packets w2) (msg_queue ci2) (queue_cells w2 ci2)"
        using delivered_live [OF t(2)] .
      show ?thesis
        using True t c2(1) delivered_trans [OF t(2) delivered_closed [OF c2]] by simp
    next
      case False
      show ?thesis unfolding if_not_P [OF False] using delivered_refl [OF c1] by simp
    qed
    then obtain w2 where w2: "?m = Some w2" "delivered c [] w1 w2" by (auto simp: ok_conv)
    have d2: "delivered c (?f ?b) w w2" using delivered_trans [OF d1 w2(2)] by simp
    obtain ci2 where c2: "clients w2 c = Some ci2" "heap_fresh w2"
      "queue_rep (packets w2) (msg_queue ci2) (queue_cells w2 ci2)"
      using delivered_live [OF d2] .
    have "ok (if head (msg_queue ci2) \<noteq> NULL then enable_epollout_for_client c w2 else Some w2)
        (\<lambda>w'. delivered c (?f ?b) w w')"
      using enable_delivers [OF c2] delivered_trans [OF d2, of "[]"] d2 by (auto elim!: ok_weaken)
    moreover have "broadcast_client sender h msg n c w =
        (if head (msg_queue ci2) \<noteq> NULL then enable_epollout_for_client c w2 else Some w2)"
      unfolding broadcast_client_def using False pn c(1) e c1(1) w2(1) c2(1) by simp
    ultimately show ?thesis
      using False by (auto elim!: ok_weaken intro!: exI [of _ ?b])
  qed
qed

section \<open>All recipients\<close>

definition wanted :: "server \<Rightarrow> ptr \<Rightarrow> nat \<Rightarrow> ptr \<Rightarrow> bool" where
  "wanted w sender n c \<longleftrightarrow> c \<noteq> sender \<and> fits w c n \<and>
     (case clients w c of None \<Rightarrow> False | Some ci \<Rightarrow> closed ci \<noteq> 1)"

text \<open>
  The effect of the loop over the clients in \<open>cs\<close>: the frame \<open>f\<close> at the end of the stream of each
  wanted one; of the others nothing, and of each client only the output side, changes.
\<close>

definition broadcasted :: "ptr \<Rightarrow> byte list \<Rightarrow> nat \<Rightarrow> ptr set \<Rightarrow> server \<Rightarrow> server \<Rightarrow> bool" where
  "broadcasted sender f n cs w w' \<longleftrightarrow>
     server_ok w' \<and> client_list w' = client_list w \<and> client_count w' = client_count w \<and>
     client_mutex w' = client_mutex w \<and> inq w' = inq w \<and> clock w' = clock w \<and>
     server_shutdown w' = server_shutdown w \<and> closes w' = closes w \<and> server_fd w' = server_fd w \<and>
     (\<forall>c \<in> set (roster w).
        stream w' c = stream w c @ (if c \<in> cs \<and> wanted w sender n c then f else []) \<and>
        prefix (chan_sent c w) (chan_sent c w') \<and>
        (\<exists>ci ci'. clients w c = Some ci \<and> clients w' c = Some ci' \<and> out_fields ci ci') \<and>
        (c \<notin> cs \<or> c = sender \<longrightarrow> clients w' c = clients w c \<and> chan_pending c w' = chan_pending c w))"

lemma set_roster_nth: "i < client_count w \<Longrightarrow> client_list w i \<in> set (roster w)"
  by (simp add: roster_def)

lemma delivered_globals:
  assumes "delivered c bs w w'"
  shows "client_list w' = client_list w" "client_count w' = client_count w" "client_mutex w' = client_mutex w"
    "inq w' = inq w" "clock w' = clock w" "server_shutdown w' = server_shutdown w"
    "closes w' = closes w" "server_fd w' = server_fd w"
  using assms by (auto simp: delivered_def touches_def)

lemma broadcast_from_spec:
  assumes "server_ok w" "n \<le> length msg" "n < 2 ^ 62"
  shows "ok (broadcast_from sender h msg n i w) (\<lambda>w'.
     broadcasted sender (header_image h @ take n msg) n (set (drop i (roster w))) w w')"
  using assms(1)
proof (induction "client_count w - i" arbitrary: i w)
  case 0
  then have "broadcast_from sender h msg n i w = Some w" by (simp add: broadcast_from.simps)
  moreover have "drop i (roster w) = []" using 0 by (simp add: roster_def)
  ultimately show ?case
    using 0 by (auto simp: broadcasted_def dest!: server_ok_client elim!: client_okE)
next
  case (Suc m)
  let ?f = "header_image h @ take n msg"
  let ?c = "client_list w i"
  have i: "i < client_count w" using Suc.hyps(2) by simp
  have cin: "?c \<in> set (roster w)" using i by (rule set_roster_nth)
  have dr: "drop i (roster w) = ?c # drop (Suc i) (roster w)"
    unfolding roster_def drop_map drop_upt add_0 upt_conv_Cons [OF i] by simp
  have nin: "?c \<notin> set (drop (Suc i) (roster w))"
    using server_ok_parts(5) [OF Suc.prems] by (metis dr distinct.simps(2) distinct_drop)
  obtain ci where ci: "clients w ?c = Some ci" "queue_rep (packets w) (msg_queue ci) (queue_cells w ci)"
    "opened w (client_fd ci)"
    using client_okE [OF server_ok_client [OF Suc.prems cin]] .
  obtain b w1 where w1: "broadcast_client sender h msg n ?c w = Some w1"
    and d: "delivered ?c (if b then ?f else []) w w1"
    and b1: "b \<longrightarrow> ?c \<noteq> sender \<and> closed ci \<noteq> 1 \<and> fits w ?c n"
    and b2: "memory_available w \<longrightarrow> ?c \<noteq> sender \<longrightarrow> closed ci \<noteq> 1 \<longrightarrow> fits w ?c n \<longrightarrow> b"
    using broadcast_client_delivers [OF ci(1) server_ok_parts(1) [OF Suc.prems] ci(2,3) assms(2,3), of sender h]
    by (elim okE exE conjE)
  have b: "b \<longleftrightarrow> wanted w sender n ?c"
    using b1 b2 server_ok_parts(2) [OF Suc.prems] ci(1) by (auto simp: wanted_def)
  have same: "w1 = w" if "?c = sender" using that w1 by (simp add: broadcast_client_def)
  note ev = delivered_evolves [OF server_ok_client [OF Suc.prems cin] d]
  note keep = evolves_keeps [OF Suc.prems cin ev] and other = evolves_other [OF Suc.prems cin _ _ ev]
  note gl = delivered_globals [OF d]
  have run: "broadcast_from sender h msg n i w = broadcast_from sender h msg n (Suc i) w1"
    using i server_ok_parts(4) [OF Suc.prems] w1
    by (subst broadcast_from.simps) (simp add: list_at_def)
  have len: "m = client_count w1 - Suc i" using Suc.hyps(2) gl(2) by simp
  have wt: "wanted w1 sender n a = wanted w sender n a" if "a \<in> set (roster w)" "a \<noteq> ?c" for a
  proof -
    have "clients w1 a = clients w a" "chan_pending a w1 = chan_pending a w"
      using other [OF that] by (simp_all add: stream_def)
    then show ?thesis by (simp add: wanted_def fits_def)
  qed
  obtain c1 where c1: "clients w1 ?c = Some c1" "out_fields ci c1"
    "stream w1 ?c = stream w ?c @ (if b then ?f else [])" "prefix (chan_sent ?c w) (chan_sent ?c w1)"
    using d ci(1) by (auto simp: delivered_def)
  show ?case
    unfolding run
  proof (rule ok_weaken [OF Suc.hyps(1) [OF len keep(1)]])
    fix w'
    assume B: "broadcasted sender ?f n (set (drop (Suc i) (roster w1))) w1 w'"
    then have rest: "server_ok w'" "client_list w' = client_list w" "client_count w' = client_count w"
      "client_mutex w' = client_mutex w" "inq w' = inq w" "clock w' = clock w"
      "server_shutdown w' = server_shutdown w" "closes w' = closes w" "server_fd w' = server_fd w"
      using gl by (simp_all add: broadcasted_def)
    have B': "stream w' a = stream w1 a @ (if a \<in> set (drop (Suc i) (roster w)) \<and> wanted w1 sender n a then ?f else [])"
      "prefix (chan_sent a w1) (chan_sent a w')"
      "\<exists>ci ci'. clients w1 a = Some ci \<and> clients w' a = Some ci' \<and> out_fields ci ci'"
      "a \<notin> set (drop (Suc i) (roster w)) \<or> a = sender \<longrightarrow> clients w' a = clients w1 a \<and> chan_pending a w' = chan_pending a w1"
      if "a \<in> set (roster w)" for a
      using B that keep(2) by (simp_all add: broadcasted_def)
    have "stream w' a = stream w a @ (if a \<in> set (drop i (roster w)) \<and> wanted w sender n a then ?f else []) \<and>
        prefix (chan_sent a w) (chan_sent a w') \<and>
        (\<exists>ci ci'. clients w a = Some ci \<and> clients w' a = Some ci' \<and> out_fields ci ci') \<and>
        (a \<notin> set (drop i (roster w)) \<or> a = sender \<longrightarrow>
           clients w' a = clients w a \<and> chan_pending a w' = chan_pending a w)"
      if a: "a \<in> set (roster w)" for a
    proof (cases "a = ?c")
      case True
      have "clients w' ?c = Some c1" "chan_pending ?c w' = chan_pending ?c w1" "stream w' ?c = stream w1 ?c"
        using B'(1,4) [OF cin] nin c1(1) by auto
      moreover have "prefix (chan_sent ?c w) (chan_sent ?c w')"
        using prefix_order.trans [OF c1(4) B'(2) [OF cin]] .
      moreover have "?c = sender \<longrightarrow> clients w' ?c = clients w ?c \<and> chan_pending ?c w' = chan_pending ?c w"
        using same calculation(1,2) c1(1) by auto
      ultimately show ?thesis
        unfolding True using c1(2,3) b ci(1) by (simp add: dr)
    next
      case False
      have "chan_pending a w1 = chan_pending a w" using other(4,5) [OF a False] by (simp add: stream_def)
      then show ?thesis
        using B' [OF a] other [OF a False] wt [OF a False] False by (simp add: dr)
    qed
    then show "broadcasted sender ?f n (set (drop i (roster w))) w w'"
      unfolding broadcasted_def using rest by blast
  qed
qed

lemma same_core_stream:
  assumes "same_core w w'" "sent w' = sent w"
  shows "stream w' = stream w" "chan_pending c w' = chan_pending c w" "chan_sent c w' = chan_sent c w"
    "wanted w' = wanted w"
proof -
  have cells: "queue_cells w' = queue_cells w" using assms(1) by (rule same_core_queue_cells)
  have eq: "chan_pending c w' = chan_pending c w" "chan_sent c w' = chan_sent c w" for c
    using assms cells
    by (simp_all add: chan_pending_def chan_sent_def same_core_def split: option.split)
  then show "chan_pending c w' = chan_pending c w" "chan_sent c w' = chan_sent c w" by blast+
  show "stream w' = stream w" by (rule ext) (simp add: stream_def eq)
  show "wanted w' = wanted w"
    by (intro ext) (use assms(1) in \<open>simp add: wanted_def fits_def eq same_core_def\<close>)
qed

lemma same_core_mutex [simp]: "same_core w (w\<lparr>client_mutex := b\<rparr>)"
  by (simp add: same_core_def)

lemma broadcasted_locked:
  assumes "broadcasted sender f n cs (w\<lparr>client_mutex := True\<rparr>) w2" "\<not> client_mutex w"
  shows "broadcasted sender f n cs w (mutex_unlock w2)"
proof -
  let ?w1 = "w\<lparr>client_mutex := True\<rparr>" and ?w3 = "w2\<lparr>client_mutex := False\<rparr>"
  have 1: "stream ?w1 = stream w" "chan_pending c ?w1 = chan_pending c w"
    "chan_sent c ?w1 = chan_sent c w" "wanted ?w1 = wanted w" for c
    by (rule same_core_stream; simp)+
  have 2: "stream ?w3 = stream w2" "chan_pending c ?w3 = chan_pending c w2"
    "chan_sent c ?w3 = chan_sent c w2" for c
    by (rule same_core_stream; simp)+
  have "server_ok w2" using assms(1) by (simp add: broadcasted_def)
  then have "server_ok ?w3" by (rule same_core_keeps) simp
  moreover have "roster ?w1 = roster w" by (simp add: roster_def)
  ultimately show ?thesis
    using assms unfolding mutex_unlock_def broadcasted_def 1 2 by (simp add: 1 2)
qed

lemma broadcast_spec:
  assumes ok: "server_ok w" "\<not> client_mutex w" and n: "n \<le> length msg" "n < 2 ^ 62"
  shows "ok (broadcast sender msg n w) (\<lambda>(r, w'). r = 0 \<and>
     broadcasted sender (normal_frame (take n msg)) n (set (roster w)) w w')"
proof -
  let ?w1 = "w\<lparr>client_mutex := True\<rparr>" and ?h = "mk_header n MSG_TYPE_NORMAL True"
  have ok1: "server_ok ?w1" by (rule same_core_keeps [OF ok(1)]) simp
  obtain w2 where w2: "broadcast_from sender ?h msg n 0 ?w1 = Some w2"
    and b: "broadcasted sender (header_image ?h @ take n msg) n (set (drop 0 (roster ?w1))) ?w1 w2"
    using broadcast_from_spec [OF ok1 n, of sender ?h 0] by (auto simp: ok_conv)
  have "roster ?w1 = roster w" by (simp add: roster_def)
  then have "broadcasted sender (header_image ?h @ take n msg) n (set (roster w)) w (mutex_unlock w2)"
    using broadcasted_locked [OF b ok(2)] by simp
  moreover have "header_image ?h @ take n msg = normal_frame (take n msg)"
    using n(1) by (simp add: normal_frame_def wire_def)
  moreover have "broadcast sender msg n w = Some (0, mutex_unlock w2)"
    using ok(2) w2 by (simp add: broadcast_def mutex_lock_def create_header_eq)
  ultimately show ?thesis by simp
qed

section \<open>Direct sends\<close>

lemma send_direct_spec:
  fixes w :: "'a os_scheme"
  assumes "opened w d" "n \<le> length msg"
  shows "ok (send_direct ty d msg n w) (\<lambda>(r, w'). r \<in> {0, -1} \<and>
     (\<exists>o' s. w' = w\<lparr>outq := (outq w)(d := o'), sent := (sent w)(d := sent w d @ s)\<rparr> \<and>
        subseq s (wire (take n msg, ty, True)) \<and>
        (WrAccept 0 \<notin> set (outq w d) \<longrightarrow> prefix s (wire (take n msg, ty, True)) \<and>
           (r = 0 \<longleftrightarrow> s = wire (take n msg, ty, True)) \<and>
           absorbs [HEADER_SIZE, n] (outq w d) = (if r = 0 then Some o' else None))))"
proof -
  let ?h = "mk_header n ty True"
  let ?hi = "header_image ?h" and ?p = "take n msg"
  have wire: "wire (?p, ty, True) = ?hi @ ?p" using assms(2) by (simp add: wire_def)
  obtain r1 w1 where h: "write_header d ?h w = Some (r1, w1)" and W1: "wrote d ?hi 0 w r1 w1"
    using write_all_spec [OF assms(1), of ?hi] by (auto simp: ok_conv write_header_def)
  obtain k1 where k1: "k1 \<le> length ?hi" "r1 = int k1 \<or> r1 = -1 \<and> k1 < length ?hi"
    "sent w1 d = sent w d @ take k1 ?hi"
    using W1 unfolding wrote_def by auto
  have w1: "w1 = w\<lparr>outq := (outq w)(d := outq w1 d), sent := (sent w)(d := sent w1 d)\<rparr>"
    and z1: "WrAccept 0 \<notin> set (outq w d) \<longrightarrow> r1 = -1 \<or> r1 = int (length ?hi)"
    and q1: "set (outq w1 d) \<subseteq> set (outq w d)"
    and a1: "absorb HEADER_SIZE (outq w d) = (if r1 = int HEADER_SIZE then Some (outq w1 d) else None)"
    using W1 unfolding wrote_def by auto
  show ?thesis
  proof (cases "r1 = -1")
    case True
    have "prefix (take k1 ?hi) (wire (?p, ty, True))"
      unfolding wire using take_is_prefix prefix_prefix by blast
    moreover from this have "subseq (take k1 ?hi) (wire (?p, ty, True))" by (rule prefix_imp_subseq)
    moreover have "w1 = w\<lparr>outq := (outq w)(d := outq w1 d), sent := (sent w)(d := sent w d @ take k1 ?hi)\<rparr>"
      using w1 k1(3) by simp
    moreover have "send_direct ty d msg n w = Some (-1, w1)"
      using h True by (simp add: send_direct_def create_header_eq)
    moreover have "length (take k1 ?hi) < length (wire (?p, ty, True))"
      using k1(2) True by (auto simp: wire)
    then have "take k1 ?hi \<noteq> wire (?p, ty, True)" by (metis less_irrefl)
    moreover have "absorbs [HEADER_SIZE, n] (outq w d) = None" using a1 True by simp
    ultimately show ?thesis
      by simp (rule exI [of _ "outq w1 d"], rule exI [of _ "take k1 ?hi"], simp)
  next
    case False
    have "opened w1 d" by (subst w1) (simp add: assms(1))
    then have "ok (write_all d ?p w1) (\<lambda>(r, w'). wrote d ?p 0 w1 r w')" by (rule write_all_spec)
    then obtain r2 w2 where p: "write_all d ?p w1 = Some (r2, w2)" and W2: "wrote d ?p 0 w1 r2 w2"
      by (auto elim: okE)
    obtain k2 where k2: "k2 \<le> length ?p" "r2 = int k2 \<or> r2 = -1 \<and> k2 < length ?p"
      "sent w2 d = sent w1 d @ take k2 ?p"
      using W2 that unfolding wrote_def diff_zero drop_0 by blast
    have w2: "w2 = w1\<lparr>outq := (outq w1)(d := outq w2 d), sent := (sent w1)(d := sent w2 d)\<rparr>"
      and z2: "WrAccept 0 \<notin> set (outq w1 d) \<longrightarrow> r2 = -1 \<or> r2 = int (length ?p)"
      and a2: "absorb (length ?p - 0) (outq w1 d)
                 = (if r2 = int (length ?p) then Some (outq w2 d) else None)"
      using W2 unfolding wrote_def by blast+
    let ?s = "take k1 ?hi @ take k2 ?p"
    have w2': "w2 = w\<lparr>outq := (outq w)(d := outq w2 d), sent := (sent w)(d := sent w d @ ?s)\<rparr>"
    proof -
      obtain o1 s1 where e1: "w1 = w\<lparr>outq := (outq w)(d := o1), sent := (sent w)(d := s1)\<rparr>"
        using w1 by blast
      obtain o2 s2 where e2: "w2 = w1\<lparr>outq := (outq w1)(d := o2), sent := (sent w1)(d := s2)\<rparr>"
        using w2 by blast
      show ?thesis using k1(3) k2(3) by (simp add: e2) (simp add: e1)
    qed
    have sub: "subseq ?s (wire (?p, ty, True))"
      unfolding wire by (intro list_emb_append_mono prefix_imp_subseq take_is_prefix)
    have r: "send_direct ty d msg n w = Some (if r2 = -1 then -1 else 0, w2)"
      using h p False assms(2) by (simp add: send_direct_def create_header_eq write_payload_def slice_def)
    have full: "k1 = length ?hi" if "WrAccept 0 \<notin> set (outq w d)"
      using that z1 False k1(2) by simp
    have pre: "prefix ?s (wire (?p, ty, True))" if "WrAccept 0 \<notin> set (outq w d)"
      using full [OF that] take_is_prefix [of k2 ?p] by (simp add: wire)
    have all: "?s = wire (?p, ty, True)" if "r2 \<noteq> -1" "WrAccept 0 \<notin> set (outq w d)"
    proof -
      have "WrAccept 0 \<notin> set (outq w1 d)" using that(2) q1 by blast
      then have "k2 = length ?p" using that(1) z2 k2(2) by auto
      then have "k2 = n" using assms(2) by simp
      then show ?thesis using full [OF that(2)] by (simp add: wire)
    qed
    have part: "?s \<noteq> wire (?p, ty, True)" if "r2 = -1"
    proof -
      have "length ?s < length (wire (?p, ty, True))" using that k1(1) k2(2) by (auto simp: wire)
      then show ?thesis by (metis less_irrefl)
    qed
    have ab: "absorbs [HEADER_SIZE, n] (outq w d) = (if r2 = -1 then None else Some (outq w2 d))"
      if z: "WrAccept 0 \<notin> set (outq w d)"
    proof -
      have "WrAccept 0 \<notin> set (outq w1 d)" using z q1 by blast
      then have "r2 = -1 \<or> r2 = int (length ?p)" using z2 by simp
      moreover have "r1 = int HEADER_SIZE" using z1 z False by simp
      ultimately show ?thesis using a1 a2 assms(2) by auto
    qed
    show ?thesis
      unfolding r ok_Some prod.case
      by (intro conjI, simp, rule exI [of _ "outq w2 d"], rule exI [of _ ?s])
         (use w2' sub pre all part ab in auto)
  qed
qed

section \<open>Properties\<close>

text \<open>
  Claim C8. A broadcast reaches every client it should. From a server in order it ends, without a
  memory fault and with the mutex free; the invariant holds again; and the stream of each
  registered client (bytes transmitted, then bytes queued) is extended by exactly one whole frame
  with the message when the client is open, is not the sender and has room in its queue, and is
  otherwise exactly what it was, the sender's and the closed clients' included.
\<close>

theorem broadcast_delivers:
  assumes "server_ok w" "\<not> client_mutex w" "n \<le> length msg" "n < 2 ^ 62"
  shows "ok (broadcast sender msg n w) (\<lambda>(r, w'). r = 0 \<and> server_ok w' \<and> \<not> client_mutex w' \<and>
     (\<forall>c \<in> set (roster w).
        stream w' c = stream w c @ (if wanted w sender n c then normal_frame (take n msg) else []) \<and>
        prefix (chan_sent c w) (chan_sent c w')))"
  by (rule ok_weaken [OF broadcast_spec [OF assms]]) (use assms(2) in \<open>auto simp: broadcasted_def\<close>)

theorem broadcast_delivers_witness:
  "ok (broadcast 16 [72, 105] 2 (two_clients [] [])) (\<lambda>(r, w'). r = 0 \<and>
     stream w' 32 = normal_frame [72, 105] \<and> stream w' 16 = [])"
  using broadcast_delivers [of "two_clients [] []" 2 "[72, 105]" 16] two_clients_ok [of "[]"]
  by (simp add: ok_conv wanted_def fits_def HEADER_SIZE_def MSG_SIZE_LIMIT_def) force

end
