(* ===== verification/Chat_Command.thy ===== *)
theory Chat_Command
  imports Chat_Broadcast
begin

text \<open>
  Commands and completed messages: the command table (src/common/command.c,
  include/command_table.h), the server's command handlers (src/server/server_handle_command.c) and
  the dispatch of a complete message (src/server/process_payload.c).
\<close>

section \<open>The command table\<close>

datatype cmd = CMD_QUIT | CMD_LIST | CMD_WHISPER | CMD_SHUTDOWN | CMD_UNKNOWN

datatype cmd_res = CMD_OK | CMD_DISCONNECT | CMD_ERROR | CMD_WARNING

definition command_table :: "(byte list option \<times> cmd) list" where
  "command_table =
     [(Some (bytes_of ''/quit'' @ [0]), CMD_QUIT), (Some (bytes_of ''/list'' @ [0]), CMD_LIST),
      (Some (bytes_of ''/whisper'' @ [0]), CMD_WHISPER),
      (Some (bytes_of ''/shutdown'' @ [0]), CMD_SHUTDOWN), (None, CMD_UNKNOWN)]"

text \<open>The scan stops at the entry without a name; running past the table has no outcome.\<close>

fun find_in_table :: "(byte list option \<times> cmd) list \<Rightarrow> byte list \<Rightarrow> cmd option" where
  "find_in_table [] s = None"
| "find_in_table ((None, _) # t) s = Some CMD_UNKNOWN"
| "find_in_table ((Some nm, c) # t) s = do {
     b \<leftarrow> strcmp_eq nm s;
     if b then Some c else find_in_table t s
   }"

definition find_command :: "byte list \<Rightarrow> cmd option" where
  "find_command s = find_in_table command_table s"

section \<open>Handlers\<close>

definition you_indicator :: "byte list" where
  "you_indicator = bytes_of '' <-- YOU'' @ [10]"

partial_function (option) handle_list_from :: "ptr \<Rightarrow> nat \<Rightarrow> server \<Rightarrow> server option" where
  "handle_list_from user i w =
     (if i < client_count w then do {
        c \<leftarrow> list_at w i;
        ci \<leftarrow> clients w c;
        u \<leftarrow> clients w user;
        indicator_len \<leftarrow> strlen_c (you_indicator @ [0]);
        (_, w1) \<leftarrow> server_send_message (client_fd u) (name ci) (name_len ci) w;
        (_, w2) \<leftarrow>
          (if c = user then server_send_message (client_fd u) (you_indicator @ [0]) indicator_len w1
           else server_send_message (client_fd u) [10, 0] 1 w1);
        handle_list_from user (i + 1) w2
      } else Some w)"

definition handle_list :: "ptr \<Rightarrow> server \<Rightarrow> (cmd_res \<times> server) option" where
  "handle_list user w = do { w1 \<leftarrow> handle_list_from user 0 w; Some (CMD_OK, w1) }"

text \<open>The search for a whisper's target: the first client with that name, or NULL.\<close>

partial_function (option) find_target :: "byte list \<Rightarrow> nat \<Rightarrow> server \<Rightarrow> ptr option" where
  "find_target nm i w =
     (if i < client_count w then do {
        c \<leftarrow> list_at w i;
        ci \<leftarrow> clients w c;
        b \<leftarrow> strcmp_eq nm (name ci);
        if b then Some c else find_target nm (i + 1) w
      } else Some NULL)"

definition handle_whisper :: "ptr \<Rightarrow> byte list option \<Rightarrow> server \<Rightarrow> (cmd_res \<times> server) option" where
  "handle_whisper user saveptr w =
     (case saveptr of
        None \<Rightarrow> Some (CMD_WARNING, w)
      | Some args \<Rightarrow> do {
          (whisper_target, whisper_msg) \<leftarrow> strtok_r args;
          whisper_len \<leftarrow> strlen_c whisper_msg;
          if whisper_len = 0 then Some (CMD_WARNING, w)
          else do {
            nm \<leftarrow> whisper_target;
            target \<leftarrow> find_target (nm @ [0]) 0 w;
            if target = NULL then Some (CMD_WARNING, w)
            else do {
              (formatted, w1) \<leftarrow> format_whisper_message user whisper_msg whisper_len w;
              case formatted of
                None \<Rightarrow> Some (CMD_ERROR, w1)
              | Some text \<Rightarrow> do {
                  text_len \<leftarrow> strlen_c text;
                  ti \<leftarrow> clients w1 target;
                  (r, w2) \<leftarrow> client_send_direct_message (client_fd ti) text text_len w1;
                  if r = -1 then Some (CMD_ERROR, w2)
                  else Some (CMD_OK, free_buf (Some text) w2)
                }
            }
          }
        })"

definition handle_shutdown :: "server \<Rightarrow> cmd_res \<times> server" where
  "handle_shutdown w = (CMD_DISCONNECT, w\<lparr>server_shutdown := 1\<rparr>)"

definition server_handle_unknown :: cmd_res where
  "server_handle_unknown = CMD_OK"

definition server_handle_command ::
  "ptr \<Rightarrow> byte list \<Rightarrow> byte list option \<Rightarrow> server \<Rightarrow> (cmd_res \<times> server) option" where
  "server_handle_command user cmd_str saveptr w = do {
     command \<leftarrow> find_command cmd_str;
     case command of
       CMD_LIST \<Rightarrow> handle_list user w
     | CMD_WHISPER \<Rightarrow> handle_whisper user saveptr w
     | CMD_SHUTDOWN \<Rightarrow> Some (CMD_DISCONNECT, snd (handle_shutdown w))
     | _ \<Rightarrow> Some (server_handle_unknown, w)
   }"

text \<open>
  A complete message: the first one is the client's name, one that starts with a slash is a
  command, any other is a chat line. \<open>strlen\<close> of a text that could not be allocated has no outcome.
\<close>

definition process_payload :: "ptr \<Rightarrow> byte list option \<Rightarrow> server \<Rightarrow> (int \<times> server) option" where
  "process_payload c payload_copy w = do {
     ci \<leftarrow> clients w c;
     if has_name ci = 0 then do {
       (_, w1) \<leftarrow> store_client_name c w;
       ci1 \<leftarrow> clients w1 c;
       Some (0, set_client c (ci1\<lparr>has_name := 1\<rparr>) w1)
     } else do {
       payload \<leftarrow> payload_copy;
       first \<leftarrow> slice payload 0 1;
       if first = [47] then do {
         (tok, saveptr) \<leftarrow> strtok_r payload;
         cmd_str \<leftarrow> tok;
         cmd_len \<leftarrow> strlen_c (cmd_str @ [0]);
         lower \<leftarrow> make_lowercase (cmd_str @ [0]) cmd_len;
         (result, w1) \<leftarrow> server_handle_command c lower (Some saveptr) w;
         if result = CMD_DISCONNECT \<or> result = CMD_ERROR then Some (-1, w1) else Some (0, w1)
       } else do {
         (formatted_msg, w1) \<leftarrow> format_chat_message c w;
         text \<leftarrow> formatted_msg;
         formatted_len \<leftarrow> strlen_c text;
         (_, w2) \<leftarrow> broadcast c text formatted_len w1;
         Some (0, free_buf formatted_msg w2)
       }
     }
   }"

section \<open>Looking up commands\<close>

lemma find_in_table_total:
  "\<forall>e \<in> set t. \<forall>nm. fst e = Some nm \<longrightarrow> 0 \<in> set nm \<Longrightarrow> \<exists>e \<in> set t. fst e = None \<Longrightarrow> 0 \<in> set s \<Longrightarrow>
     \<exists>c. find_in_table t s = Some c"
  by (induction t s rule: find_in_table.induct) (auto simp: strcmp_eq_terminated)

lemma find_command_total: "0 \<in> set s \<Longrightarrow> \<exists>c. find_command s = Some c"
  unfolding find_command_def by (rule find_in_table_total) (auto simp: command_table_def)

lemma find_in_table_eq:
  assumes "\<forall>e \<in> set t. \<forall>nm. fst e = Some nm \<longrightarrow> 0 \<in> set nm" "0 \<in> set s"
  shows "find_in_table (t @ [(None, x)]) s =
     Some (case map_of (map (\<lambda>e. (cstr (the (fst e)), snd e)) t) (cstr s) of None \<Rightarrow> CMD_UNKNOWN | Some c \<Rightarrow> c)
     \<or> (\<exists>e \<in> set t. fst e = None)"
  using assms
proof (induction t)
  case (Cons e t)
  then show ?case by (cases e; cases "fst e") (auto simp: strcmp_eq_terminated)
qed simp

lemma cstr_bytes_of [simp]: "\<forall>c \<in> set s. of_char c \<noteq> (0 :: byte) \<Longrightarrow> cstr (bytes_of s @ [0]) = bytes_of s"
  by (rule cstr_append_NUL) (auto simp: bytes_of_def)

text \<open>The table as a function of the command's text.\<close>

lemma find_command_eq:
  assumes "0 \<in> set s"
  shows "find_command s = Some (
     if cstr s = bytes_of ''/quit'' then CMD_QUIT else if cstr s = bytes_of ''/list'' then CMD_LIST
     else if cstr s = bytes_of ''/whisper'' then CMD_WHISPER
     else if cstr s = bytes_of ''/shutdown'' then CMD_SHUTDOWN else CMD_UNKNOWN)"
  using find_in_table_eq [of "butlast command_table" s CMD_UNKNOWN] assms
  by (auto simp: find_command_def command_table_def of_char_def)

section \<open>Commands keep the server in order\<close>

text \<open>
  \<open>wrote_to d w w'\<close>: nothing but the output of descriptor \<open>d\<close>, the allocator and the clock moved.
\<close>

definition wrote_to :: "fd \<Rightarrow> server \<Rightarrow> server \<Rightarrow> bool" where
  "wrote_to d w w' \<longleftrightarrow> same_core w w' \<and> client_mutex w' = client_mutex w \<and>
     server_shutdown w' = server_shutdown w \<and>
     (\<forall>d'. d' \<noteq> d \<longrightarrow> sent w' d' = sent w d' \<and> outq w' d' = outq w d') \<and>
     prefix (sent w d) (sent w' d)"

lemma wrote_to_refl [simp]: "wrote_to d w w"
  by (simp add: wrote_to_def)

lemma wrote_to_trans: "wrote_to d w w1 \<Longrightarrow> wrote_to d w1 w2 \<Longrightarrow> wrote_to d w w2"
  unfolding wrote_to_def using same_core_trans prefix_order.trans by metis

lemma send_direct_wrote_to:
  assumes "opened w d" "n \<le> length msg"
  shows "ok (send_direct ty d msg n w) (\<lambda>(r, w'). r \<in> {0, -1} \<and> wrote_to d w w' \<and>
     (\<exists>s. sent w' d = sent w d @ s \<and> subseq s (wire (take n msg, ty, True))))"
  by (rule ok_weaken [OF send_direct_spec [OF assms]]) (auto simp: wrote_to_def same_core_def)

lemma roster_index:
  "server_ok w \<Longrightarrow> i < client_count w \<Longrightarrow>
     list_at w i = Some (client_list w i) \<and> client_list w i \<in> set (roster w)"
  using server_ok_parts(4) by (fastforce simp: list_at_def intro: set_roster_nth)

text \<open>The entry of one client: its name, then a mark for the asking client or the end of the line.\<close>

definition list_entry :: "server \<Rightarrow> ptr \<Rightarrow> ptr \<Rightarrow> wire_msg list" where
  "list_entry w user c = [((case clients w c of None \<Rightarrow> [] | Some ci \<Rightarrow> display_name ci), MSG_TYPE_ADMIN, True),
     (if c = user then you_indicator else [10], MSG_TYPE_ADMIN, True)]"

definition listing :: "server \<Rightarrow> ptr \<Rightarrow> wire_msg list" where
  "listing w user = concat (map (list_entry w user) (roster w))"

lemma handle_list_from_ok:
  assumes "server_ok w" "user \<in> set (roster w)"
  shows "ok (handle_list_from user i w) (\<lambda>w'. wrote_to (fd_of w user) w w' \<and>
     (\<exists>s. sent w' (fd_of w user) = sent w (fd_of w user) @ s \<and>
        subseq s (concat (map wire (concat (map (list_entry w user) (drop i (roster w))))))))"
  using assms
proof (induction "client_count w - i" arbitrary: i w)
  case 0
  then show ?case by (simp add: handle_list_from.simps)
next
  case (Suc m)
  let ?c = "client_list w i" and ?d = "fd_of w user"
  have i: "i < client_count w" using Suc.hyps(2) by simp
  note at = roster_index [OF Suc.prems(1) i]
  obtain ci where ci: "clients w ?c = Some ci" "client_wf ci"
    using client_okE [OF server_ok_client [OF Suc.prems(1) conjunct2 [OF at]]] .
  obtain u where u: "clients w user = Some u" "opened w (client_fd u)"
    using client_okE [OF server_ok_client [OF Suc.prems]] .
  have d: "?d = client_fd u" using u(1) by (simp add: fd_of_def)
  have ind: "strlen_c (you_indicator @ [0]) = Some (length you_indicator)"
    by (simp add: strlen_c_eq cstr_def you_indicator_def bytes_of_def of_char_def)
  have "name_len ci \<le> length (name ci)" using ci(2) by (simp add: client_wf_def)
  then have "ok (send_direct MSG_TYPE_ADMIN ?d (name ci) (name_len ci) w) (\<lambda>(r, w'). r \<in> {0, -1} \<and> wrote_to ?d w w' \<and>
     (\<exists>s. sent w' ?d = sent w ?d @ s \<and> subseq s (wire (display_name ci, MSG_TYPE_ADMIN, True))))"
    using send_direct_wrote_to [of w ?d "name_len ci" "name ci"] u(2) d unfolding display_name_def by simp
  then obtain r1 w1 s1 where w1: "server_send_message ?d (name ci) (name_len ci) w = Some (r1, w1)"
    "wrote_to ?d w w1" "sent w1 ?d = sent w ?d @ s1" "subseq s1 (wire (display_name ci, MSG_TYPE_ADMIN, True))"
    unfolding server_send_message_def by (auto elim!: okE)
  have op1: "opened w1 ?d" using w1(2) u(2) d by (simp add: wrote_to_def same_core_def)
  have "ok (if ?c = user then server_send_message ?d (you_indicator @ [0]) (length you_indicator) w1
            else server_send_message ?d [10, 0] 1 w1) (\<lambda>(r, w'). wrote_to ?d w1 w' \<and> (\<exists>s. sent w' ?d = sent w1 ?d @ s \<and>
              subseq s (wire (if ?c = user then you_indicator else [10], MSG_TYPE_ADMIN, True))))"
  proof -
    have "ok (send_direct MSG_TYPE_ADMIN ?d msg n w1) (\<lambda>(r, w'). wrote_to ?d w1 w' \<and>
        (\<exists>s. sent w' ?d = sent w1 ?d @ s \<and> subseq s (wire (take n msg, MSG_TYPE_ADMIN, True))))"
      if "n \<le> length msg" for msg n
      by (rule ok_weaken [OF send_direct_wrote_to [OF op1 that]]) auto
    from this [of "length you_indicator" "you_indicator @ [0]"] this [of 1 "[10, 0]"]
    show ?thesis by (simp add: server_send_message_def)
  qed
  then obtain r2 w2 s2 where w2: "(if ?c = user then server_send_message ?d (you_indicator @ [0]) (length you_indicator) w1
            else server_send_message ?d [10, 0] 1 w1) = Some (r2, w2)" "wrote_to ?d w1 w2" "sent w2 ?d = sent w1 ?d @ s2"
    "subseq s2 (wire (if ?c = user then you_indicator else [10], MSG_TYPE_ADMIN, True))"
    by (elim okE) (auto split: prod.splits)
  have t: "wrote_to ?d w w2" using wrote_to_trans w1(2) w2(2) by blast
  then have sc: "same_core w w2" by (simp add: wrote_to_def)
  note k = same_core_keeps [OF Suc.prems(1) sc]
  have same: "fd_of w2 user = ?d" "client_count w2 = client_count w" "list_entry w2 = list_entry w"
    using sc by (simp_all add: fd_of_def same_core_def list_entry_def fun_eq_iff)
  then have "ok (handle_list_from user (i + 1) w2) (\<lambda>w'. wrote_to ?d w2 w' \<and> (\<exists>s. sent w' ?d = sent w2 ?d @ s \<and>
      subseq s (concat (map wire (concat (map (list_entry w user) (drop (i + 1) (roster w))))))))"
    using Suc.hyps(1) [of w2 "i + 1"] Suc.hyps(2) k Suc.prems(2) by simp
  moreover have "drop i (roster w) = ?c # drop (i + 1) (roster w)"
    unfolding roster_def drop_map drop_upt using i by (simp add: upt_conv_Cons)
  then have en: "concat (map wire (concat (map (list_entry w user) (drop i (roster w))))) =
      wire (display_name ci, MSG_TYPE_ADMIN, True) @ wire (if ?c = user then you_indicator else [10], MSG_TYPE_ADMIN, True) @
      concat (map wire (concat (map (list_entry w user) (drop (i + 1) (roster w)))))"
    using ci(1) by (simp add: list_entry_def)
  ultimately have "ok (handle_list_from user (i + 1) w2) (\<lambda>w'. wrote_to ?d w w' \<and> (\<exists>s. sent w' ?d = sent w ?d @ s \<and>
      subseq s (concat (map wire (concat (map (list_entry w user) (drop i (roster w))))))))"
  proof (elim ok_weaken conjE exE, intro conjI)
    fix w' s
    assume w': "wrote_to ?d w2 w'" "sent w' ?d = sent w2 ?d @ s"
      "subseq s (concat (map wire (concat (map (list_entry w user) (drop (i + 1) (roster w))))))"
    show "wrote_to ?d w w'" using t w'(1) by (rule wrote_to_trans)
    have "sent w' ?d = sent w ?d @ s1 @ s2 @ s" using w'(2) w1(3) w2(3) by simp
    moreover have "subseq (s1 @ s2 @ s) (concat (map wire (concat (map (list_entry w user) (drop i (roster w))))))"
      unfolding en by (intro list_emb_append_mono w1(4) w2(4) w'(3))
    ultimately show "\<exists>s. sent w' ?d = sent w ?d @ s \<and>
      subseq s (concat (map wire (concat (map (list_entry w user) (drop i (roster w))))))" by blast
  qed
  then show ?case
    using i at ci(1) u(1) ind w1(1) w2(1) d
    by (subst handle_list_from.simps) (cases "?c = user"; simp)
qed

text \<open>The search ends at the first client whose name is the given one.\<close>

lemma find_target_ok:
  assumes "server_ok w" "0 \<in> set nm"
  shows "\<exists>c. find_target nm i w = Some c \<and>
     (case find (\<lambda>c. case clients w c of None \<Rightarrow> False | Some ci \<Rightarrow> cstr (name ci) = cstr nm) (drop i (roster w))
      of None \<Rightarrow> c = NULL | Some a \<Rightarrow> c = a)"
proof (induction "client_count w - i" arbitrary: i)
  case 0
  then show ?case by (simp add: find_target.simps roster_def)
next
  case (Suc m)
  let ?c = "client_list w i"
  have i: "i < client_count w" using Suc.hyps(2) by simp
  note at = roster_index [OF assms(1) i]
  obtain ci where ci: "clients w ?c = Some ci" "0 \<in> set (name ci)"
    using client_okE [OF server_ok_client [OF assms(1) conjunct2 [OF at]]] .
  have dr: "drop i (roster w) = ?c # drop (Suc i) (roster w)"
    unfolding roster_def drop_map drop_upt add_0 upt_conv_Cons [OF i] by simp
  have "m = client_count w - Suc i" using Suc.hyps(2) by simp
  from Suc.hyps(1) [OF this] show ?case
    using i at ci strcmp_eq_terminated [OF assms(2) ci(2)]
    by (subst find_target.simps) (auto simp: dr)
qed

definition named :: "server \<Rightarrow> byte list \<Rightarrow> ptr option" where
  "named w nm = find (\<lambda>c. case clients w c of None \<Rightarrow> False | Some ci \<Rightarrow> cstr (name ci) = nm) (roster w)"

lemma find_target_named:
  assumes "server_ok w" "0 \<notin> set nm"
  shows "find_target (nm @ [0]) 0 w = Some (case named w nm of None \<Rightarrow> NULL | Some a \<Rightarrow> a)"
  using find_target_ok [OF assms(1), of "nm @ [0]" 0] cstr_append_NUL [OF assms(2), of "[]"]
  by (auto simp: named_def split: option.splits)

lemma named_in_roster: "named w nm = Some c \<Longrightarrow> c \<in> set (roster w)"
  unfolding named_def by (auto simp: find_Some_iff)

section \<open>Whispers\<close>

lemma cstr_NUL_tail: "cstr (t @ 0 # r) = cstr (t @ [0])"
  by (induction t) (simp_all add: cstr_def)

text \<open>The text a terminated block holds, as the code that takes its \<open>strlen\<close> sees it.\<close>

definition text_of :: "byte list \<Rightarrow> byte list" where
  "text_of t = cstr (t @ [0])"

lemma text_of_strlen:
  "strlen_c (t @ 0 # r) = Some (length (text_of t))" "length (text_of t) \<le> length t"
  "take (length (text_of t)) (t @ r) = text_of t"
proof -
  show "strlen_c (t @ 0 # r) = Some (length (text_of t))"
    by (simp add: strlen_c_eq cstr_NUL_tail [of t r] text_of_def)
  show le: "length (text_of t) \<le> length t"
    by (induction t) (auto simp: text_of_def cstr_def)
  show "take (length (text_of t)) (t @ r) = text_of t"
    using cstr_prefix [of "t @ [0]"] le by (simp add: text_of_def)
qed

definition whisper_frame :: "server \<Rightarrow> client_info \<Rightarrow> byte list \<Rightarrow> byte list" where
  "whisper_frame w ci msg = normal_frame (text_of (whisper_text (now w) (display_name ci) msg))"

lemma handle_whisper_spec:
  assumes ok: "server_ok w" "user \<in> set (roster w)" "clients w user = Some ci"
    and args: "0 \<in> set args" "length args \<le> Suc INPUT_MAX"
    and tok: "strtok_r args = Some (tok, rest)"
  shows "ok (handle_whisper user (Some args) w) (\<lambda>(r, w').
     case (if cstr rest = [] then None else named w (the tok)) of
       None \<Rightarrow> r = CMD_WARNING \<and> w' = w
     | Some c \<Rightarrow> r \<in> {CMD_OK, CMD_ERROR} \<and> wrote_to (fd_of w c) w w' \<and>
         live_bufs w' = live_bufs w + (if r = CMD_OK then 0 else 1) \<and>
         (\<exists>s. sent w' (fd_of w c) = sent w (fd_of w c) @ s \<and> subseq s (whisper_frame w ci (cstr rest)) \<and>
            (WrAccept 0 \<notin> set (outq w (fd_of w c)) \<longrightarrow>
               prefix s (whisper_frame w ci (cstr rest)) \<and>
               (r = CMD_OK \<longleftrightarrow> s = whisper_frame w ci (cstr rest)) \<and>
               (absorbs [HEADER_SIZE, length (whisper_frame w ci (cstr rest)) - HEADER_SIZE]
                  (outq w (fd_of w c)) \<noteq> None \<longleftrightarrow> r = CMD_OK))))"
proof -
  have rest: "0 \<in> set rest" "length rest \<le> length args"
    "case tok of None \<Rightarrow> cstr rest = [] | Some t \<Rightarrow> t \<noteq> [] \<and> 0 \<notin> set t \<and> 32 \<notin> set t"
    using strtok_r_terminated [OF args(1)] tok by auto
  have len: "strlen_c rest = Some (length (cstr rest))" using rest(1) by (simp add: strlen_c_eq)
  show ?thesis
  proof (cases "cstr rest = []")
    case True
    then show ?thesis using tok len by (simp add: handle_whisper_def)
  next
    case ne: False
    then obtain t where t: "tok = Some t" "0 \<notin> set t" using rest(3) by (auto split: option.splits)
    show ?thesis
    proof (cases "named w t")
      case None
      then show ?thesis
        using tok len ne t find_target_named [OF ok(1) t(2)] by (simp add: handle_whisper_def)
    next
      case (Some c)
      note cin = named_in_roster [OF Some]
      obtain ti where ti: "clients w c = Some ti" "opened w (client_fd ti)"
        using client_okE [OF server_ok_client [OF ok(1) cin]] .
      have cn: "c \<noteq> NULL" using server_ok_client [OF ok(1) cin] by (simp add: client_ok_def)
      have wf: "client_wf ci"
        using client_okE [OF server_ok_client [OF ok(1,2)]] ok(3) by force
      let ?txt = "whisper_text (now w) (display_name ci) (cstr rest)"
      let ?w1 = "w\<lparr>clock := tl (clock w), mallocs := tl (mallocs w), live_bufs := live_bufs w + 1\<rparr>"
      have bound: "length (cstr rest) \<le> length rest" "length (cstr rest) \<le> INPUT_MAX"
        using length_cstr_less [OF rest(1)] rest(2) args(2) by linarith+
      obtain junk where f: "format_whisper_message user rest (length (cstr rest)) w
          = Some (Some (?txt @ 0 # junk), ?w1)"
        using format_whisper_spec [OF ok(3) wf bound server_ok_parts(3,2) [OF ok(1)]]
          cstr_prefix [of rest, symmetric] by (auto simp: ok_conv)
      let ?n = "length (text_of ?txt)" and ?d = "client_fd ti"
      have d: "fd_of w c = ?d" using ti(1) by (simp add: fd_of_def)
      have n: "?n \<le> length (?txt @ 0 # junk)" "take ?n (?txt @ 0 # junk) = text_of ?txt"
        using text_of_strlen by (simp_all add: le_SucI trans_le_add1)
      have n_eq: "length (whisper_frame w ci (cstr rest)) - HEADER_SIZE = ?n"
        by (simp add: whisper_frame_def normal_frame_def wire_def)
      have op: "opened ?w1 ?d" using ti(2) by simp
      obtain x where x: "send_direct MSG_TYPE_NORMAL ?d (?txt @ 0 # junk) ?n ?w1 = Some x"
        and X: "case x of (r, w') \<Rightarrow> r \<in> {0, -1} \<and>
          (\<exists>o' s. w' = ?w1\<lparr>outq := (outq ?w1)(?d := o'), sent := (sent ?w1)(?d := sent ?w1 ?d @ s)\<rparr> \<and>
          subseq s (whisper_frame w ci (cstr rest)) \<and>
          (WrAccept 0 \<notin> set (outq ?w1 ?d) \<longrightarrow> prefix s (whisper_frame w ci (cstr rest)) \<and>
             (r = 0 \<longleftrightarrow> s = whisper_frame w ci (cstr rest)) \<and>
             absorbs [HEADER_SIZE, ?n] (outq ?w1 ?d) = (if r = 0 then Some o' else None)))"
        using send_direct_spec [OF op n(1), of MSG_TYPE_NORMAL]
        unfolding n(2) whisper_frame_def normal_frame_def by (rule okE)
      obtain r w2 where x2: "x = (r, w2)" by fastforce
      have s: "client_send_direct_message ?d (?txt @ 0 # junk) ?n ?w1 = Some (r, w2)"
        unfolding client_send_direct_message_def x x2 ..
      note S = X [unfolded x2 prod.case]
      obtain o' sx where w2: "w2 = ?w1\<lparr>outq := (outq ?w1)(?d := o'), sent := (sent ?w1)(?d := sent ?w1 ?d @ sx)\<rparr>"
        and sub: "subseq sx (whisper_frame w ci (cstr rest))"
        and sx': "WrAccept 0 \<notin> set (outq ?w1 ?d) \<longrightarrow> prefix sx (whisper_frame w ci (cstr rest)) \<and>
             (r = 0 \<longleftrightarrow> sx = whisper_frame w ci (cstr rest)) \<and>
             absorbs [HEADER_SIZE, ?n] (outq ?w1 ?d) = (if r = 0 then Some o' else None)"
        using S by blast
      have r: "r \<in> {0, -1}" using S by blast
      have sx: "prefix sx (whisper_frame w ci (cstr rest)) \<and>
             (r = 0 \<longleftrightarrow> sx = whisper_frame w ci (cstr rest)) \<and>
             (absorbs [HEADER_SIZE, length (whisper_frame w ci (cstr rest)) - HEADER_SIZE]
                (outq w ?d) \<noteq> None \<longleftrightarrow> r = 0)" if "WrAccept 0 \<notin> set (outq w ?d)"
        using sx' that unfolding n_eq by (simp del: absorbs.simps)
      let ?r = "if r = -1 then CMD_ERROR else CMD_OK"
      let ?w3 = "if r = -1 then w2 else free_buf (Some (?txt @ 0 # junk)) w2"
      have run: "handle_whisper user (Some args) w = Some (?r, ?w3)"
        using tok len ne t find_target_named [OF ok(1) t(2)] Some cn f text_of_strlen(1) ti(1) s
        by (simp add: handle_whisper_def)
      have "set (tl (mallocs w)) \<subseteq> set (mallocs w)" "set (tl (clock w)) \<subseteq> set (clock w)"
        by (simp_all add: set_tl_subset)
      then have "wrote_to ?d w ?w3" "sent ?w3 ?d = sent w ?d @ sx"
        "live_bufs ?w3 = live_bufs w + (if ?r = CMD_OK then 0 else 1)"
        using r by (auto simp: w2 wrote_to_def same_core_def free_buf_def)
      then show ?thesis
        unfolding run using Some ne t d sub sx r by (auto simp del: absorbs.simps)
    qed
  qed
qed

section \<open>Complete messages\<close>

text \<open>What every completed message of \<open>c\<close> leaves of the server: of the others only the output side may change.\<close>

definition in_order :: "ptr \<Rightarrow> server \<Rightarrow> server \<Rightarrow> bool" where
  "in_order c w w' \<longleftrightarrow> server_ok w' \<and> client_list w' = client_list w \<and> client_count w' = client_count w \<and>
     client_mutex w' = client_mutex w \<and> inq w' = inq w \<and> server_fd w' = server_fd w \<and>
     (\<forall>a \<in> set (roster w). \<exists>ci ci'. clients w a = Some ci \<and> clients w' a = Some ci' \<and> in_kept ci ci' \<and>
        (a \<noteq> c \<longrightarrow> out_fields ci ci'))"

lemma in_order_roster: "in_order c w w' \<Longrightarrow> roster w' = roster w"
  by (simp add: in_order_def roster_def)

lemma in_orderD:
  "in_order c w w' \<Longrightarrow> server_ok w' \<and> client_mutex w' = client_mutex w \<and> roster w' = roster w \<and> inq w' = inq w"
  by (simp add: in_order_def roster_def)

lemma roster_alive: "server_ok w \<Longrightarrow> a \<in> set (roster w) \<Longrightarrow> \<exists>ci. clients w a = Some ci"
  by (auto dest!: server_ok_client elim!: client_okE)

lemma in_order_core:
  assumes "server_ok w" "same_core w w'" "client_mutex w' = client_mutex w"
  shows "in_order c w w'"
proof -
  have cl: "clients w' = clients w" using assms(2) by (simp add: same_core_def)
  have "\<exists>ci ci'. clients w a = Some ci \<and> clients w' a = Some ci' \<and> in_kept ci ci' \<and> (a \<noteq> c \<longrightarrow> out_fields ci ci')"
    if "a \<in> set (roster w)" for a
    unfolding cl using roster_alive [OF assms(1) that] in_kept_refl out_fields_refl by blast
  then show ?thesis
    using same_core_keeps [OF assms(1,2)] assms(2,3) by (simp add: in_order_def same_core_def)
qed

lemma in_order_refl: "server_ok w \<Longrightarrow> in_order c w w"
  by (rule in_order_core) simp_all

lemma in_order_trans:
  assumes "in_order c w w1" "in_order c w1 w2"
  shows "in_order c w w2"
proof -
  have "\<exists>ci ci'. clients w a = Some ci \<and> clients w2 a = Some ci' \<and> in_kept ci ci' \<and> (a \<noteq> c \<longrightarrow> out_fields ci ci')"
    if a: "a \<in> set (roster w)" for a
  proof -
    obtain ci c1 where 1: "clients w a = Some ci" "clients w1 a = Some c1" "in_kept ci c1"
      "a \<noteq> c \<longrightarrow> out_fields ci c1"
      using assms(1) a unfolding in_order_def by blast
    obtain c2 where 2: "clients w2 a = Some c2" "in_kept c1 c2" "a \<noteq> c \<longrightarrow> out_fields c1 c2"
      using assms(2) a 1(2) in_order_roster [OF assms(1)] unfolding in_order_def by fastforce
    show ?thesis using 1(1,4) 2(1,3) in_kept_trans [OF 1(3) 2(2)] out_fields_trans by blast
  qed
  then show ?thesis using assms by (simp add: in_order_def)
qed

lemma in_order_shutdown [simp]: "in_order c w (w'\<lparr>server_shutdown := s\<rparr>) = in_order c w w'"
proof -
  have "same_core w' (w'\<lparr>server_shutdown := s\<rparr>)" "same_core (w'\<lparr>server_shutdown := s\<rparr>) w'"
    by (simp_all add: same_core_def)
  then show ?thesis using same_core_keeps(1) by (auto simp: in_order_def)
qed

lemma in_order_evolves:
  assumes "server_ok w" "c \<in> set (roster w)" "evolves c w w'" "inq w' = inq w"
    and "clients w c = Some ci" "clients w' c = Some ci'" "in_kept ci ci'"
  shows "in_order c w w'"
proof -
  have "\<exists>ci ci'. clients w a = Some ci \<and> clients w' a = Some ci' \<and> in_kept ci ci' \<and> (a \<noteq> c \<longrightarrow> out_fields ci ci')"
    if "a \<in> set (roster w)" for a
    using that evolves_other(1) [OF assms(1,2) that _ assms(3)] roster_alive [OF assms(1) that] assms(5-7)
    by (cases "a = c") auto
  then show ?thesis
    using evolves_keeps [OF assms(1-3)] assms(3,4) by (auto simp: in_order_def evolves_def touches_def)
qed

lemma in_order_broadcasted:
  "broadcasted sender f n cs w w' \<Longrightarrow> in_order c w w'"
  using out_fields_in_kept unfolding broadcasted_def in_order_def by blast

lemma chat_line_spec:
  assumes ok: "server_ok w" "\<not> client_mutex w" "c \<in> set (roster w)" "clients w c = Some ci"
    and named: "has_name ci \<noteq> 0" and line: "slice payload 0 1 = Some [b]" "b \<noteq> 47"
  defines "txt \<equiv> text_of (chat_text (now w) (display_name ci) (message_of ci))"
  shows "ok (process_payload c (Some payload) w) (\<lambda>(r, w'). r = 0 \<and> in_order c w w' \<and>
     clients w' c = clients w c \<and> server_shutdown w' = server_shutdown w \<and>
     (\<forall>a \<in> set (roster w).
        stream w' a = stream w a @ (if wanted w c (length txt) a then normal_frame txt else []) \<and>
        prefix (chan_sent a w) (chan_sent a w') \<and>
        (\<exists>ci ci'. clients w a = Some ci \<and> clients w' a = Some ci' \<and> out_fields ci ci')))"
proof -
  obtain cj where "clients w c = Some cj" "client_wf cj" "partial_len cj \<le> INPUT_MAX"
    using client_okE [OF server_ok_client [OF ok(1,3)]] .
  then have wf: "client_wf ci" and len: "partial_len ci \<le> INPUT_MAX"
    using ok(4) by simp_all
  let ?full = "chat_text (now w) (display_name ci) (message_of ci)"
  let ?w1 = "w\<lparr>clock := tl (clock w), mallocs := tl (mallocs w), live_bufs := live_bufs w + 1\<rparr>"
  have f: "format_chat_message c w = Some (Some (?full @ [0]), ?w1)"
    using format_chat_spec [OF ok(4) wf len server_ok_parts(3,2) [OF ok(1)]] .
  have sc: "same_core w ?w1" by (simp add: same_core_def set_tl_subset)
  note k1 = same_core_keeps [OF ok(1) sc]
  have st1: "stream ?w1 = stream w" "wanted ?w1 = wanted w" "chan_sent a ?w1 = chan_sent a w" for a
    by (rule same_core_stream [OF sc]; simp)+
  have "length ?full \<le> 14 + name_len ci + partial_len ci"
    using length_display_name [OF wf] length_message_of [OF wf] by (simp add: chat_text_def)
  then have n: "length txt \<le> length (?full @ [0])" "length txt < 2 ^ 62"
    using text_of_strlen(2) [of ?full] len wf
    by (simp_all add: txt_def client_wf_def INPUT_MAX_def NAME_MAX_def)
  have tk: "take (length txt) (?full @ [0]) = txt"
    unfolding txt_def by (rule text_of_strlen(3))
  obtain w2 where b: "broadcast c (?full @ [0]) (length txt) ?w1 = Some (0, w2)"
    and B: "broadcasted c (normal_frame txt) (length txt) (set (roster w)) ?w1 w2"
    using broadcast_spec [OF k1(1) _ n, of c] ok(2) tk k1(2) by (auto simp: ok_conv)
  let ?w3 = "free_buf (Some (?full @ [0])) w2"
  have run: "process_payload c (Some payload) w = Some (0, ?w3)"
    using ok(4) named line f text_of_strlen(1) [of ?full "[]"] b
    by (simp add: process_payload_def txt_def)
  have sc3: "same_core w2 ?w3" and s3: "sent ?w3 = sent w2" by (simp_all add: same_core_def free_buf_def)
  have st3: "stream ?w3 = stream w2" "chan_sent a ?w3 = chan_sent a w2" for a
    by (rule same_core_stream [OF sc3 s3])+
  have o2: "in_order c ?w1 w2" using B by (rule in_order_broadcasted)
  then have "in_order c w2 ?w3"
    by (intro in_order_core [OF _ sc3]) (simp_all add: in_order_def free_buf_def)
  then have o3: "in_order c w ?w3"
  proof -
    have "in_order c w ?w1" by (rule in_order_core [OF ok(1) sc]) simp
    then show ?thesis using o2 \<open>in_order c w2 ?w3\<close> in_order_trans by blast
  qed
  have ro: "roster ?w1 = roster w" by (rule k1(2))
  have "clients ?w3 c = clients w c"
    using B ok(3) unfolding broadcasted_def ro by (simp add: free_buf_def)
  moreover have "server_shutdown ?w3 = server_shutdown w" using B by (simp add: broadcasted_def free_buf_def)
  moreover have "stream ?w3 a = stream w a @ (if wanted w c (length txt) a then normal_frame txt else []) \<and>
      prefix (chan_sent a w) (chan_sent a ?w3) \<and>
      (\<exists>ci ci'. clients w a = Some ci \<and> clients ?w3 a = Some ci' \<and> out_fields ci ci')"
    if "a \<in> set (roster w)" for a
    using B that unfolding broadcasted_def ro st1 st3 by (simp add: free_buf_def)
  ultimately show ?thesis unfolding run using o3 by simp
qed

lemma name_message_spec:
  assumes ok: "server_ok w" "c \<in> set (roster w)" "clients w c = Some ci" and "has_name ci = 0"
  shows "ok (process_payload c payload w) (\<lambda>(r, w'). r = 0 \<and> in_order c w w' \<and>
     (\<exists>ci'. w' = set_client c ci' w \<and> has_name ci' = 1 \<and>
        display_name ci' = take (NAME_MAX - 1) (message_of ci) \<and>
        cstr (name ci') = text_of (take (NAME_MAX - 1) (message_of ci)) \<and>
        msg_queue ci' = msg_queue ci \<and> client_fd ci' = client_fd ci \<and> closed ci' = closed ci))"
proof -
  obtain cj where "clients w c = Some cj" "client_wf cj" "partial_len cj \<le> INPUT_MAX"
    using client_okE [OF server_ok_client [OF ok(1,2)]] .
  then have wf: "client_wf ci" and len: "partial_len ci \<le> INPUT_MAX" using ok(3) by simp_all
  obtain c1 where s: "store_client_name c w = Some (0, set_client c c1 w)"
    and c1: "c1 = ci\<lparr>partial_len := name_len c1, name := name c1, name_len := name_len c1\<rparr>"
    and wf1: "client_wf (c1\<lparr>has_name := 1\<rparr>)"
    and nl: "name_len c1 = min (NAME_MAX - 1) (partial_len ci)"
    and nm: "take (Suc (name_len c1)) (name c1) = take (name_len c1) (message_of ci) @ [0]"
    using store_name_spec [OF ok(3) wf] by blast
  let ?c2 = "c1\<lparr>has_name := 1\<rparr>"
  have sel: "client_fd ?c2 = client_fd ci" "msg_queue ?c2 = msg_queue ci" "closed ?c2 = closed ci"
    "state ?c2 = state ci" "payload_bytes_read ?c2 = payload_bytes_read ci"
    "partial_len ?c2 = name_len c1"
    by (simp, subst c1, simp)+
  have lm: "length (message_of ci) = partial_len ci" using length_message_of [OF wf] .
  have cut: "take (name_len c1) (message_of ci) = take (NAME_MAX - 1) (message_of ci)"
    using lm by (simp add: nl min_def)
  have nm': "name c1 = take (NAME_MAX - 1) (message_of ci) @ 0 # drop (Suc (name_len c1)) (name c1)"
    using append_take_drop_id [of "Suc (name_len c1)" "name c1"] unfolding nm cut by simp
  have dn: "display_name ?c2 = take (NAME_MAX - 1) (message_of ci)"
  proof -
    have "take (name_len c1) (name c1) = take (name_len c1) (take (Suc (name_len c1)) (name c1))" by simp
    also have "\<dots> = take (NAME_MAX - 1) (message_of ci)"
      unfolding nm using lm cut by (simp add: nl)
    finally show ?thesis by (simp add: display_name_def)
  qed
  have cs: "cstr (name ?c2) = text_of (take (NAME_MAX - 1) (message_of ci))"
    using arg_cong [OF nm', of cstr] by (simp add: text_of_def cstr_NUL_tail [of _ "drop _ _"])
  have "0 \<in> set (name ?c2)" using arg_cong [OF nm', of set] by simp
  moreover have "partial_len ?c2 \<le> INPUT_MAX" using len nl sel(6) by simp
  ultimately have "evolves c w (set_client c ?c2 w)"
    using client_step_evolves [OF server_ok_client [OF ok(1,2)] server_ok_parts(1) [OF ok(1)] ok(3) sel(1,2) wf1]
    by blast
  moreover have "in_kept ci ?c2" using sel nl by (simp add: in_kept_def)
  ultimately have "in_order c w (set_client c ?c2 w)"
    by (intro in_order_evolves [OF ok(1,2) _ _ ok(3)]) simp_all
  moreover have "process_payload c payload w = Some (0, set_client c ?c2 w)"
    using ok(3) assms(4) s by (simp add: process_payload_def set_client_def)
  ultimately show ?thesis using dn cs sel by auto
qed

lemma lower_cmd_terminated:
  "0 \<notin> set t \<Longrightarrow> strlen_c (t @ [0]) = Some (length t) \<and>
     make_lowercase (t @ [0]) (length t) = Some (map lower_byte t @ [0])"
  by (simp add: strlen_c_eq cstr_append_NUL make_lowercase_def)

lemma server_command_safe:
  assumes ok: "server_ok w" "c \<in> set (roster w)" and args: "0 \<in> set rest" "length rest \<le> Suc INPUT_MAX"
  shows "ok (server_handle_command c (t @ [0]) (Some rest) w) (\<lambda>(res, w'). in_order c w w')"
proof -
  obtain ci where ci: "clients w c = Some ci" using client_okE [OF server_ok_client [OF ok]] .
  obtain k where k: "find_command (t @ [0]) = Some k" using find_command_total [of "t @ [0]"] by auto
  have self: "in_order c w w" using ok(1) by (rule in_order_refl)
  show ?thesis
  proof (cases k)
    case CMD_LIST
    obtain w1 where w1: "handle_list_from c 0 w = Some w1" "wrote_to (fd_of w c) w w1"
      using handle_list_from_ok [OF ok, of 0] by (auto simp: ok_conv)
    have "in_order c w w1" by (rule in_order_core [OF ok(1)]) (use w1(2) in \<open>simp_all add: wrote_to_def\<close>)
    then show ?thesis using k CMD_LIST w1(1) by (simp add: server_handle_command_def handle_list_def)
  next
    case CMD_WHISPER
    obtain tok r0 where tok: "strtok_r rest = Some (tok, r0)"
      using strtok_r_terminated [OF args(1)] by (auto simp: ok_conv)
    have "ok (handle_whisper c (Some rest) w) (\<lambda>(res, w'). in_order c w w')"
      by (rule ok_weaken [OF handle_whisper_spec [OF ok ci args tok]])
         (auto simp: self wrote_to_def intro!: in_order_core [OF ok(1)] split: option.splits if_splits)
    then show ?thesis using k CMD_WHISPER by (simp add: server_handle_command_def)
  qed (use k self in \<open>simp_all add: server_handle_command_def handle_shutdown_def\<close>)
qed

lemma command_line_spec:
  assumes ok: "server_ok w" "c \<in> set (roster w)" "clients w c = Some ci"
    and named: "has_name ci \<noteq> 0" and pl: "0 \<in> set payload" "length payload \<le> Suc INPUT_MAX"
    and line: "slice payload 0 1 = Some [47]"
  shows "ok (process_payload c (Some payload) w) (\<lambda>(r, w'). in_order c w w' \<and>
     (\<exists>t rest res. strtok_r payload = Some (Some t, rest) \<and>
        server_handle_command c (map lower_byte t @ [0]) (Some rest) w = Some (res, w') \<and>
        r = (if res = CMD_DISCONNECT \<or> res = CMD_ERROR then -1 else 0)))"
proof -
  obtain tok rest where tok: "strtok_r payload = Some (tok, rest)" "0 \<in> set rest" "length rest \<le> length payload"
    and cs: "case tok of None \<Rightarrow> cstr rest = [] | Some t \<Rightarrow> t \<noteq> [] \<and> 0 \<notin> set t \<and> 32 \<notin> set t"
    using strtok_r_terminated [OF pl(1)] by (auto simp: ok_conv)
  obtain bs where "payload = 47 # bs" using line by (cases payload) (auto simp: slice_def)
  then have "tok \<noteq> None" using tok(1) by (auto simp: strtok_r_def Let_def split: list.splits)
  then obtain t where t: "tok = Some t" "0 \<notin> set t" using cs by auto
  have len: "length rest \<le> Suc INPUT_MAX" using tok(3) pl(2) by linarith
  obtain res w1 where h: "server_handle_command c (map lower_byte t @ [0]) (Some rest) w = Some (res, w1)"
    "in_order c w w1"
    using server_command_safe [OF ok(1,2) tok(2) len, of "map lower_byte t"] by (auto simp: ok_conv)
  have "process_payload c (Some payload) w =
      Some (if res = CMD_DISCONNECT \<or> res = CMD_ERROR then -1 else 0, w1)"
    using ok(3) named line tok(1) t lower_cmd_terminated [OF t(2)] h(1) by (simp add: process_payload_def)
  then show ?thesis using h tok(1) t(1) by auto
qed

text \<open>Every complete message is handled: no run of the dispatcher lacks an outcome.\<close>

lemma process_payload_safe:
  assumes ok: "server_ok w" "\<not> client_mutex w" "c \<in> set (roster w)" "clients w c = Some ci"
    and pl: "0 \<in> set payload" "length payload \<le> Suc INPUT_MAX"
  shows "ok (process_payload c (Some payload) w) (\<lambda>(r, w'). r \<in> {0, -1} \<and> in_order c w w')"
proof (cases "has_name ci = 0")
  case True
  show ?thesis by (rule ok_weaken [OF name_message_spec [OF ok(1,3,4) True]]) auto
next
  case named: False
  obtain b bs where b: "slice payload 0 1 = Some [b]" using pl(1) by (cases payload) (auto simp: slice_def)
  show ?thesis
  proof (cases "b = 47")
    case True
    show ?thesis
      by (rule ok_weaken [OF command_line_spec [OF ok(1,3,4) named pl]]) (use b True in auto)
  next
    case False
    show ?thesis by (rule ok_weaken [OF chat_line_spec [OF ok named b False]]) auto
  qed
qed

section \<open>Properties\<close>

text \<open>
  Claim C7. A chat line reaches everyone else. When a client that has a name completes a message
  that is not a command, the handler succeeds and keeps the server in order, and every other open
  client whose queue has room for the frame gets exactly one frame, \<open>[HH:MM:SS] name: message\<close> and a newline
  (cut at the first NUL byte, if the name or the message holds one); a client without room gets nothing, and nobody is
  told. The stream of the sender, and of everyone else, is what it was. The sender's own structure does not change.
\<close>

theorem chat_line_reaches_everyone:
  assumes "server_ok w" "\<not> client_mutex w" "c \<in> set (roster w)" "clients w c = Some ci"
    and "has_name ci = 1" "take 1 (message_of ci) \<noteq> [47]"
    and "txt = text_of (stamp (now w) @ [32] @ display_name ci @ [58, 32] @ message_of ci @ [10])"
  shows "ok (process_payload c (Some (message_of ci @ [0])) w) (\<lambda>(r, w'). r = 0 \<and> server_ok w' \<and>
     \<not> client_mutex w' \<and> roster w' = roster w \<and> clients w' c = clients w c \<and>
     (\<forall>a \<in> set (roster w).
        stream w' a = stream w a @ (if wanted w c (length txt) a then normal_frame txt else []) \<and>
        prefix (chan_sent a w) (chan_sent a w')))"
proof -
  obtain b where b: "slice (message_of ci @ [0]) 0 1 = Some [b]" "b \<noteq> 47"
    using assms(6) by (cases "message_of ci") (auto simp: slice_def)
  have named: "has_name ci \<noteq> 0" using assms(5) by simp
  have t: "txt = text_of (chat_text (now w) (display_name ci) (message_of ci))"
    by (simp add: assms(7) chat_text_def)
  show ?thesis
    by (rule ok_weaken [OF chat_line_spec [OF assms(1-4) named b]])
       (use assms(2) in \<open>auto simp: t dest: in_orderD\<close>)
qed

theorem chat_line_reaches_everyone_witness:
  "ok (process_payload 16 (Some [72, 105, 0]) (two_clients [] [72, 105])) (\<lambda>(r, w'). r = 0 \<and>
     stream w' 32 = normal_frame (text_of (stamp (0, 0, 0) @ [32, 65, 58, 32, 72, 105, 10])) \<and>
     stream w' 16 = [])"
proof -
  let ?t = "text_of (stamp (0, 0, 0) @ [32, 65, 58, 32, 72, 105, 10])"
  have "length ?t \<le> 17" using text_of_strlen(2) [of "stamp (0, 0, 0) @ [32, 65, 58, 32, 72, 105, 10]"] by simp
  then have w: "wanted (two_clients [] [72, 105]) 16 (length ?t) 32"
    by (simp add: wanted_def fits_def HEADER_SIZE_def MSG_SIZE_LIMIT_def)
  have "server_ok (two_clients [] [72, 105])" by (rule two_clients_ok) (simp add: BUF_SIZE_def)
  then show ?thesis
    using chat_line_reaches_everyone [of "two_clients [] [72, 105]" 16 "plain_client 7 [65] [72, 105]" ?t] w
    by (auto simp: ok_conv display_name_def now_def wanted_def)
qed

text \<open>
  Claim C20. The first message of a client is its name: it is stored, cut to 63 bytes and
  terminated, the client counts as named from then on, and nothing is sent to anyone.
\<close>

theorem first_message_is_name:
  assumes "server_ok w" "c \<in> set (roster w)" "clients w c = Some ci" "has_name ci = 0"
  shows "ok (process_payload c payload w) (\<lambda>(r, w'). r = 0 \<and> server_ok w' \<and>
     (\<exists>ci'. w' = w\<lparr>clients := (clients w)(c \<mapsto> ci')\<rparr> \<and> has_name ci' = 1 \<and>
        display_name ci' = take 63 (message_of ci) \<and>
        cstr (name ci') = text_of (take 63 (message_of ci)) \<and>
        msg_queue ci' = msg_queue ci \<and> client_fd ci' = client_fd ci \<and> closed ci' = closed ci))"
  by (rule ok_weaken [OF name_message_spec [OF assms]])
     (auto simp: in_order_def NAME_MAX_def set_client_def)

definition unnamed_first :: server where
  "unnamed_first = (let w = two_clients [] [67] in
     w\<lparr>clients := (clients w)(16 \<mapsto> (plain_client 7 [] [67])\<lparr>has_name := 0\<rparr>)\<rparr>)"

theorem first_message_is_name_witness:
  "ok (process_payload 16 None unnamed_first) (\<lambda>(r, w'). r = 0 \<and>
     (\<exists>ci'. clients w' 16 = Some ci' \<and> display_name ci' = [67]))"
proof -
  let ?w = "two_clients [] [67]" and ?ci = "(plain_client 7 [] [67])\<lparr>has_name := 0\<rparr>"
  have eq: "unnamed_first = set_client 16 ?ci ?w" by (simp add: unnamed_first_def set_client_def)
  have ok: "server_ok ?w" by (rule two_clients_ok) (simp add: BUF_SIZE_def)
  have "client_wf (plain_client 7 [] [67])" by (rule client_wf_plain) (simp_all add: NAME_MAX_def BUF_SIZE_def)
  then have "client_wf ?ci" by (simp add: client_wf_def)
  then have "evolves 16 ?w (set_client 16 ?ci ?w)"
    using server_ok_client [OF ok, of 16] server_ok_parts(1) [OF ok]
    by (intro client_step_evolves [of _ _ "plain_client 7 [65] [67]"]) (auto simp: INPUT_MAX_def NAME_MAX_def)
  from evolves_keeps [OF ok _ this] have "server_ok unnamed_first" "roster unnamed_first = [16, 32]"
    by (simp_all add: eq)
  then show ?thesis
    using first_message_is_name [of unnamed_first 16 ?ci None]
    by (auto simp: eq ok_conv message_of_def plain_client_def fresh_client_def)
qed

text \<open>
  Claim C21. Any named client can stop the server: a message whose first word is \<open>/shutdown\<close> in any
  mixture of cases raises the shutdown flag, changes nothing else and makes the caller disconnect
  its sender. The code asks for no privilege.
\<close>

theorem shutdown_command_stops_server:
  assumes "server_ok w" "c \<in> set (roster w)" "clients w c = Some ci" "has_name ci = 1"
    and "map lower_byte word = bytes_of ''/shutdown''" "word = 47 # word'" "32 \<notin> set word" "0 \<notin> set word"
  shows "process_payload c (Some (word @ 0 # r)) w = Some (-1, w\<lparr>server_shutdown := 1\<rparr>)"
proof -
  have "strtok_r (word @ 0 # r) = Some (Some word, 0 # r)"
  proof -
    have t: "takeWhile (\<lambda>c. c \<noteq> 32 \<and> c \<noteq> 0) (word @ 0 # r) = word"
      using assms(7,8) by (subst takeWhile_append2) auto
    have "dropWhile (\<lambda>b. b = 32) (word @ 0 # r) = 47 # word' @ 0 # r" by (simp add: assms(6))
    then show ?thesis using t by (simp add: strtok_r_def Let_def assms(6))
  qed
  moreover have "find_command (map lower_byte word @ [0]) = Some CMD_SHUTDOWN"
    using find_command_eq [of "map lower_byte word @ [0]"] unfolding assms(5)
    by (simp add: bytes_of_def of_char_def cstr_def)
  moreover have "slice (word @ 0 # r) 0 1 = Some [47]" by (simp add: slice_def assms(6))
  ultimately show ?thesis
    using assms(3,4) lower_cmd_terminated [OF assms(8)]
    by (simp add: process_payload_def server_handle_command_def handle_shutdown_def)
qed

theorem shutdown_command_stops_server_witness:
  "process_payload 16 (Some (bytes_of ''/ShutDown'' @ [0])) (two_clients [] (bytes_of ''/ShutDown''))
     = Some (-1, (two_clients [] (bytes_of ''/ShutDown''))\<lparr>server_shutdown := 1\<rparr>)"
proof -
  let ?w = "two_clients [] (bytes_of ''/ShutDown'')"
  have "server_ok ?w" by (rule two_clients_ok) (simp add: BUF_SIZE_def bytes_of_def)
  moreover have "map lower_byte (bytes_of ''/ShutDown'') = bytes_of ''/shutdown''"
    "bytes_of ''/ShutDown'' = 47 # bytes_of ''ShutDown''"
    "32 \<notin> set (bytes_of ''/ShutDown'')" "0 \<notin> set (bytes_of ''/ShutDown'')"
    by (simp_all add: bytes_of_def of_char_def lower_byte_def)
  ultimately show ?thesis
    by (intro shutdown_command_stops_server [where ci = "plain_client 7 [65] (bytes_of ''/ShutDown'')"])
       simp_all
qed

text \<open>
  Claim C19. A whisper goes straight to the first client of that name. With no message or no such
  client nothing happens. Otherwise one frame with the formatted text is written to the target's
  descriptor, past its queue. Whether that succeeds is decided by the target's socket alone: when it
  takes the header and the text, the whole frame is transmitted, the handler reports success and
  the text is freed; when it does not, a part of the frame, never all of it, has been transmitted,
  the handler reports an error and the text is never freed.
\<close>

theorem whisper_goes_direct:
  assumes "server_ok w" "user \<in> set (roster w)" "clients w user = Some ci"
    and "0 \<in> set args" "length args \<le> INPUT_MAX" "strtok_r args = Some (tok, rest)"
    and "\<forall>d. WrAccept 0 \<notin> set (outq w d)"
    and "frame = whisper_frame w ci (cstr rest)"
  shows "ok (handle_whisper user (Some args) w) (\<lambda>(r, w').
     case (if cstr rest = [] then None else named w (the tok)) of
       None \<Rightarrow> r = CMD_WARNING \<and> w' = w
     | Some c \<Rightarrow> server_ok w' \<and> chan_pending c w' = chan_pending c w \<and>
         (if absorbs [HEADER_SIZE, length frame - HEADER_SIZE] (outq w (fd_of w c)) = None
          then r = CMD_ERROR \<and> live_bufs w' = live_bufs w + 1 \<and>
               (\<exists>s. chan_sent c w' = chan_sent c w @ s \<and> strict_prefix s frame)
          else r = CMD_OK \<and> live_bufs w' = live_bufs w \<and>
               chan_sent c w' = chan_sent c w @ frame))"
proof (rule ok_weaken [OF handle_whisper_spec [OF assms(1-4) _ assms(6)]], goal_cases)
  case 1
  then show ?case using assms(5) by simp
next
  case (2 x)
  obtain r w' where x: "x = (r, w')" by fastforce
  show ?case
  proof (cases "if cstr rest = [] then None else named w (the tok)")
    case None
    then show ?thesis using 2 by (simp add: x)
  next
    case (Some c)
    let ?ab = "absorbs [HEADER_SIZE, length frame - HEADER_SIZE] (outq w (fd_of w c))"
    have wr: "wrote_to (fd_of w c) w w'" using 2 Some by (simp add: x)
    then have sc: "same_core w w'" by (simp add: wrote_to_def)
    have "c \<in> set (roster w)" using Some named_in_roster by (auto split: if_splits)
    then obtain cj where cj: "clients w c = Some cj" using roster_alive [OF assms(1)] by blast
    have pend: "chan_pending c w' = chan_pending c w"
      using sc same_core_queue_cells [OF sc] by (simp add: chan_pending_def same_core_def split: option.split)
    have cs: "chan_sent c w' = sent w' (fd_of w c)" "chan_sent c w = sent w (fd_of w c)"
      using cj sc by (simp_all add: chan_sent_def fd_of_def same_core_def)
    obtain s where s: "sent w' (fd_of w c) = sent w (fd_of w c) @ s" "prefix s frame"
      "r = CMD_OK \<longleftrightarrow> s = frame" "?ab \<noteq> None \<longleftrightarrow> r = CMD_OK"
      using 2 Some assms(7) unfolding x assms(8) [symmetric] prod.case by (auto simp del: absorbs.simps)
    have r: "r \<in> {CMD_OK, CMD_ERROR}" "live_bufs w' = live_bufs w + (if r = CMD_OK then 0 else 1)"
      using 2 Some by (simp_all add: x)
    have "server_ok w'" by (rule same_core_keeps(1) [OF assms(1) sc])
    then show ?thesis
      using Some pend cs s r unfolding x by (cases "r = CMD_OK") (auto simp: strict_prefix_def simp del: absorbs.simps)
  qed
qed

text \<open>The two clients, with a socket of the second that takes a header and 94 bytes more.\<close>

definition whisper_ready :: server where
  "whisper_ready = (two_clients [] [])\<lparr>outq := (\<lambda>_. [WrAccept 6, WrAccept 3, WrErr EINTR, WrAccept 91])\<rparr>"

theorem whisper_goes_direct_witness:
  "ok (handle_whisper 16 (Some [66, 32, 72, 105, 0]) whisper_ready) (\<lambda>(r, w').
     r = CMD_OK \<and> live_bufs w' = live_bufs whisper_ready \<and>
     chan_sent 32 w' = whisper_frame whisper_ready (plain_client 7 [65] []) [72, 105])"
proof -
  have core: "same_core (two_clients [] []) whisper_ready"
    by (simp add: whisper_ready_def same_core_def)
  have "server_ok (two_clients [] [])" by (rule two_clients_ok) simp
  then have ok: "server_ok whisper_ready" using same_core_keeps(1) core by blast
  have sel: "roster whisper_ready = roster (two_clients [] [])"
    "clients whisper_ready = clients (two_clients [] [])" "sent whisper_ready = sent (two_clients [] [])"
    by (simp_all add: whisper_ready_def roster_def)
  have tok: "strtok_r [66, 32, 72, 105, 0] = Some (Some [66], [72, 105, 0])" by (simp add: strtok_r_def)
  have nm: "named whisper_ready [66] = Some 32"
    by (simp add: named_def sel cstr_def NAME_MAX_def)
  have cs: "cstr [72, 105, 0] = [72, 105]" by (simp add: cstr_def)
  have out: "\<forall>d. WrAccept 0 \<notin> set (outq whisper_ready d)" by (simp add: whisper_ready_def)
  let ?f = "whisper_frame whisper_ready (plain_client 7 [65] []) [72, 105]"
  have "length ?f - HEADER_SIZE \<le> 90"
    using text_of_strlen(2) [of "whisper_text (now whisper_ready) (display_name (plain_client 7 [65] [])) [72, 105]"]
    by (simp add: whisper_frame_def normal_frame_def wire_def whisper_text_def whisper_thing_def
        bytes_of_def display_name_def NAME_MAX_def)
  then have takes: "absorbs [HEADER_SIZE, length ?f - HEADER_SIZE] (outq whisper_ready (fd_of whisper_ready 32)) \<noteq> None"
    by (simp add: whisper_ready_def HEADER_SIZE_def)
  have start: "chan_sent 32 whisper_ready = []" by (simp add: chan_sent_def sel)
  show ?thesis
    by (rule ok_weaken [OF whisper_goes_direct [OF ok _ _ _ _ tok out refl, of 16 "plain_client 7 [65] []"]])
       (use takes in \<open>auto simp: sel INPUT_MAX_def cs nm start simp del: absorbs.simps\<close>)
qed

end
