(* ===== verification/Chat_Room.thy ===== *)
theory Chat_Room
  imports Chat_Command "HOL-Library.Multiset"
begin

text \<open>
  The chat room: what the server promises to the people connected to it, without addresses, queues,
  headers or descriptors. A room has members in a fixed order; each is known once it has given a
  nickname, and has the bytes it got and the bytes still due to it. \<open>room_of\<close> is the room a server implements, and
  the dispatch of complete messages (src/server/process_payload.c) is shown to be a step of it.
\<close>

section \<open>The room\<close>

text \<open>
  \<open>label\<close> is what the member is addressed by: its name field read as a string, whatever it holds before
  the member is known.
\<close>

record member =
  known :: bool
  nick :: "byte list"
  label :: "byte list"
  got :: "byte list"
  due :: "byte list"
  leaving :: bool

record room =
  seats :: "ptr list"
  info :: "ptr \<Rightarrow> member option"
  halting :: bool

text \<open>\<open>served f m m'\<close>: some of what was due arrived, and \<open>f\<close> was added to what is due.\<close>

definition served :: "byte list \<Rightarrow> member \<Rightarrow> member \<Rightarrow> bool" where
  "served f m m' \<longleftrightarrow> known m' = known m \<and> nick m' = nick m \<and> label m' = label m \<and> (leaving m \<longrightarrow> leaving m') \<and>
     prefix (got m) (got m') \<and> got m' @ due m' = got m @ due m @ f"

text \<open>Who hears \<open>n\<close> bytes said by \<open>c\<close>: everyone else who stays and has room for a frame of them.\<close>

definition hears :: "ptr \<Rightarrow> nat \<Rightarrow> ptr \<Rightarrow> member \<Rightarrow> bool" where
  "hears c n a m \<longleftrightarrow> a \<noteq> c \<and> \<not> leaving m \<and> length (due m) + HEADER_SIZE + n \<le> MSG_SIZE_LIMIT"

definition spread :: "ptr \<Rightarrow> byte list \<Rightarrow> room \<Rightarrow> room \<Rightarrow> bool" where
  "spread c txt r r' \<longleftrightarrow> seats r' = seats r \<and> halting r' = halting r \<and>
     (\<forall>a. a \<notin> set (seats r) \<longrightarrow> info r' a = info r a) \<and>
     (\<forall>a \<in> set (seats r). \<exists>m m'. info r a = Some m \<and> info r' a = Some m' \<and>
        served (if hears c (length txt) a m then normal_frame txt else []) m m')"

text \<open>The command of a message with what follows it, and who is meant by a name.\<close>

definition command_of :: "byte list \<Rightarrow> (cmd \<times> byte list) option" where
  "command_of msg = do {
     (tok, rest) \<leftarrow> strtok_r (msg @ [0]);
     t \<leftarrow> tok;
     k \<leftarrow> find_command (map lower_byte t @ [0]);
     Some (k, rest)
   }"

definition addressed :: "room \<Rightarrow> byte list \<Rightarrow> ptr option" where
  "addressed r who = find (\<lambda>a. case info r a of None \<Rightarrow> False | Some m \<Rightarrow> label m = who) (seats r)"

text \<open>The answer to a member who asks who is there.\<close>

definition listed :: "room \<Rightarrow> ptr \<Rightarrow> wire_msg list" where
  "listed r c = concat (map (\<lambda>a.
     [((case info r a of None \<Rightarrow> [] | Some m \<Rightarrow> nick m), MSG_TYPE_ADMIN, True),
      (if a = c then you_indicator else [10], MSG_TYPE_ADMIN, True)]) (seats r))"

text \<open>\<open>said c msg r r'\<close>: what the message \<open>msg\<close> of member \<open>c\<close> makes of the room.\<close>

inductive said :: "ptr \<Rightarrow> byte list \<Rightarrow> room \<Rightarrow> room \<Rightarrow> bool" for c msg r where
  said_name: "info r c = Some m \<Longrightarrow> \<not> known m \<Longrightarrow>
     said c msg r (r\<lparr>info := (info r)(c \<mapsto> m\<lparr>known := True, nick := take 63 msg, label := text_of (take 63 msg)\<rparr>)\<rparr>)"
| said_line: "info r c = Some m \<Longrightarrow> known m \<Longrightarrow> take 1 msg \<noteq> [47] \<Longrightarrow>
     spread c (text_of (chat_text t (nick m) msg)) r r' \<Longrightarrow> said c msg r r'"
| said_list: "info r c = Some m \<Longrightarrow> known m \<Longrightarrow> command_of msg = Some (CMD_LIST, args) \<Longrightarrow>
     subseq s (concat (map wire (listed r c))) \<Longrightarrow> said c msg r (r\<lparr>info := (info r)(c \<mapsto> m\<lparr>got := got m @ s\<rparr>)\<rparr>)"
| said_whisper: "info r c = Some m \<Longrightarrow> known m \<Longrightarrow> command_of msg = Some (CMD_WHISPER, args) \<Longrightarrow>
     strtok_r args = Some (Some who, rest) \<Longrightarrow> cstr rest \<noteq> [] \<Longrightarrow> addressed r who = Some a \<Longrightarrow>
     info r a = Some ma \<Longrightarrow> subseq s (normal_frame (text_of (whisper_text t (nick m) (cstr rest)))) \<Longrightarrow>
     said c msg r (r\<lparr>info := (info r)(a \<mapsto> ma\<lparr>got := got ma @ s\<rparr>)\<rparr>)"
| said_to_nobody: "info r c = Some m \<Longrightarrow> known m \<Longrightarrow> command_of msg = Some (CMD_WHISPER, args) \<Longrightarrow>
     strtok_r args = Some (tok, rest) \<Longrightarrow> cstr rest = [] \<or> addressed r (the tok) = None \<Longrightarrow> said c msg r r"
| said_shutdown: "info r c = Some m \<Longrightarrow> known m \<Longrightarrow> command_of msg = Some (CMD_SHUTDOWN, args) \<Longrightarrow>
     said c msg r (r\<lparr>halting := True\<rparr>)"
| said_nothing: "info r c = Some m \<Longrightarrow> known m \<Longrightarrow> command_of msg = Some (k, args) \<Longrightarrow>
     k \<in> {CMD_QUIT, CMD_UNKNOWN} \<Longrightarrow> said c msg r r"

section \<open>Events\<close>

text \<open>What removing entry \<open>i\<close> does to the list of clients.\<close>

definition swap_out :: "nat \<Rightarrow> 'a list \<Rightarrow> 'a list" where
  "swap_out i xs = butlast (xs[i := last xs])"

lemma length_swap_out [simp]: "length (swap_out i xs) = length xs - 1"
  by (simp add: swap_out_def)

lemma mset_swap_out:
  assumes "i < length xs"
  shows "mset (swap_out i xs) = mset xs - {# xs ! i #}"
proof -
  have ne: "xs \<noteq> []" using assms by auto
  have "mset (xs[i := last xs]) = add_mset (last xs) (mset xs - {# xs ! i #})"
    using assms by (rule mset_update)
  moreover have "last (xs[i := last xs]) = last xs"
    using assms ne by (auto simp: last_list_update)
  moreover have "xs[i := last xs] = swap_out i xs @ [last (xs[i := last xs])]"
    using ne by (simp add: swap_out_def)
  then have "mset (xs[i := last xs]) = add_mset (last (xs[i := last xs])) (mset (swap_out i xs))"
    by (metis add_mset_add_single mset.simps(1) mset.simps(2) mset_append)
  ultimately show ?thesis by simp
qed

lemma swap_out_distinct:
  assumes "distinct xs" "i < length xs"
  shows "distinct (swap_out i xs)" "set (swap_out i xs) = set xs - {xs ! i}"
proof -
  have m: "mset (swap_out i xs) = mset (remove1 (xs ! i) xs)"
    using mset_swap_out [OF assms(2)] by simp
  show "distinct (swap_out i xs)"
    using mset_eq_imp_distinct_iff [OF m] distinct_remove1 [OF assms(1)] by simp
  show "set (swap_out i xs) = set xs - {xs ! i}"
    using mset_eq_setD [OF m] set_remove1_eq [OF assms(1)] by simp
qed

text \<open>
  A room changes by someone joining, at the end; by a member being served; by a member who is leaving
  going away, with the last member taking the place; and by what members say.
\<close>

datatype room_event = Join ptr | Serve ptr | Leave ptr | Say ptr "byte list"

inductive room_step :: "room \<Rightarrow> room_event \<Rightarrow> room \<Rightarrow> bool" where
  step_join: "c \<notin> set (seats r) \<Longrightarrow> \<not> known m \<Longrightarrow> nick m = [] \<Longrightarrow> got m = [] \<Longrightarrow> due m = [] \<Longrightarrow> \<not> leaving m \<Longrightarrow>
     room_step r (Join c) (r\<lparr>seats := seats r @ [c], info := (info r)(c \<mapsto> m)\<rparr>)"
| step_serve: "c \<in> set (seats r) \<Longrightarrow> info r c = Some m \<Longrightarrow> served [] m m' \<Longrightarrow>
     room_step r (Serve c) (r\<lparr>info := (info r)(c \<mapsto> m')\<rparr>)"
| step_leave: "i < length (seats r) \<Longrightarrow> seats r ! i = c \<Longrightarrow> info r c = Some m \<Longrightarrow> leaving m \<Longrightarrow>
     room_step r (Leave c) (r\<lparr>seats := swap_out i (seats r), info := (info r)(c := None)\<rparr>)"
| step_say: "c \<in> set (seats r) \<Longrightarrow> said c msg r r' \<Longrightarrow> room_step r (Say c msg) r'"

inductive room_run :: "room \<Rightarrow> room_event list \<Rightarrow> room \<Rightarrow> bool" where
  run_none [intro]: "room_run r [] r"
| run_step [intro]: "room_step r e r1 \<Longrightarrow> room_run r1 es r' \<Longrightarrow> room_run r (e # es) r'"

inductive_cases room_run_nilE: "room_run r [] r'"
inductive_cases room_run_consE: "room_run r (e # es) r'"
inductive_simps room_run_Nil [simp]: "room_run r [] r'"
inductive_simps room_run_Cons: "room_run r (e # es) r'"

lemma room_run_append: "room_run r es r1 \<Longrightarrow> room_run r1 es' r' \<Longrightarrow> room_run r (es @ es') r'"
  by (induction rule: room_run.induct) auto

lemma room_run_one: "room_step r e r' \<Longrightarrow> room_run r [e] r'"
  by (auto simp: room_run_Cons)

section \<open>The room of a server\<close>

definition member_of :: "server \<Rightarrow> ptr \<Rightarrow> client_info \<Rightarrow> member" where
  "member_of w c ci = \<lparr>known = (has_name ci \<noteq> 0), nick = display_name ci,
     label = cstr (name ci), got = sent w (client_fd ci), due = chan_pending c w, leaving = (closed ci = 1)\<rparr>"

definition room_of :: "server \<Rightarrow> room" where
  "room_of w = \<lparr>seats = roster w,
     info = (\<lambda>c. if c \<in> set (roster w) then map_option (member_of w c) (clients w c) else None),
     halting = (server_shutdown w = 1)\<rparr>"

lemma room_of_sel [simp]:
  "seats (room_of w) = roster w" "halting (room_of w) \<longleftrightarrow> server_shutdown w = 1"
  "c \<in> set (roster w) \<Longrightarrow> clients w c = Some ci \<Longrightarrow> info (room_of w) c = Some (member_of w c ci)"
  "c \<notin> set (roster w) \<Longrightarrow> info (room_of w) c = None"
  by (simp_all add: room_of_def)

lemma member_of_sel [simp]:
  "known (member_of w c ci) \<longleftrightarrow> has_name ci \<noteq> 0" "nick (member_of w c ci) = display_name ci"
  "label (member_of w c ci) = cstr (name ci)" "got (member_of w c ci) = sent w (client_fd ci)"
  "due (member_of w c ci) = chan_pending c w" "leaving (member_of w c ci) \<longleftrightarrow> closed ci = 1"
  by (simp_all add: member_of_def)

lemma room_of_shutdown: "room_of (w\<lparr>server_shutdown := s\<rparr>) = (room_of w)\<lparr>halting := (s = 1)\<rparr>"
proof -
  have "member_of (w\<lparr>server_shutdown := s\<rparr>) = member_of w"
    by (intro ext) (simp add: member_of_def chan_pending_def queue_cells_def split: option.split)
  then show ?thesis by (simp add: room_of_def roster_def cong: if_cong)
qed

text \<open>Two servers with the same clients as far as the room can tell.\<close>

lemma room_of_update:
  assumes "roster w' = roster w" "c \<in> set (roster w)" "clients w' c = Some ci'"
    and "server_shutdown w' = 1 \<longleftrightarrow> server_shutdown w = 1"
    and "\<And>a ca. a \<in> set (roster w) \<Longrightarrow> a \<noteq> c \<Longrightarrow> clients w a = Some ca \<Longrightarrow>
       clients w' a = Some ca \<and> member_of w' a ca = member_of w a ca"
    and "\<forall>a \<in> set (roster w). clients w a \<noteq> None"
  shows "room_of w' = (room_of w)\<lparr>info := (info (room_of w))(c \<mapsto> member_of w' c ci')\<rparr>"
proof -
  have "info (room_of w') a = ((info (room_of w))(c \<mapsto> member_of w' c ci')) a" for a
  proof (cases "a \<in> set (roster w) \<and> a \<noteq> c")
    case True
    then obtain ca where ca: "clients w a = Some ca" using assms(6) by blast
    have "clients w' a = Some ca" "member_of w' a ca = member_of w a ca" using assms(5) True ca by blast+
    then show ?thesis using ca assms(1) True by simp
  next
    case False
    then show ?thesis using assms(1-3) by (cases "a = c") simp_all
  qed
  then show ?thesis using assms(1,4) by (intro room.equality ext) simp_all
qed

lemma room_of_cong:
  assumes "roster w' = roster w" "server_shutdown w' = 1 \<longleftrightarrow> server_shutdown w = 1"
    and "\<And>a. a \<in> set (roster w) \<Longrightarrow> map_option (member_of w' a) (clients w' a) = map_option (member_of w a) (clients w a)"
  shows "room_of w' = room_of w"
  using assms by (auto simp: room_of_def)

section \<open>A complete message is a step of the room\<close>

lemma same_core_pending: "same_core w w' \<Longrightarrow> chan_pending c w' = chan_pending c w"
  using same_core_queue_cells [of w w'] by (simp add: chan_pending_def same_core_def split: option.split)

lemma seated_info:
  assumes "server_ok w" "c \<in> set (roster w)"
  obtains ci where "clients w c = Some ci" "info (room_of w) c = Some (member_of w c ci)"
  using roster_alive [OF assms] assms(2) by auto

text \<open>Writing past the queue is received by one member.\<close>

lemma wrote_to_room:
  assumes ok: "server_ok w" and c: "c \<in> set (roster w)" "clients w c = Some ci"
    and wr: "wrote_to (client_fd ci) w w'" and s: "sent w' (client_fd ci) = sent w (client_fd ci) @ s"
  shows "room_of w' = (room_of w)\<lparr>info := (info (room_of w))(c \<mapsto> (member_of w c ci)
     \<lparr>got := got (member_of w c ci) @ s\<rparr>)\<rparr>"
proof -
  have sc: "same_core w w'" using wr by (simp add: wrote_to_def)
  then have cl: "clients w' = clients w" by (simp add: same_core_def)
  have m: "member_of w' c ci = (member_of w c ci)\<lparr>got := got (member_of w c ci) @ s\<rparr>"
    using same_core_pending [OF sc] s by (simp add: member_of_def)
  have other: "member_of w' a ca = member_of w a ca"
    if "a \<in> set (roster w)" "a \<noteq> c" "clients w a = Some ca" for a ca
  proof -
    have "apart w a c" using ok that(1,2) c(1) by (simp add: server_ok_def)
    then have "client_fd ca \<noteq> client_fd ci" using that(3) c(2) by (simp add: apart_def fd_of_def)
    then show ?thesis using wr same_core_pending [OF sc] by (simp add: member_of_def wrote_to_def)
  qed
  show ?thesis
    unfolding m [symmetric]
  proof (rule room_of_update)
    show "roster w' = roster w" using same_core_keeps(2) [OF ok sc] .
    show "server_shutdown w' = 1 \<longleftrightarrow> server_shutdown w = 1" using wr by (simp add: wrote_to_def)
    show "clients w' c = Some ci" "c \<in> set (roster w)" using c by (simp_all add: cl)
    show "\<forall>a \<in> set (roster w). clients w a \<noteq> None" using roster_alive [OF ok] by auto
  qed (use other cl in auto)
qed

lemma addressed_room:
  assumes "server_ok w"
  shows "addressed (room_of w) who = named w who"
proof -
  have "(case info (room_of w) a of None \<Rightarrow> False | Some m \<Rightarrow> label m = who) \<longleftrightarrow>
      (case clients w a of None \<Rightarrow> False | Some ci \<Rightarrow> cstr (name ci) = who)" if "a \<in> set (roster w)" for a
    using that by (elim seated_info [OF assms]) simp
  then show ?thesis by (simp add: addressed_def named_def cong: find_cong)
qed

lemma listed_room:
  assumes "server_ok w"
  shows "listed (room_of w) c = concat (map (list_entry w c) (roster w))"
proof -
  have "(case info (room_of w) a of None \<Rightarrow> [] | Some m \<Rightarrow> nick m) =
      (case clients w a of None \<Rightarrow> [] | Some ci \<Rightarrow> display_name ci)" if "a \<in> set (roster w)" for a
    using that by (elim seated_info [OF assms]) simp
  then show ?thesis by (simp add: listed_def list_entry_def cong: map_cong)
qed

lemma hears_wanted:
  assumes "a \<in> set (roster w)" "clients w a = Some ca"
  shows "hears c n a (member_of w a ca) = wanted w c n a"
  using assms by (auto simp: hears_def wanted_def fits_def)

text \<open>A change of the queues alone spreads a text.\<close>

lemma spread_room:
  assumes ok: "server_ok w" and ro: "roster w' = roster w" and sd: "server_shutdown w' = server_shutdown w"
    and all: "\<forall>a \<in> set (roster w).
        stream w' a = stream w a @ (if wanted w c (length txt) a then normal_frame txt else []) \<and>
        prefix (chan_sent a w) (chan_sent a w') \<and>
        (\<exists>ci ci'. clients w a = Some ci \<and> clients w' a = Some ci' \<and> out_fields ci ci')"
  shows "spread c txt (room_of w) (room_of w')"
proof -
  have "\<exists>m m'. info (room_of w) a = Some m \<and> info (room_of w') a = Some m' \<and>
      served (if hears c (length txt) a m then normal_frame txt else []) m m'"
    if a: "a \<in> set (roster w)" for a
  proof -
    obtain ca ca' where ca: "clients w a = Some ca" "clients w' a = Some ca'" "out_fields ca ca'"
      using all a by blast
    note sel = out_fields_sel [OF ca(3)]
    have "closed ca = 1 \<longrightarrow> closed ca' = 1" using ca(3) by (auto simp: out_fields_def)
    moreover have "stream w' a = stream w a @ (if wanted w c (length txt) a then normal_frame txt else [])"
      "prefix (chan_sent a w) (chan_sent a w')" using all a by blast+
    ultimately have "served (if wanted w c (length txt) a then normal_frame txt else [])
        (member_of w a ca) (member_of w' a ca')"
      using ca(1,2) sel by (simp add: served_def stream_def chan_sent_def display_name_def)
    then show ?thesis using a ca ro by (simp add: hears_wanted)
  qed
  then show ?thesis using ro sd by (simp add: spread_def)
qed

text \<open>The three kinds of message.\<close>

lemma name_said:
  assumes ok: "server_ok w" "c \<in> set (roster w)" "clients w c = Some ci" and un: "has_name ci = 0"
  shows "ok (process_payload c payload w) (\<lambda>(r, w'). said c (message_of ci) (room_of w) (room_of w'))"
proof (rule ok_weaken [OF name_message_spec [OF ok un]], goal_cases)
  case (1 x)
  then obtain r w' ci' where x: "x = (r, w')" and io: "in_order c w w'" and w': "w' = set_client c ci' w"
    and ci': "has_name ci' = 1" "display_name ci' = take 63 (message_of ci)"
      "cstr (name ci') = text_of (take 63 (message_of ci))"
      "msg_queue ci' = msg_queue ci" "client_fd ci' = client_fd ci" "closed ci' = closed ci"
    by (auto simp: NAME_MAX_def)
  have cells: "queue_cells w' = queue_cells w" by (intro ext) (simp add: w' queue_cells_def)
  then have "queue_cells w' ci' = queue_cells w ci" using ci'(4) by (simp add: queue_cells_def)
  then have m: "member_of w' c ci' = (member_of w c ci)\<lparr>known := True, nick := take 63 (message_of ci),
      label := text_of (take 63 (message_of ci))\<rparr>"
    using ok(3) ci' by (simp add: member_of_def w' chan_pending_def)
  have "room_of w' = (room_of w)\<lparr>info := (info (room_of w))(c \<mapsto> member_of w' c ci')\<rparr>"
  proof (rule room_of_update)
    show "roster w' = roster w" using io by (rule in_order_roster)
    show "\<forall>a \<in> set (roster w). clients w a \<noteq> None" using roster_alive [OF ok(1)] by auto
    show "clients w' a = Some ca \<and> member_of w' a ca = member_of w a ca"
      if "a \<noteq> c" "clients w a = Some ca" for a ca
      using that cells by (simp add: member_of_def chan_pending_def w')
  qed (use ok in \<open>simp_all add: w'\<close>)
  then show ?case
    using said_name [of "room_of w" c "member_of w c ci" "message_of ci"] ok un by (simp add: x m)
qed

lemma line_said:
  assumes ok: "server_ok w" "\<not> client_mutex w" "c \<in> set (roster w)" "clients w c = Some ci"
    and named: "has_name ci \<noteq> 0" and line: "take 1 (message_of ci) \<noteq> [47]"
  shows "ok (process_payload c (Some (message_of ci @ [0])) w)
     (\<lambda>(r, w'). said c (message_of ci) (room_of w) (room_of w'))"
proof -
  obtain b where b: "slice (message_of ci @ [0]) 0 1 = Some [b]" "b \<noteq> 47"
    using line by (cases "message_of ci") (auto simp: slice_def)
  let ?txt = "text_of (chat_text (now w) (display_name ci) (message_of ci))"
  show ?thesis
  proof (rule ok_weaken [OF chat_line_spec [OF ok named b]], goal_cases)
    case (1 x)
    obtain r w' where x: "x = (r, w')" by fastforce
    have "spread c ?txt (room_of w) (room_of w')"
      using 1 in_order_roster [of c w w'] unfolding x prod.case by (intro spread_room [OF ok(1)]) blast+
    then show ?case
      unfolding x prod.case using ok(3,4) named line
      by (intro said_line [of _ _ "member_of w c ci" _ "now w"]) simp_all
  qed
qed

lemma command_said:
  assumes ok: "server_ok w" "c \<in> set (roster w)" "clients w c = Some ci"
    and named: "has_name ci \<noteq> 0" and len: "length (message_of ci) \<le> INPUT_MAX"
    and line: "take 1 (message_of ci) = [47]"
  shows "ok (process_payload c (Some (message_of ci @ [0])) w)
     (\<lambda>(r, w'). said c (message_of ci) (room_of w) (room_of w'))"
proof -
  let ?m = "message_of ci" and ?r = "room_of w"
  have sl: "slice (?m @ [0]) 0 1 = Some [47]" using line by (cases ?m) (auto simp: slice_def)
  have seat: "info ?r c = Some (member_of w c ci)" "known (member_of w c ci)"
    using ok(2,3) named by simp_all
  show ?thesis
  proof (rule ok_weaken [OF command_line_spec [OF ok named _ _ sl]], goal_cases)
    case (3 x)
    then obtain r w' t rest res where x: "x = (r, w')" and tok: "strtok_r (?m @ [0]) = Some (Some t, rest)"
      and run: "server_handle_command c (map lower_byte t @ [0]) (Some rest) w = Some (res, w')"
      by blast
    have rest: "0 \<in> set rest" "length rest \<le> Suc INPUT_MAX"
      using strtok_r_terminated [of "?m @ [0]"] tok len by auto
    obtain k where k: "find_command (map lower_byte t @ [0]) = Some k"
      using find_command_total [of "map lower_byte t @ [0]"] by auto
    have cmd: "command_of ?m = Some (k, rest)" using tok k by (simp add: command_of_def)
    note run = run [unfolded server_handle_command_def k, simplified]
    have "said c ?m ?r (room_of w')"
    proof (cases k)
      case CMD_LIST
      have "handle_list_from c 0 w = Some w'" using run CMD_LIST by (cases "handle_list_from c 0 w") (simp_all add: handle_list_def)
      then obtain s where s: "wrote_to (client_fd ci) w w'" "sent w' (client_fd ci) = sent w (client_fd ci) @ s"
        "subseq s (concat (map wire (listed ?r c)))"
        using handle_list_from_ok [OF ok(1,2), of 0] ok(3) listed_room [OF ok(1), of c] by (auto simp: fd_of_def)
      from wrote_to_room [OF ok s(1,2)] show ?thesis
        using said_list [OF seat _ s(3), of ?m rest] cmd CMD_LIST by simp
    next
      case CMD_WHISPER
      then have w: "handle_whisper c (Some rest) w = Some (res, w')" using run by simp
      obtain tok2 rest2 where tok2: "strtok_r rest = Some (tok2, rest2)"
        "case tok2 of None \<Rightarrow> cstr rest2 = [] | Some t \<Rightarrow> t \<noteq> [] \<and> 0 \<notin> set t \<and> 32 \<notin> set t"
        using strtok_r_terminated [OF rest(1)] by (auto simp: ok_conv)
      note H = handle_whisper_spec [OF ok rest tok2(1), unfolded w ok_Some prod.case]
      show ?thesis
      proof (cases "if cstr rest2 = [] then None else named w (the tok2)")
        case None
        then have "cstr rest2 = [] \<or> addressed ?r (the tok2) = None"
          by (auto simp: addressed_room [OF ok(1)] split: if_splits)
        then show ?thesis
          using H [unfolded None option.case] said_to_nobody [OF seat _ tok2(1), of ?m] cmd CMD_WHISPER by simp
      next
        case (Some a)
        then obtain who where who: "tok2 = Some who" "cstr rest2 \<noteq> []" "named w who = Some a"
          using tok2(2) by (auto split: if_splits option.splits)
        have ain: "a \<in> set (roster w)" using who(3) by (rule named_in_roster)
        then obtain ca where ca: "clients w a = Some ca" using roster_alive [OF ok(1)] by blast
        have fd: "fd_of w a = client_fd ca" using ca by (simp add: fd_of_def)
        obtain s where s: "wrote_to (client_fd ca) w w'" "sent w' (client_fd ca) = sent w (client_fd ca) @ s"
          "subseq s (whisper_frame w ci (cstr rest2))"
          using H [unfolded Some option.case fd] by blast
        show ?thesis
          unfolding wrote_to_room [OF ok(1) ain ca s(1,2)]
          using cmd CMD_WHISPER tok2(1) who ain ca s(3)
          by (intro said_whisper [OF seat]) (simp_all add: addressed_room [OF ok(1)] whisper_frame_def)
      qed
    next
      case CMD_SHUTDOWN
      then have "w' = w\<lparr>server_shutdown := 1\<rparr>" using run by (simp add: handle_shutdown_def)
      then have "room_of w' = ?r\<lparr>halting := True\<rparr>"
        by (simp add: room_of_shutdown)
      then show ?thesis using said_shutdown [OF seat, of ?m rest] cmd CMD_SHUTDOWN by simp
    qed (use run said_nothing [OF seat cmd] in simp_all)
    then show ?case by (simp add: x)
  qed (use len in simp_all)
qed

text \<open>Every complete message of a member is a step of the room.\<close>

lemma process_payload_said:
  assumes ok: "server_ok w" "\<not> client_mutex w" "c \<in> set (roster w)" "clients w c = Some ci"
    and len: "length (message_of ci) \<le> INPUT_MAX"
  shows "ok (process_payload c (Some (message_of ci @ [0])) w)
     (\<lambda>(r, w'). said c (message_of ci) (room_of w) (room_of w'))"
  using name_said [OF ok(1,3,4)] line_said [OF ok] command_said [OF ok(1,3,4) _ len]
  by (cases "has_name ci = 0") blast+

end
