(* ===== verification/Chat_Read.thy ===== *)
theory Chat_Read
  imports Chat_Room
begin

text \<open>
  Reading from a client (src/server/handle_client_read.c): the state machine that collects a header,
  then a payload, from a socket that delivers them in arbitrary pieces, and handles each frame
  when it is complete. The loop is cut into its two branches, each of which either returns or goes
  round again; a read state other than the two does not exist in the model, so the last branch of
  the C function has no counterpart.
\<close>

section \<open>The loop\<close>

datatype step = Return int | Again

definition read_header_step :: "ptr \<Rightarrow> server \<Rightarrow> (step \<times> server) option" where
  "read_header_step c w = do {
     ci \<leftarrow> clients w c;
     case sys_read (client_fd ci) (sz_sub HEADER_SIZE (header_bytes_read ci)) w of
       (Inl e, w1) \<Rightarrow>
         if e = EAGAIN \<or> e = EWOULDBLOCK then Some (Return 0, w1) else Some (Return (-1), w1)
     | (Inr bs, w1) \<Rightarrow>
         if bs = [] then Some (Return (-1), w1)
         else do {
           hb \<leftarrow> memcpy_at (header_buffer ci) (header_bytes_read ci) bs;
           let ci1 = ci\<lparr>header_buffer := hb,
                        header_bytes_read := sz_add (header_bytes_read ci) (length bs)\<rparr>;
           if header_bytes_read ci1 < HEADER_SIZE then Some (Return 0, set_client c ci1 w1)
           else if HEADER_SIZE < header_bytes_read ci1 then Some (Return (-1), set_client c ci1 w1)
           else do {
             h \<leftarrow> header_of_image (header_buffer ci1);
             let ci2 = ci1\<lparr>expected_payload_len := ntohl (hdr_len h), msg_type := hdr_type h,
                           msg_done := hdr_done h\<rparr>;
             if BUF_SIZE < unat (expected_payload_len ci2)
             then Some (Return (-1), set_client c ci2 w1)
             else Some (Again, set_client c (ci2\<lparr>state := READ_PAYLOAD, header_bytes_read := 0,
                                                payload_bytes_read := 0\<rparr>) w1)
           }
         }
   }"

text \<open>The part that runs when a payload is complete.\<close>

definition finish_payload :: "ptr \<Rightarrow> server \<Rightarrow> (step \<times> server) option" where
  "finish_payload c w = do {
     (_, w1) \<leftarrow> append_to_client_buffer c w;
     ci \<leftarrow> clients w1 c;
     (r, w2) \<leftarrow>
       (if msg_done ci \<noteq> 0 then do {
          (payload_copy, w2) \<leftarrow> copy_buffer (partial_msg ci) (partial_len ci) w1;
          (payload_result, w3) \<leftarrow> process_payload c payload_copy w2;
          let w4 = free_buf payload_copy w3;
          if payload_result = -1 then Some (-1 :: int, w4)
          else do { (_, w5) \<leftarrow> clear_client_buffer c w4; Some (0, w5) }
        } else Some (0, w1));
     if r = -1 then Some (Return (-1), w2)
     else do {
       ci2 \<leftarrow> clients w2 c;
       Some (Again, set_client c (ci2\<lparr>state := READ_HEADER, header_bytes_read := 0,
                                     expected_payload_len := 0\<rparr>) w2)
     }
   }"

definition read_payload_step :: "ptr \<Rightarrow> server \<Rightarrow> (step \<times> server) option" where
  "read_payload_step c w = do {
     ci \<leftarrow> clients w c;
     case sys_read (client_fd ci)
            (sz_sub (unat (expected_payload_len ci)) (payload_bytes_read ci)) w of
       (Inl e, w1) \<Rightarrow>
         if e = EAGAIN \<or> e = EWOULDBLOCK then Some (Return 0, w1) else Some (Return (-1), w1)
     | (Inr bs, w1) \<Rightarrow> do {
         pb \<leftarrow> memcpy_at (payload_buffer ci) (payload_bytes_read ci) bs;
         let ci1 = ci\<lparr>payload_buffer := pb,
                      payload_bytes_read := sz_add (payload_bytes_read ci) (length bs)\<rparr>;
         if payload_bytes_read ci1 < unat (expected_payload_len ci1)
         then Some (Return 0, set_client c ci1 w1)
         else if unat (expected_payload_len ci1) < payload_bytes_read ci1
         then Some (Return (-1), set_client c ci1 w1)
         else finish_payload c (set_client c ci1 w1)
       }
   }"

partial_function (option) handle_client_read :: "ptr \<Rightarrow> server \<Rightarrow> (int \<times> server) option" where
  "handle_client_read c w = do {
     ci \<leftarrow> clients w c;
     (s, w1) \<leftarrow> (case state ci of READ_HEADER \<Rightarrow> read_header_step c w
                            | READ_PAYLOAD \<Rightarrow> read_payload_step c w);
     case s of Return r \<Rightarrow> Some (r, w1) | Again \<Rightarrow> handle_client_read c w1
   }"

section \<open>The bytes of a connection\<close>

text \<open>
  \<open>taken\<close> is what the client structure
  holds of the frame being read, header bytes included. A frame is a payload with its type
  byte and its flag byte.
\<close>

type_synonym raw_frame = "byte list \<times> byte \<times> byte"

definition raw_header :: "32 word \<Rightarrow> byte \<Rightarrow> byte \<Rightarrow> byte list" where
  "raw_header n ty dn = header_image \<lparr>hdr_len = htonl n, hdr_type = ty, hdr_done = dn\<rparr>"

definition raw_bytes :: "raw_frame \<Rightarrow> byte list" where
  "raw_bytes f = (case f of (p, ty, dn) \<Rightarrow> raw_header (of_nat (length p)) ty dn @ p)"

definition taken :: "client_info \<Rightarrow> byte list" where
  "taken ci = (case state ci of
      READ_HEADER \<Rightarrow> take (header_bytes_read ci) (header_buffer ci)
    | READ_PAYLOAD \<Rightarrow> raw_header (expected_payload_len ci) (msg_type ci) (msg_done ci)
                     @ take (payload_bytes_read ci) (payload_buffer ci))"

definition input_view :: "ptr \<Rightarrow> server \<Rightarrow> byte list" where
  "input_view c w = (case clients w c of None \<Rightarrow> []
                     | Some ci \<Rightarrow> taken ci @ rd_data (inq w (client_fd ci)))"

lemma length_raw_header [simp]: "length (raw_header n ty dn) = HEADER_SIZE"
  by (simp add: raw_header_def)

lemma htonl_ntohl [simp]: "htonl (ntohl x) = x"
  using ntohl_htonl [of x] by (simp add: ntohl_def)

lemma header_of_image_inverse:
  "header_of_image bs = Some h \<Longrightarrow> header_image h = bs"
proof (cases bs rule: header_of_image.cases)
  case (1 a b c d t f)
  assume "header_of_image bs = Some h"
  then have h: "h = \<lparr>hdr_len = u32_of_image a b c d, hdr_type = t, hdr_done = f\<rparr>" using 1 by simp
  have "u32_image (u32_of_image a b c d) = [a, b, c, d]"
    unfolding u32_image_def u32_of_image_def list.inject
    by (intro conjI refl bit_word_eqI) (auto simp: bit_simps dest: bit_imp_le_length)
  then show ?thesis using 1 by (simp add: header_image_def h)
qed auto

lemma header_of_image_total: "length bs = HEADER_SIZE \<Longrightarrow> \<exists>h. header_of_image bs = Some h"
  by (cases bs rule: header_of_image.cases) (simp_all add: HEADER_SIZE_def)

lemma sys_read_rd:
  assumes "sys_read d n w = (r, w1)" "opened w d"
  shows "\<exists>q. w1 = w\<lparr>inq := (inq w)(d := q)\<rparr> \<and>
     (case r of Inl _ \<Rightarrow> rd_data q = rd_data (inq w d)
      | Inr bs \<Rightarrow> length bs \<le> n \<and> rd_data (inq w d) = bs @ rd_data q)"
proof (cases "n = 0")
  case True
  then show ?thesis using assms by (auto simp: sys_read_def intro!: exI [of _ "inq w d"])
next
  case n: False
  show ?thesis
  proof (cases "inq w d")
    case Nil
    then show ?thesis using assms n by (auto simp: sys_read_def fun_upd_idem intro!: exI [of _ "[]"])
  next
    case (Cons e evs)
    show ?thesis
    proof (cases e)
      case (RdData bs)
      then show ?thesis using assms n Cons by (auto simp: sys_read_def)
    next
      case RdEof
      then show ?thesis
        using assms n Cons by (auto simp: sys_read_def fun_upd_idem intro!: exI [of _ "RdEof # evs"])
    next
      case (RdErr x)
      then show ?thesis using assms n Cons by (auto simp: sys_read_def)
    qed
  qed
qed

section \<open>How far a script was read\<close>

text \<open>
  \<open>read_on q q'\<close>: reads took data off the front of the script \<open>q\<close>, whole pieces or parts of them, and
  met no error; \<open>q'\<close> is left. \<open>pauses q q'\<close>: they did, and then either found the socket empty or at the
  end of its stream, or used up one more event. \<open>next_chunk\<close> is what one read could deliver at most.
\<close>

inductive read_on :: "rd_ev list \<Rightarrow> rd_ev list \<Rightarrow> bool" where
  read_on_refl: "read_on q q"
| read_on_whole: "read_on q q' \<Longrightarrow> read_on (RdData bs # q) q'"
| read_on_part: "y \<noteq> [] \<Longrightarrow> read_on (RdData y # q) q' \<Longrightarrow> read_on (RdData (x @ y) # q) q'"

lemma read_on_trans: "read_on q q1 \<Longrightarrow> read_on q1 q' \<Longrightarrow> read_on q q'"
  by (induction rule: read_on.induct) (auto intro: read_on.intros)

definition pauses :: "rd_ev list \<Rightarrow> rd_ev list \<Rightarrow> bool" where
  "pauses q q' \<longleftrightarrow> (\<exists>q1. read_on q q1 \<and>
     (q1 = q' \<and> (q' = [] \<or> (\<exists>evs. q' = RdEof # evs)) \<or> (\<exists>e. q1 = e # q')))"

lemma read_on_pauses: "read_on q q1 \<Longrightarrow> pauses q1 q' \<Longrightarrow> pauses q q'"
  using read_on_trans unfolding pauses_def by blast

fun next_chunk :: "rd_ev list \<Rightarrow> byte list" where
  "next_chunk (RdData bs # _) = bs"
| "next_chunk _ = []"

lemma sys_read_script:
  assumes "sys_read d n w = (r, w1)" "opened w d" "0 < n"
  shows "case r of
     Inl e \<Rightarrow> inq w d = [] \<and> inq w1 d = [] \<and> e = EAGAIN \<or> inq w d = RdErr e # inq w1 d
   | Inr bs \<Rightarrow> read_on (inq w d) (inq w1 d) \<and> prefix bs (next_chunk (inq w d)) \<and>
       (length bs < n \<longrightarrow> (\<exists>evs. inq w d = RdEof # evs) \<and> inq w1 d = inq w d \<and> bs = [] \<or>
          inq w d = RdData bs # inq w1 d)"
proof (cases "inq w d")
  case Nil
  then show ?thesis using assms by (auto simp: sys_read_def)
next
  case (Cons e evs)
  show ?thesis
  proof (cases e)
    case (RdData bs)
    have "read_on (RdData (take n bs @ drop n bs) # evs) (RdData (drop n bs) # evs)" if "n < length bs"
      using that by (intro read_on_part read_on_refl) simp
    then have "read_on (RdData bs # evs) (RdData (drop n bs) # evs)" if "n < length bs" using that by simp
    moreover have "read_on (RdData bs # evs) evs" by (intro read_on_whole read_on_refl)
    ultimately show ?thesis
      using assms Cons RdData by (auto simp: sys_read_def take_is_prefix)
  qed (use assms Cons in \<open>auto simp: sys_read_def intro: read_on_refl\<close>)
qed

lemma sys_read_nothing: "opened w d \<Longrightarrow> sys_read d 0 w = (Inr [], w)"
  by (simp add: sys_read_def)

text \<open>
  What makes the reader give up before a frame is complete: an error of the socket, the end of the
  stream where a header is due, or a header that announces more than 4096 bytes. \<open>refused\<close>: a whole header
  is still in place because it was given up on before.
\<close>

definition bad_input :: "client_info \<Rightarrow> rd_ev list \<Rightarrow> bool" where
  "bad_input ci q \<longleftrightarrow>
     (\<exists>e evs. q = RdErr e # evs \<and> e \<noteq> EAGAIN \<and> e \<noteq> EWOULDBLOCK) \<or>
     (\<exists>evs. (q = RdEof # evs \<or> q = RdData [] # evs) \<and> length (taken ci) < HEADER_SIZE) \<or>
     (\<exists>n ty dn rest. taken ci @ next_chunk q = raw_header n ty dn @ rest \<and> BUF_SIZE < unat n)"

lemma bad_inputE:
  assumes "bad_input ci q"
  obtains (error) e evs where "q = RdErr e # evs" "e \<noteq> EAGAIN" "e \<noteq> EWOULDBLOCK"
  | (ended) evs where "q = RdEof # evs \<or> q = RdData [] # evs" "length (taken ci) < HEADER_SIZE"
  | (oversized) n ty dn rest where "taken ci @ next_chunk q = raw_header n ty dn @ rest" "BUF_SIZE < unat n"
  using assms unfolding bad_input_def by blast

definition refused :: "client_info \<Rightarrow> bool" where
  "refused ci \<longleftrightarrow> state ci = READ_HEADER \<and> header_bytes_read ci = HEADER_SIZE"

text \<open>What is buffered falls short of what the reader waits for: of a header, or of the payload.\<close>

definition awaits :: "client_info \<Rightarrow> bool" where
  "awaits ci \<longleftrightarrow> (case state ci of READ_HEADER \<Rightarrow> header_bytes_read ci < HEADER_SIZE
                 | READ_PAYLOAD \<Rightarrow> payload_bytes_read ci < unat (expected_payload_len ci))"

section \<open>One step\<close>

text \<open>
  \<open>input_moved c w w'\<close>: bytes moved from the descriptor of \<open>c\<close> into its reading fields, and nothing
  else. The budget of a connection bounds what it has delivered and will deliver.
\<close>

definition read_fields :: "client_info \<Rightarrow> client_info \<Rightarrow> bool" where
  "read_fields ci ci' \<longleftrightarrow> ci' = ci\<lparr>state := state ci', header_buffer := header_buffer ci',
      header_bytes_read := header_bytes_read ci', expected_payload_len := expected_payload_len ci',
      msg_type := msg_type ci', msg_done := msg_done ci', payload_buffer := payload_buffer ci',
      payload_bytes_read := payload_bytes_read ci'\<rparr>"

definition input_moved :: "ptr \<Rightarrow> server \<Rightarrow> server \<Rightarrow> bool" where
  "input_moved c w w' \<longleftrightarrow> (\<exists>ci ci' q. clients w c = Some ci \<and> read_fields ci ci' \<and>
     w' = set_client c ci' (w\<lparr>inq := (inq w)(client_fd ci := q)\<rparr>))"

definition budget :: "server \<Rightarrow> client_info \<Rightarrow> nat" where
  "budget w ci = partial_len ci + (if state ci = READ_PAYLOAD then payload_bytes_read ci else 0)
     + length (rd_data (inq w (client_fd ci)))"

lemma set_client_same [simp]: "clients w c = Some ci \<Longrightarrow> set_client c ci w = w"
  by (simp add: set_client_def fun_upd_idem)

lemma read_fields_sel:
  assumes "read_fields ci ci'"
  shows "client_fd ci' = client_fd ci" "msg_queue ci' = msg_queue ci" "name ci' = name ci"
    "name_len ci' = name_len ci" "has_name ci' = has_name ci" "partial_msg ci' = partial_msg ci"
    "partial_len ci' = partial_len ci" "partial_cap ci' = partial_cap ci" "closed ci' = closed ci"
    "epollout_enabled ci' = epollout_enabled ci"
  using assms unfolding read_fields_def by - (erule ssubst, simp)+

lemma read_fields_trans: "read_fields ci c1 \<Longrightarrow> read_fields c1 c2 \<Longrightarrow> read_fields ci c2"
  unfolding read_fields_def by (cases ci, cases c1, cases c2) simp

lemma read_fields_refl [simp]: "read_fields ci ci"
  unfolding read_fields_def by (cases ci) simp

lemma moved_keeps:
  assumes ok: "server_ok w" "c \<in> set (roster w)" "clients w c = Some ci"
    and rf: "read_fields ci ci'" "client_wf ci'"
    and w': "w' = set_client c ci' (w\<lparr>inq := (inq w)(client_fd ci := q)\<rparr>)"
  shows "server_ok w'" "roster w' = roster w" "client_mutex w' = client_mutex w"
proof -
  obtain cj where "clients w c = Some cj" "0 \<in> set (name cj)" "partial_len cj \<le> INPUT_MAX"
    using client_okE [OF server_ok_client [OF ok(1,2)]] .
  then have "0 \<in> set (name ci')" "partial_len ci' \<le> INPUT_MAX"
    using ok(3) read_fields_sel [OF rf(1)] by simp_all
  from input_step_evolves [OF server_ok_client [OF ok(1,2)] server_ok_parts(1) [OF ok(1)] ok(3)
      read_fields_sel(1,2) [OF rf(1)] rf(2) this]
  have "evolves c w w'" unfolding w' .
  from evolves_keeps [OF ok(1,2) this]
  show "server_ok w'" "roster w' = roster w" "client_mutex w' = client_mutex w" .
qed

text \<open>The result of one round: what moved, and where the machine stands.\<close>

definition round_ok :: "ptr \<Rightarrow> server \<Rightarrow> client_info \<Rightarrow> server \<Rightarrow> bool" where
  "round_ok c w ci' w' \<longleftrightarrow> input_moved c w w' \<and> server_ok w' \<and> roster w' = roster w \<and>
     client_mutex w' = client_mutex w \<and> clients w' c = Some ci'"

lemma moved_round:
  assumes "server_ok w" "c \<in> set (roster w)" "clients w c = Some ci" "read_fields ci ci'" "client_wf ci'"
  shows "round_ok c w ci' (set_client c ci' (w\<lparr>inq := (inq w)(client_fd ci := q)\<rparr>))"
  using moved_keeps [OF assms refl, of q] assms(3,4) by (auto simp: round_ok_def input_moved_def)

lemma header_step_spec:
  assumes ok: "server_ok w" "c \<in> set (roster w)" "clients w c = Some ci" and st: "state ci = READ_HEADER"
    and bud: "budget w ci \<le> INPUT_MAX"
  shows "ok (read_header_step c w) (\<lambda>(s, w'). \<exists>ci'. round_ok c w ci' w' \<and> budget w' ci' \<le> INPUT_MAX \<and>
     (case s of Return r \<Rightarrow> r = -1 \<and> (bad_input ci (inq w (client_fd ci)) \<or> refused ci) \<or>
          r = 0 \<and> input_view c w' = input_view c w \<and> awaits ci' \<and>
          pauses (inq w (client_fd ci)) (inq w' (client_fd ci))
      | Again \<Rightarrow> input_view c w' = input_view c w \<and> state ci' = READ_PAYLOAD \<and>
          read_on (inq w (client_fd ci)) (inq w' (client_fd ci)) \<and>
          length (rd_data (inq w' (client_fd ci))) < length (rd_data (inq w (client_fd ci)))))"
proof -
  let ?d = "client_fd ci" and ?hb = "header_bytes_read ci"
  obtain cj where "clients w c = Some cj" "client_wf cj" "opened w (client_fd cj)"
    using client_okE [OF server_ok_client [OF ok(1,2)]] .
  then have wf: "client_wf ci" and op: "opened w ?d" using ok(3) by simp_all
  have hb: "?hb \<le> HEADER_SIZE" "length (header_buffer ci) = HEADER_SIZE" using wf by (simp_all add: client_wf_def)
  obtain r w1 where r: "sys_read ?d (sz_sub HEADER_SIZE ?hb) w = (r, w1)" by fastforce
  obtain q where w1: "w1 = w\<lparr>inq := (inq w)(?d := q)\<rparr>"
    and rd: "case r of Inl _ \<Rightarrow> rd_data q = rd_data (inq w ?d)
             | Inr bs \<Rightarrow> length bs \<le> HEADER_SIZE - ?hb \<and> rd_data (inq w ?d) = bs @ rd_data q"
    using sys_read_rd [OF r op] unfolding sz_sub_small [OF hb(1)] by blast
  have script: "case r of
     Inl e \<Rightarrow> inq w ?d = [] \<and> q = [] \<and> e = EAGAIN \<or> inq w ?d = RdErr e # q
   | Inr bs \<Rightarrow> ?hb < HEADER_SIZE \<longrightarrow> read_on (inq w ?d) q \<and> prefix bs (next_chunk (inq w ?d)) \<and>
       (length bs < HEADER_SIZE - ?hb \<longrightarrow> (\<exists>evs. inq w ?d = RdEof # evs) \<and> q = inq w ?d \<and> bs = [] \<or>
          inq w ?d = RdData bs # q)"
  proof (cases "?hb < HEADER_SIZE")
    case True
    then show ?thesis
      using sys_read_script [OF r op] sz_sub_small [OF hb(1)] by (simp add: w1 split: sum.splits)
  next
    case False
    then show ?thesis using r op sz_sub_small [OF hb(1)] by (auto simp: sys_read_nothing)
  qed
  have tk: "length (taken ci) = ?hb" using hb st by (simp add: taken_def)
  have view: "input_view c w = taken ci @ rd_data (inq w ?d)" using ok(3) by (simp add: input_view_def)
  have view': "input_view c (set_client c ci' w1) = taken ci' @ rd_data q" if "client_fd ci' = ?d" for ci'
    using that by (simp add: input_view_def w1)
  have bud': "budget (set_client c ci' w1) ci' \<le> INPUT_MAX"
    if "client_fd ci' = ?d" "partial_len ci' = partial_len ci" "state ci' = READ_PAYLOAD \<longrightarrow> payload_bytes_read ci' = 0" for ci'
    using that bud rd st by (auto simp: budget_def w1 split: sum.splits)
  note mk = moved_round [OF ok, where q = q, folded w1]
  have same: "w1 = set_client c ci w1" using ok(3) by (simp add: w1)
  have stay: "round_ok c w ci w1 \<and> budget w1 ci \<le> INPUT_MAX"
    using mk [OF read_fields_refl wf] bud' [of ci] st same by simp
  show ?thesis
  proof (cases r)
    case (Inl e)
    have "input_view c w1 = input_view c w"
      using view view' [of ci] same rd Inl by simp
    moreover have "?hb < HEADER_SIZE"
      using r Inl op hb(1) sz_sub_small [OF hb(1)] sys_read_nothing [OF op] by (cases "?hb = HEADER_SIZE") auto
    then have "awaits ci" by (simp add: awaits_def st)
    moreover have "bad_input ci (inq w ?d)" if "e \<noteq> EAGAIN" "e \<noteq> EWOULDBLOCK"
      using script that by (simp add: Inl bad_input_def)
    moreover have "pauses (inq w ?d) (inq w1 ?d)"
      using script by (auto simp: Inl w1 pauses_def intro: read_on_refl)
    ultimately show ?thesis using stay ok(3) r Inl by (auto simp: read_header_step_def)
  next
    case (Inr bs)
    have bs: "length bs \<le> HEADER_SIZE - ?hb" "rd_data (inq w ?d) = bs @ rd_data q" using rd Inr by auto
    show ?thesis
    proof (cases "bs = []")
      case True
      have "bad_input ci (inq w ?d) \<or> refused ci"
      proof (cases "?hb < HEADER_SIZE")
        case lt: True
        then have "(\<exists>evs. inq w ?d = RdEof # evs) \<or> inq w ?d = RdData [] # q"
          using script by (simp add: Inr True) blast
        then have "bad_input ci (inq w ?d)" using lt tk by (elim disjE exE) (simp_all add: bad_input_def)
        then show ?thesis ..
      next
        case False
        then show ?thesis using hb st by (simp add: refused_def)
      qed
      then show ?thesis using True stay ok(3) r Inr by (auto simp: read_header_step_def)
    next
      case ne: False
      have lt: "?hb < HEADER_SIZE" using bs(1) ne by (cases bs) simp_all
      have on: "read_on (inq w ?d) q" "prefix bs (next_chunk (inq w ?d))"
        "length bs < HEADER_SIZE - ?hb \<longrightarrow> inq w ?d = RdData bs # q"
        using script lt ne by (auto simp: Inr)
      let ?hbuf = "take ?hb (header_buffer ci) @ bs @ drop (?hb + length bs) (header_buffer ci)"
      let ?c1 = "ci\<lparr>header_buffer := ?hbuf, header_bytes_read := ?hb + length bs\<rparr>"
      have fit: "?hb + length bs \<le> HEADER_SIZE" using bs(1) hb(1) by simp
      then have mc: "memcpy_at (header_buffer ci) ?hb bs = Some ?hbuf" using hb(2) by (simp add: memcpy_at_def)
      have add: "sz_add ?hb (length bs) = ?hb + length bs"
        using fit by (simp add: sz_add_def SIZE_MOD_def HEADER_SIZE_def)
      have l1: "length ?hbuf = HEADER_SIZE" using memcpy_at_length [OF mc] hb(2) by simp
      have rf1: "read_fields ci ?c1" by (simp add: read_fields_def)
      have wf1: "client_wf ?c1" using wf fit l1 unfolding client_wf_def by (simp add: st)
      have tk1: "take (?hb + length bs) ?hbuf = taken ci @ bs"
        using take_memcpy_at [OF mc] st by (simp add: taken_def)
      have v1: "input_view c (set_client c ?c1 w1) = input_view c w"
        using view view' [of ?c1] bs(2) tk1 st by (simp add: taken_def)
      show ?thesis
      proof (cases "?hb + length bs < HEADER_SIZE")
        case True
        have "read_header_step c w = Some (Return 0, set_client c ?c1 w1)"
          using ok(3) r Inr ne mc add True by (simp add: read_header_step_def)
        moreover have "round_ok c w ?c1 (set_client c ?c1 w1)" using mk [OF rf1 wf1] .
        moreover have "pauses (inq w ?d) (inq (set_client c ?c1 w1) ?d)"
          using on(3) True by (auto simp: w1 pauses_def intro: read_on_refl)
        moreover have "awaits ?c1" using True by (simp add: awaits_def st)
        ultimately show ?thesis using v1 bud' [of ?c1] st by auto
      next
        case False
        then have full: "?hb + length bs = HEADER_SIZE" using fit by simp
        obtain h where h: "header_of_image ?hbuf = Some h" using header_of_image_total [OF l1] by blast
        let ?c2 = "?c1\<lparr>expected_payload_len := ntohl (hdr_len h), msg_type := hdr_type h, msg_done := hdr_done h\<rparr>"
        have rf2: "read_fields ci ?c2" by (simp add: read_fields_def)
        have wf2: "client_wf ?c2" using wf1 unfolding client_wf_def by (simp add: st)
        show ?thesis
        proof (cases "BUF_SIZE < unat (expected_payload_len ?c2)")
          case True
          have "read_header_step c w = Some (Return (-1), set_client c ?c2 w1)"
            using ok(3) r Inr ne mc add full h True by (simp add: read_header_step_def)
          moreover have "round_ok c w ?c2 (set_client c ?c2 w1)" using mk [OF rf2 wf2] .
          moreover have "bad_input ci (inq w ?d)"
          proof -
            obtain rest where rest: "next_chunk (inq w ?d) = bs @ rest" using on(2) by (auto elim: prefixE)
            have "raw_header (ntohl (hdr_len h)) (hdr_type h) (hdr_done h) = taken ci @ bs"
              using header_of_image_inverse [OF h] tk1 full l1 by (cases h) (simp add: raw_header_def)
            then have "taken ci @ next_chunk (inq w ?d)
                = raw_header (ntohl (hdr_len h)) (hdr_type h) (hdr_done h) @ rest"
              by (simp add: rest)
            then have "\<exists>n ty dn rest. taken ci @ next_chunk (inq w ?d) = raw_header n ty dn @ rest \<and> BUF_SIZE < unat n"
              using True by (intro exI conjI) simp_all
            then show ?thesis unfolding bad_input_def by (intro disjI2)
          qed
          ultimately show ?thesis using bud' [of ?c2] st by auto
        next
          case small: False
          let ?c3 = "?c2\<lparr>state := READ_PAYLOAD, header_bytes_read := 0, payload_bytes_read := 0\<rparr>"
          have rf3: "read_fields ci ?c3" by (simp add: read_fields_def)
          have wf3: "client_wf ?c3" using wf2 small unfolding client_wf_def by simp
          have run: "read_header_step c w = Some (Again, set_client c ?c3 w1)"
            using ok(3) r Inr ne mc add full h small by (simp add: read_header_step_def)
          have "taken ?c3 = header_image h" by (cases h) (simp add: taken_def raw_header_def)
          also have "\<dots> = taken ci @ bs"
            using header_of_image_inverse [OF h] tk1 full l1 by simp
          finally have "input_view c (set_client c ?c3 w1) = input_view c w"
            using view view' [of ?c3] bs(2) by simp
          moreover have "length (rd_data (inq w1 ?d)) < length (rd_data (inq w ?d))"
            using bs(2) ne by (simp add: w1)
          ultimately show ?thesis
            using run mk [OF rf3 wf3] bud' [of ?c3] on(1) by (auto simp: w1)
        qed
      qed
    qed
  qed
qed

section \<open>A complete frame\<close>

text \<open>
  \<open>quiet c w w'\<close>: no client can tell the difference; of \<open>c\<close> only the input side moved.
  \<open>tended c w w'\<close>: the server is still in order and the other clients' input is untouched.
\<close>

definition idle_fields :: "client_info \<Rightarrow> client_info \<Rightarrow> bool" where
  "idle_fields ci ci' \<longleftrightarrow> client_fd ci' = client_fd ci \<and> msg_queue ci' = msg_queue ci \<and>
     name ci' = name ci \<and> name_len ci' = name_len ci \<and> has_name ci' = has_name ci \<and>
     closed ci' = closed ci \<and> epollout_enabled ci' = epollout_enabled ci"

definition quiet :: "ptr \<Rightarrow> server \<Rightarrow> server \<Rightarrow> bool" where
  "quiet c w w' \<longleftrightarrow> sent w' = sent w \<and> packets w' = packets w \<and> clock w' = clock w \<and>
     server_shutdown w' = server_shutdown w \<and> (\<forall>a. a \<noteq> c \<longrightarrow> clients w' a = clients w a) \<and>
     (\<exists>ci ci'. clients w c = Some ci \<and> clients w' c = Some ci' \<and> idle_fields ci ci')"

definition tended :: "ptr \<Rightarrow> server \<Rightarrow> server \<Rightarrow> bool" where
  "tended c w w' \<longleftrightarrow> server_ok w' \<and> roster w' = roster w \<and> client_mutex w' = client_mutex w \<and>
     server_fd w' = server_fd w \<and>
     (\<forall>a \<in> set (roster w). \<exists>ci ci'. clients w a = Some ci \<and> clients w' a = Some ci' \<and>
        client_fd ci' = client_fd ci \<and>
        (a \<noteq> c \<longrightarrow> out_fields ci ci' \<and> inq w' (client_fd ci) = inq w (client_fd ci)))"

lemma quiet_trans:
  assumes "quiet c w w1" "quiet c w1 w2"
  shows "quiet c w w2"
  using assms unfolding quiet_def idle_fields_def by fastforce

lemma quiet_stream:
  assumes "quiet c w w'"
  shows "stream w' a = stream w a"
proof (cases "a = c")
  case True
  then show ?thesis
    using assms by (auto simp: quiet_def idle_fields_def stream_def chan_sent_def chan_pending_def
        queue_cells_def)
next
  case False
  then have "clients w' a = clients w a" "packets w' = packets w" "sent w' = sent w"
    using assms by (auto simp: quiet_def)
  then show ?thesis
    by (simp add: stream_def chan_sent_def chan_pending_def queue_cells_def split: option.split)
qed

lemma tended_in_order: "in_order c w w' \<Longrightarrow> tended c w w'"
  using in_order_roster [of c w w'] unfolding in_order_def tended_def in_kept_def by fastforce

lemma tended_trans:
  assumes "tended c w w1" "tended c w1 w2"
  shows "tended c w w2"
proof -
  have "\<exists>ci ci'. clients w a = Some ci \<and> clients w2 a = Some ci' \<and> client_fd ci' = client_fd ci \<and>
        (a \<noteq> c \<longrightarrow> out_fields ci ci' \<and> inq w2 (client_fd ci) = inq w (client_fd ci))"
    if a: "a \<in> set (roster w)" for a
  proof -
    obtain ci c1 where 1: "clients w a = Some ci" "clients w1 a = Some c1" "client_fd c1 = client_fd ci"
      "a \<noteq> c \<longrightarrow> out_fields ci c1 \<and> inq w1 (client_fd ci) = inq w (client_fd ci)"
      using assms(1) a unfolding tended_def by blast
    have "a \<in> set (roster w1)" using assms(1) a by (simp add: tended_def)
    then obtain c2 where 2: "clients w2 a = Some c2" "client_fd c2 = client_fd c1"
      "a \<noteq> c \<longrightarrow> out_fields c1 c2 \<and> inq w2 (client_fd c1) = inq w1 (client_fd c1)"
      using assms(2) 1(2) unfolding tended_def by force
    show ?thesis using 1 2 out_fields_trans by auto
  qed
  then show ?thesis using assms by (simp add: tended_def)
qed

lemma tended_step:
  assumes ok: "server_ok w" "c \<in> set (roster w)" "clients w c = Some ci"
    and ci': "client_fd ci' = client_fd ci" "msg_queue ci' = msg_queue ci" "client_wf ci'"
      "0 \<in> set (name ci')" "partial_len ci' \<le> INPUT_MAX"
  shows "tended c w (set_client c ci' (w\<lparr>inq := (inq w)(client_fd ci := q)\<rparr>))" (is "tended c w ?w")
proof -
  have ev: "evolves c w ?w"
    by (rule input_step_evolves [OF server_ok_client [OF ok(1,2)] server_ok_parts(1) [OF ok(1)] ok(3) ci'])
  have "\<exists>cj cj'. clients w a = Some cj \<and> clients ?w a = Some cj' \<and> client_fd cj' = client_fd cj \<and>
        (a \<noteq> c \<longrightarrow> out_fields cj cj' \<and> inq ?w (client_fd cj) = inq w (client_fd cj))"
    if a: "a \<in> set (roster w)" for a
  proof (cases "a = c")
    case True
    then show ?thesis using ok(3) ci'(1) by simp
  next
    case False
    obtain cj where cj: "clients w a = Some cj" using roster_alive [OF ok(1) a] by blast
    have "apart w a c" using ok a False by (simp add: server_ok_def)
    then have "client_fd cj \<noteq> client_fd ci" using cj ok(3) by (simp add: apart_def fd_of_def)
    then show ?thesis using False cj by simp
  qed
  then show ?thesis
    using evolves_keeps [OF ok(1,2) ev] by (simp add: tended_def)
qed

lemma round_tended:
  assumes "server_ok w" "c \<in> set (roster w)" "round_ok c w ci' w'"
  shows "tended c w w'" "quiet c w w'"
proof -
  obtain ci q where ci: "clients w c = Some ci" "read_fields ci ci'"
    and w': "w' = set_client c ci' (w\<lparr>inq := (inq w)(client_fd ci := q)\<rparr>)"
    using assms(3) by (auto simp: round_ok_def input_moved_def)
  note sel = read_fields_sel [OF ci(2)]
  have "client_ok w' c" using assms(2,3) server_ok_client by (auto simp: round_ok_def)
  then have "client_wf ci'" "0 \<in> set (name ci')" "partial_len ci' \<le> INPUT_MAX"
    by (auto simp: client_ok_def w')
  then show "tended c w w'" unfolding w' by (intro tended_step [OF assms(1,2) ci(1)] sel)
  show "quiet c w w'" using ci sel by (simp add: quiet_def w' idle_fields_def)
qed

text \<open>Steps of \<open>finish_payload\<close> that only touch the allocator or this client's input side.\<close>

lemma quiet_core:
  assumes "clients w c = Some ci" "same_core w w'" "sent w' = sent w" "clock w' = clock w"
    "server_shutdown w' = server_shutdown w"
  shows "quiet c w w'"
  using assms by (simp add: quiet_def same_core_def idle_fields_def)

lemma quiet_client:
  assumes "clients w c = Some ci" "idle_fields ci ci'"
  shows "quiet c w (set_client c ci' w)"
  using assms by (simp add: quiet_def)

lemma tended_client:
  assumes "server_ok w" "c \<in> set (roster w)" "clients w c = Some ci" "idle_fields ci ci'" "client_wf ci'"
    "partial_len ci' \<le> INPUT_MAX"
  shows "tended c w (set_client c ci' w)"
proof -
  obtain cj where "clients w c = Some cj" "0 \<in> set (name cj)"
    using client_okE [OF server_ok_client [OF assms(1,2)]] .
  then show ?thesis
    using tended_step [OF assms(1-3), of ci' "inq w (client_fd ci)"] assms(3-6)
    by (simp add: idle_fields_def)
qed

text \<open>
  \<open>frame_done c p dn w w' ms\<close>: the payload \<open>p\<close> of a frame with flag \<open>dn\<close> was added to the message of
  client \<open>c\<close>; when the flag was set the message was handled, successfully, and emptied.
\<close>

definition frame_done :: "ptr \<Rightarrow> byte list \<Rightarrow> byte \<Rightarrow> server \<Rightarrow> server \<Rightarrow> byte list list \<Rightarrow> bool" where
  "frame_done c p dn w w' ms \<longleftrightarrow>
     (\<exists>ci ci'. clients w c = Some ci \<and> clients w' c = Some ci' \<and>
        (if dn = 0 then ms = [] \<and> quiet c w w' \<and> message_of ci' = message_of ci @ p
         else ms = [message_of ci @ p] \<and> message_of ci' = [] \<and>
           (\<exists>wa wb. quiet c w wa \<and> quiet c wb w' \<and>
              process_payload c (Some (message_of ci @ p @ [0])) wa = Some (0, wb))))"

text \<open>
  \<open>thrown c w p dn w'\<close>: the payload \<open>p\<close> completed a message of client \<open>c\<close>, and handling the message
  ended the client.
\<close>

definition thrown :: "ptr \<Rightarrow> server \<Rightarrow> byte list \<Rightarrow> byte \<Rightarrow> server \<Rightarrow> bool" where
  "thrown c w p dn w' \<longleftrightarrow> dn \<noteq> 0 \<and>
     (\<exists>ci wa wb. clients w c = Some ci \<and> quiet c w wa \<and> tended c w wa \<and>
        process_payload c (Some (message_of ci @ p @ [0])) wa = Some (-1, wb) \<and> quiet c wb w')"

text \<open>\<open>talked c w ms w'\<close>: between \<open>w\<close> and \<open>w'\<close> client \<open>c\<close> said \<open>ms\<close>, and nothing else went on in the room.\<close>

definition talked :: "ptr \<Rightarrow> server \<Rightarrow> byte list list \<Rightarrow> server \<Rightarrow> bool" where
  "talked c w ms w' \<longleftrightarrow> room_run (room_of w) (map (Say c) ms) (room_of w')"

lemma quiet_room:
  assumes "quiet c w w'" "roster w' = roster w"
  shows "room_of w' = room_of w"
proof (rule room_of_cong [OF assms(2)])
  have q: "packets w' = packets w" "sent w' = sent w" "\<forall>a. a \<noteq> c \<longrightarrow> clients w' a = clients w a"
    using assms(1) by (simp_all add: quiet_def)
  obtain ci ci' where c: "clients w c = Some ci" "clients w' c = Some ci'" "idle_fields ci ci'"
    using assms(1) by (auto simp: quiet_def)
  have m: "member_of w' a x = member_of w a y"
    if "clients w' a = Some x" "clients w a = Some y" "idle_fields y x" for a x y
    using that q(1,2) by (simp add: member_of_def chan_pending_def queue_cells_def idle_fields_def display_name_def)
  show "map_option (member_of w' a) (clients w' a) = map_option (member_of w a) (clients w a)" for a
  proof (cases "a = c")
    case True
    then show ?thesis using m [OF c(2,1,3)] c(1,2) by simp
  next
    case False
    then have "clients w' a = clients w a" using q(3) by blast
    then show ?thesis using m [of a] by (cases "clients w a") (simp_all add: idle_fields_def)
  qed
qed (use assms(1) in \<open>simp add: quiet_def\<close>)

lemma talked_quiet: "quiet c w w' \<Longrightarrow> tended c w w' \<Longrightarrow> talked c w [] w'"
  using quiet_room [of c w w'] by (simp add: talked_def tended_def)

lemma talked_trans: "talked c w ms w1 \<Longrightarrow> talked c w1 ms' w' \<Longrightarrow> talked c w (ms @ ms') w'"
  unfolding talked_def map_append by (rule room_run_append)

lemma message_of_empty [simp]: "partial_len ci = 0 \<Longrightarrow> message_of ci = []"
  by (simp add: message_of_def split: option.split)

lemma tended_globals:
  "tended c w w' \<Longrightarrow> server_ok w' \<and> roster w' = roster w \<and> client_mutex w' = client_mutex w \<and>
     server_fd w' = server_fd w"
  by (simp add: tended_def)

lemma tended_client_kept:
  "tended c w w' \<Longrightarrow> c \<in> set (roster w) \<Longrightarrow> clients w c = Some ci \<Longrightarrow>
     \<exists>ci'. clients w' c = Some ci' \<and> client_fd ci' = client_fd ci"
  unfolding tended_def by force

lemma finish_spec:
  assumes ok: "server_ok w" "\<not> client_mutex w" "c \<in> set (roster w)" "clients w c = Some ci"
    and len: "payload_bytes_read ci \<le> BUF_SIZE" "partial_len ci + payload_bytes_read ci \<le> INPUT_MAX"
  shows "ok (finish_payload c w) (\<lambda>(s, w'). tended c w w' \<and> inq w' = inq w \<and>
     (\<exists>ms. talked c w ms w' \<and>
     (s = Return (-1) \<and> thrown c w (take (payload_bytes_read ci) (payload_buffer ci)) (msg_done ci) w' \<or>
      s = Again \<and> (\<exists>ci'. clients w' c = Some ci' \<and> state ci' = READ_HEADER \<and> header_bytes_read ci' = 0 \<and>
         partial_len ci' \<le> partial_len ci + payload_bytes_read ci) \<and>
       frame_done c (take (payload_bytes_read ci) (payload_buffer ci)) (msg_done ci) w w' ms)))"
proof -
  let ?p = "take (payload_bytes_read ci) (payload_buffer ci)"
  have wf: "client_wf ci" using client_okE [OF server_ok_client [OF ok(1,3)]] ok(4) by force
  obtain w1 c1 ms0 where a: "append_to_client_buffer c w = Some (0, w1)"
    and w1: "w1 = set_client c c1 (w\<lparr>mallocs := ms0\<rparr>)" "set ms0 \<subseteq> set (mallocs w)"
    and c1: "client_wf c1" "message_of c1 = message_of ci @ ?p" "partial_len c1 = partial_len ci + payload_bytes_read ci"
    and c1f: "c1 = ci\<lparr>partial_msg := partial_msg c1, partial_len := partial_len c1, partial_cap := partial_cap c1\<rparr>"
    using append_spec [OF ok(4) wf server_ok_parts(2) [OF ok(1)] len] by (auto simp: ok_conv)
  have idle1: "idle_fields ci c1" and md: "msg_done c1 = msg_done ci"
    by (subst c1f, simp add: idle_fields_def) (subst c1f, simp)
  let ?w0 = "w\<lparr>mallocs := ms0\<rparr>"
  have sc0: "same_core w ?w0" using w1(2) by (simp add: same_core_def)
  have t0: "tended c w ?w0" by (rule tended_in_order [OF in_order_core [OF ok(1) sc0]]) simp
  have t01: "tended c ?w0 w1"
    unfolding w1(1) using tended_globals [OF t0] ok(3,4) idle1 c1(1,3) len
    by (intro tended_client) auto
  have t1: "tended c w w1" using tended_trans [OF t0 t01] .
  have q1: "quiet c w w1"
    using quiet_trans [OF quiet_core [OF ok(4) sc0] quiet_client [of ?w0 c ci c1]] ok(4) idle1 w1(1) by simp
  have cl1: "clients w1 c = Some c1" and inq1: "inq w1 = inq w" by (simp_all add: w1(1))
  have reset: "tended c w' (set_client c (cx\<lparr>state := READ_HEADER, header_bytes_read := 0, expected_payload_len := 0\<rparr>) w')
      \<and> quiet c w' (set_client c (cx\<lparr>state := READ_HEADER, header_bytes_read := 0, expected_payload_len := 0\<rparr>) w')"
    if "server_ok w'" "c \<in> set (roster w')" "clients w' c = Some cx" for w' cx
  proof -
    have "client_wf cx" "partial_len cx \<le> INPUT_MAX"
      using client_okE [OF server_ok_client [OF that(1,2)]] that(3) by force+
    then have "client_wf (cx\<lparr>state := READ_HEADER, header_bytes_read := 0, expected_payload_len := 0\<rparr>)"
      by (auto simp: client_wf_def)
    then show ?thesis
      using \<open>partial_len cx \<le> INPUT_MAX\<close> that
      by (auto intro!: tended_client quiet_client simp: idle_fields_def)
  qed
  show ?thesis
  proof (cases "msg_done ci = 0")
    case True
    let ?c2 = "c1\<lparr>state := READ_HEADER, header_bytes_read := 0, expected_payload_len := 0\<rparr>"
    have run: "finish_payload c w = Some (Again, set_client c ?c2 w1)"
      using a cl1 md True by (simp add: finish_payload_def)
    have t: "tended c w (set_client c ?c2 w1)" and q: "quiet c w (set_client c ?c2 w1)"
      using reset [of w1 c1] tended_globals [OF t1] ok(3) cl1 tended_trans [OF t1] quiet_trans [OF q1] by auto
    moreover have "message_of ?c2 = message_of c1" by (simp add: message_of_def split: option.split)
    ultimately show ?thesis
      unfolding run using c1 ok(4) inq1 True t q talked_quiet [OF q t]
      by (auto simp: frame_done_def intro!: exI [of _ "[]"])
  next
    case False
    let ?m = "message_of ci @ ?p"
    obtain buf where buf: "partial_msg c1 = Some buf" "partial_len c1 \<le> length buf"
      using c1(1) by (auto simp: client_wf_def)
    have mo: "take (partial_len c1) buf = ?m" using c1(2) buf(1) by (simp add: message_of_def)
    note g1 = tended_globals [OF t1]
    let ?w2 = "w1\<lparr>mallocs := tl (mallocs w1), live_bufs := live_bufs w1 + 1\<rparr>"
    have cb: "copy_buffer (partial_msg c1) (partial_len c1) w1 = Some (Some (?m @ [0]), ?w2)"
      using copy_buffer_spec [of w1 "partial_len c1" buf] server_ok_parts(2) [of w1] g1 buf c1(3) len mo by simp
    have sc2: "same_core w1 ?w2" by (simp add: same_core_def set_tl_subset)
    have o2: "in_order c w1 ?w2" using g1 by (intro in_order_core [OF _ sc2]) simp_all
    have q2: "quiet c w ?w2" by (rule quiet_trans [OF q1 quiet_core [OF cl1 sc2]]) simp_all
    have t2: "tended c w ?w2" using tended_trans [OF t1 tended_in_order [OF o2]] .
    have "length ?m = partial_len c1" using length_message_of [OF c1(1)] c1(2) by simp
    then have "length (?m @ [0]) \<le> Suc INPUT_MAX" using c1(3) len by simp
    moreover have "clients ?w2 c = Some c1" "\<not> client_mutex ?w2" "c \<in> set (roster ?w2)" "server_ok ?w2"
      using cl1 tended_globals [OF t2] ok by simp_all
    ultimately obtain r w3 where p: "process_payload c (Some (?m @ [0])) ?w2 = Some (r, w3)"
      and r: "r = 0 \<or> r = -1" and o3: "in_order c ?w2 w3"
      using process_payload_safe [of ?w2 c c1 "?m @ [0]"] by (auto simp: ok_conv)
    have "talked c ?w2 [?m] w3"
    proof -
      have "length (message_of c1) \<le> INPUT_MAX" using length_message_of [OF c1(1)] c1(3) len by simp
      then have "said c ?m (room_of ?w2) (room_of w3)"
        using process_payload_said [of ?w2 c c1] p c1(2) cl1 tended_globals [OF t2] ok by simp
      then show ?thesis
        using tended_globals [OF t2] ok(3) by (auto simp: talked_def intro!: room_run_one step_say)
    qed
    from talked_trans [OF talked_quiet [OF q2 t2] this] have said3: "talked c w [?m] w3" by simp
    let ?w4 = "free_buf (Some (?m @ [0])) w3"
    have t3: "tended c w w3" using tended_trans [OF t2 tended_in_order [OF o3]] .
    have sc4: "same_core w3 ?w4" by (simp add: same_core_def free_buf_def)
    have t4: "tended c w ?w4"
      using tended_trans [OF t3 tended_in_order [OF in_order_core [OF _ sc4]]] tended_globals [OF t3]
      by (simp add: free_buf_def)
    have ro3: "roster ?w4 = roster w3" by (simp add: roster_def free_buf_def)
    have inq4: "inq ?w4 = inq w" using o3 inq1 by (simp add: in_order_def free_buf_def)
    obtain c4 where c4: "clients ?w4 c = Some c4" using tended_client_kept [OF t4 ok(3,4)] by blast
    note g4 = tended_globals [OF t4]
    have wf4: "client_wf c4" using client_okE [OF server_ok_client [of ?w4 c]] g4 ok(3) c4 by force
    obtain c5 where clr: "clear_client_buffer c ?w4 = Some (0, set_client c c5 ?w4)" "client_wf c5"
      and c5: "c5 = c4\<lparr>partial_msg := partial_msg c5, partial_len := 0, partial_cap := BUF_SIZE\<rparr>"
      using clear_spec [OF c4 wf4] by blast
    have idle5: "idle_fields c4 c5" and l5: "partial_len c5 = 0"
      by (subst c5, simp add: idle_fields_def) (subst c5, simp)
    let ?w5 = "set_client c c5 ?w4"
    let ?c6 = "c5\<lparr>state := READ_HEADER, header_bytes_read := 0, expected_payload_len := 0\<rparr>"
    have t5: "tended c w ?w5"
      using tended_trans [OF t4 tended_client [OF _ _ c4 idle5 clr(2)]] g4 ok(3) l5 by simp
    have c3: "clients w3 c = Some c4" using c4 by (simp add: free_buf_def)
    have q35: "quiet c w3 ?w5"
      by (rule quiet_trans [OF quiet_core [OF c3 sc4] quiet_client [OF c4 idle5]]) (simp_all add: free_buf_def)
    have fin: "tended c w (set_client c ?c6 ?w5)" "quiet c w3 (set_client c ?c6 ?w5)"
      using reset [of ?w5 c5] tended_globals [OF t5] ok(3) tended_trans [OF t5] quiet_trans [OF q35] by auto
    have run: "finish_payload c w = (if r = -1 then Some (Return (-1), ?w4) else Some (Again, set_client c ?c6 ?w5))"
      using a cl1 md False cb p clr(1) by (simp add: finish_payload_def)
    show ?thesis
    proof (cases "r = -1")
      case True
      have "quiet c w3 ?w4" by (rule quiet_core [OF c3 sc4]) (simp_all add: free_buf_def)
      then have "talked c w [?m] ?w4" "thrown c w ?p (msg_done ci) ?w4"
        using said3 quiet_room [OF _ ro3] False q2 t2 p True ok(4) by (auto simp: talked_def thrown_def)
      then show ?thesis unfolding run using t4 inq4 True by auto
    next
      case z: False
      then have "r = 0" using r by simp
      then have "frame_done c ?p (msg_done ci) w (set_client c ?c6 ?w5) [?m]"
        unfolding frame_done_def using ok(4) False q2 fin(2) p l5
        by (intro exI [of _ ci] exI [of _ ?c6] conjI) auto
      moreover have "talked c w [?m] (set_client c ?c6 ?w5)"
        using said3 quiet_room [OF fin(2)] tended_globals [OF fin(1)] tended_globals [OF t3] by (simp add: talked_def)
      ultimately show ?thesis
        unfolding run using z fin(1) inq4 l5 by auto
    qed
  qed
qed

text \<open>
  \<open>waits\<close>: bytes arrived, no frame was completed. \<open>gives_up c w w'\<close>: the round that starts in \<open>w\<close> ends
  with -1 in \<open>w'\<close>, and why: its input is bad, or it completes a message that ends the client.
\<close>

definition waits :: "ptr \<Rightarrow> server \<Rightarrow> server \<Rightarrow> bool" where
  "waits c w w' \<longleftrightarrow> quiet c w w' \<and>
     map_option message_of (clients w' c) = map_option message_of (clients w c)"

definition gives_up :: "ptr \<Rightarrow> server \<Rightarrow> server \<Rightarrow> bool" where
  "gives_up c w w' \<longleftrightarrow> (\<exists>ci. clients w c = Some ci \<and>
     (waits c w w' \<and> bad_input ci (inq w (client_fd ci)) \<or>
      (\<exists>p ty dn rest. length p \<le> BUF_SIZE \<and> thrown c w p dn w' \<and>
         taken ci @ next_chunk (inq w (client_fd ci)) = raw_bytes (p, ty, dn) @ rest)))"

lemma round_waits:
  assumes "server_ok w" "c \<in> set (roster w)" "round_ok c w ci' w'"
  shows "waits c w w'"
proof -
  obtain ci q where ci: "clients w c = Some ci" "read_fields ci ci'" "clients w' c = Some ci'"
    using assms(3) by (auto simp: round_ok_def input_moved_def)
  have "message_of ci' = message_of ci"
    using read_fields_sel [OF ci(2)] by (simp add: message_of_def split: option.split)
  then show ?thesis using round_tended(2) [OF assms] ci by (simp add: waits_def)
qed

lemma thrown_quiet:
  assumes "quiet c w w1" "tended c w w1" "thrown c w1 p dn w'" "clients w c = Some ci"
    "clients w1 c = Some c1" "message_of c1 = message_of ci"
  shows "thrown c w p dn w'"
  using assms quiet_trans [OF assms(1)] tended_trans [OF assms(2)] unfolding thrown_def by fastforce

lemma payload_step_spec:
  assumes ok: "server_ok w" "\<not> client_mutex w" "c \<in> set (roster w)" "clients w c = Some ci"
    and st: "state ci = READ_PAYLOAD" and bud: "budget w ci \<le> INPUT_MAX"
  shows "ok (read_payload_step c w) (\<lambda>(s, w'). tended c w w' \<and>
     (case s of
        Return r \<Rightarrow> r = -1 \<and> (\<exists>ms. talked c w ms w') \<and> gives_up c w w' \<or>
           r = 0 \<and> quiet c w w' \<and> input_view c w' = input_view c w \<and>
           pauses (inq w (client_fd ci)) (inq w' (client_fd ci)) \<and>
           (\<exists>ci'. clients w' c = Some ci' \<and> budget w' ci' \<le> INPUT_MAX \<and> message_of ci' = message_of ci \<and>
              awaits ci')
      | Again \<Rightarrow> \<exists>p ms ci'. length p \<le> BUF_SIZE \<and>
           input_view c w = raw_bytes (p, msg_type ci, msg_done ci) @ input_view c w' \<and>
           frame_done c p (msg_done ci) w w' ms \<and> talked c w ms w' \<and> clients w' c = Some ci' \<and>
           state ci' = READ_HEADER \<and> header_bytes_read ci' = 0 \<and> budget w' ci' \<le> INPUT_MAX \<and>
           read_on (inq w (client_fd ci)) (inq w' (client_fd ci)) \<and>
           length (rd_data (inq w' (client_fd ci))) \<le> length (rd_data (inq w (client_fd ci)))))"
proof -
  let ?d = "client_fd ci" and ?pr = "payload_bytes_read ci" and ?n = "unat (expected_payload_len ci)"
  obtain cj where "clients w c = Some cj" "client_wf cj" "opened w (client_fd cj)"
    using client_okE [OF server_ok_client [OF ok(1,3)]] .
  then have wf: "client_wf ci" and op: "opened w ?d" using ok(4) by simp_all
  have n: "?pr \<le> ?n" "?n \<le> BUF_SIZE" "length (payload_buffer ci) = BUF_SIZE"
    using wf st by (auto simp: client_wf_def)
  obtain r w1 where r: "sys_read ?d (sz_sub ?n ?pr) w = (r, w1)" by fastforce
  obtain q where w1: "w1 = w\<lparr>inq := (inq w)(?d := q)\<rparr>"
    and rd: "case r of Inl _ \<Rightarrow> rd_data q = rd_data (inq w ?d)
             | Inr bs \<Rightarrow> length bs \<le> ?n - ?pr \<and> rd_data (inq w ?d) = bs @ rd_data q"
    using sys_read_rd [OF r op] unfolding sz_sub_small [OF n(1)] by blast
  have script: "case r of
     Inl e \<Rightarrow> inq w ?d = [] \<and> q = [] \<and> e = EAGAIN \<or> inq w ?d = RdErr e # q
   | Inr bs \<Rightarrow> read_on (inq w ?d) q \<and> prefix bs (next_chunk (inq w ?d)) \<and>
       (length bs < ?n - ?pr \<longrightarrow> (\<exists>evs. inq w ?d = RdEof # evs) \<and> q = inq w ?d \<and> bs = [] \<or>
          inq w ?d = RdData bs # q)"
  proof (cases "?pr < ?n")
    case True
    then show ?thesis
      using sys_read_script [OF r op] sz_sub_small [OF n(1)] by (simp add: w1 split: sum.splits)
  next
    case False
    then have e: "r = Inr []" "w1 = w" using r op sz_sub_small [OF n(1)] by (auto simp: sys_read_nothing)
    have "inq w1 ?d = q" by (simp add: w1)
    then show ?thesis using False e by (simp add: read_on_refl)
  qed
  have view: "input_view c w = taken ci @ rd_data (inq w ?d)" using ok(4) by (simp add: input_view_def)
  note mk = moved_round [OF ok(1,3,4), where q = q, folded w1]
  note tend = round_tended [OF ok(1,3)]
  have same: "w1 = set_client c ci w1" using ok(4) by (simp add: w1)
  show ?thesis
  proof (cases r)
    case (Inl e)
    have t: "tended c w w1" and q: "quiet c w w1" using tend [OF mk [OF read_fields_refl wf]] same by simp_all
    have "clients w1 c = Some ci" using ok(4) by (simp add: w1)
    moreover note talked_quiet [OF q t]
    moreover have "?pr < ?n"
      using r Inl op n(1) sz_sub_small [OF n(1)] sys_read_nothing [OF op] by (cases "?pr = ?n") auto
    then have "awaits ci" by (simp add: awaits_def st)
    moreover have "gives_up c w w1" if "e \<noteq> EAGAIN" "e \<noteq> EWOULDBLOCK"
      using script that ok(4) round_waits [OF ok(1,3) mk [OF read_fields_refl wf]] same
      by (auto simp: Inl gives_up_def bad_input_def)
    moreover have "pauses (inq w ?d) (inq w1 ?d)"
      using script by (auto simp: Inl w1 pauses_def intro: read_on_refl)
    moreover have "input_view c w1 = input_view c w" "budget w1 ci = budget w ci"
      using view rd Inl ok(4) by (simp_all add: w1 input_view_def budget_def)
    ultimately show ?thesis
      using ok(4) r Inl bud t q by (auto simp: read_payload_step_def)
  next
    case (Inr bs)
    have bs: "length bs \<le> ?n - ?pr" "rd_data (inq w ?d) = bs @ rd_data q" using rd Inr by auto
    let ?pb = "take ?pr (payload_buffer ci) @ bs @ drop (?pr + length bs) (payload_buffer ci)"
    let ?c1 = "ci\<lparr>payload_buffer := ?pb, payload_bytes_read := ?pr + length bs\<rparr>"
    let ?w1 = "set_client c ?c1 w1"
    have fit: "?pr + length bs \<le> ?n" using bs(1) n(1) by simp
    then have mc: "memcpy_at (payload_buffer ci) ?pr bs = Some ?pb" using n by (simp add: memcpy_at_def)
    have add: "sz_add ?pr (length bs) = ?pr + length bs"
      using fit n(2) by (simp add: sz_add_def SIZE_MOD_def BUF_SIZE_def)
    have wf1: "client_wf ?c1"
      using wf fit memcpy_at_length [OF mc] unfolding client_wf_def by simp
    have rf1: "read_fields ci ?c1" by (simp add: read_fields_def)
    have tk: "take (?pr + length bs) ?pb = take ?pr (payload_buffer ci) @ bs" by (rule take_memcpy_at [OF mc])
    note rd1 = mk [OF rf1 wf1]
    have t1: "tended c w ?w1" and q1: "quiet c w ?w1" using tend [OF rd1] by simp_all
    have v1: "input_view c ?w1 = input_view c w"
      unfolding view using bs(2) st by (simp add: input_view_def taken_def w1 tk del: take_append)
    have b1: "budget ?w1 ?c1 = budget w ci" using bs(2) st by (simp add: budget_def w1)
    show ?thesis
    proof (cases "?pr + length bs < ?n")
      case True
      have "read_payload_step c w = Some (Return 0, ?w1)"
        using ok(4) r Inr mc add True by (simp add: read_payload_step_def)
      moreover have "message_of ?c1 = message_of ci" by (simp add: message_of_def split: option.split)
      moreover have "pauses (inq w ?d) (inq ?w1 ?d)"
      proof -
        have "length bs < ?n - ?pr" using True by simp
        then have "(\<exists>evs. inq w ?d = RdEof # evs) \<and> q = inq w ?d \<or> inq w ?d = RdData bs # q"
          using script by (simp add: Inr) blast
        then show ?thesis by (auto simp: w1 pauses_def intro: read_on_refl)
      qed
      moreover have "awaits ?c1" using True by (simp add: awaits_def st)
      ultimately show ?thesis using t1 q1 v1 b1 bud by auto
    next
      case False
      then have full: "?pr + length bs = ?n" using fit by simp
      have run: "read_payload_step c w = finish_payload c ?w1"
        using ok(4) r Inr mc add full by (simp add: read_payload_step_def)
      note g1 = tended_globals [OF t1]
      have len: "payload_bytes_read ?c1 \<le> BUF_SIZE" "partial_len ?c1 + payload_bytes_read ?c1 \<le> INPUT_MAX"
        using full n(2) bud b1 st by (simp_all add: budget_def)
      have pre: "server_ok ?w1" "\<not> client_mutex ?w1" "c \<in> set (roster ?w1)" "clients ?w1 c = Some ?c1"
        using g1 ok by simp_all
      let ?p = "take ?pr (payload_buffer ci) @ bs"
      have p: "take (payload_bytes_read ?c1) (payload_buffer ?c1) = ?p" using tk by simp
      have lp: "length ?p = ?n" using full n by simp
      have v: "input_view c w = raw_bytes (?p, msg_type ci, msg_done ci) @ rd_data q"
        unfolding view raw_bytes_def prod.case lp using bs(2) st by (simp add: taken_def)
      show ?thesis
        unfolding run
      proof (rule ok_weaken [OF finish_spec [OF pre len]], goal_cases)
        case (1 x)
        obtain s w' where x: "x = (s, w')" by fastforce
        have t: "tended c w w'" using 1 tended_trans [OF t1] by (simp add: x)
        have inq': "inq w' = inq w1" using 1 by (simp add: x)
        have talk: "talked c w ms w'" if "talked c ?w1 ms w'" for ms
          using talked_trans [OF talked_quiet [OF q1 t1] that] by simp
        show ?case
        proof (cases "s = Return (-1)")
          case True
          then have th: "thrown c ?w1 ?p (msg_done ci) w'" and tk2: "\<exists>ms. talked c ?w1 ms w'"
            using 1 unfolding x prod.case p by auto
          have mo: "message_of ?c1 = message_of ci" by (simp add: message_of_def split: option.split)
          have "thrown c w ?p (msg_done ci) w'" by (rule thrown_quiet [OF q1 t1 th ok(4) _ mo]) simp
          moreover obtain rest where rest: "next_chunk (inq w ?d) = bs @ rest"
            using script by (auto simp: Inr elim: prefixE)
          have "taken ci @ next_chunk (inq w ?d) = raw_bytes (?p, msg_type ci, msg_done ci) @ rest"
            unfolding raw_bytes_def prod.case lp rest using st by (simp add: taken_def)
          moreover have "length ?p \<le> BUF_SIZE" using lp n(2) by simp
          ultimately have "gives_up c w w'" using ok(4) unfolding gives_up_def by blast
          then show ?thesis using True t talk tk2 by (auto simp: x)
        next
          case False
          then obtain ci' ms where s: "s = Again" and ci': "clients w' c = Some ci'" "state ci' = READ_HEADER"
            "header_bytes_read ci' = 0" "partial_len ci' \<le> partial_len ci + (?pr + length bs)"
            and fd: "frame_done c ?p (msg_done ci) ?w1 w' ms" and tk1: "talked c ?w1 ms w'"
            using 1 unfolding x prod.case p by auto
          have cfd: "client_fd ci' = ?d" using tended_client_kept [OF t ok(3,4)] ci'(1) by auto
          have "input_view c w' = rd_data q"
            using ci' cfd by (simp add: input_view_def taken_def inq' w1)
          moreover have "budget w' ci' \<le> INPUT_MAX"
            using ci' cfd bud bs(2) st by (simp add: budget_def inq' w1)
          moreover have "frame_done c ?p (msg_done ci) w w' ms"
          proof -
            have mo: "message_of ?c1 = message_of ci" by (simp add: message_of_def split: option.split)
            show ?thesis
              using fd quiet_trans [OF q1] ok(4) unfolding frame_done_def
              by (auto simp: mo split: if_splits intro: exI)
          qed
          moreover have "length (rd_data (inq w' ?d)) \<le> length (rd_data (inq w ?d))"
            using bs(2) by (simp add: inq' w1)
          ultimately show ?thesis
            using t s v lp n(2) ci'(1,2,3) talk [OF tk1] script Inr unfolding x prod.case
            by (auto simp: inq' w1 simp del: length_append intro!: exI [of _ ?p] exI [of _ ms])
        qed
      qed
    qed
  qed
qed

section \<open>The loop refines reading frame by frame\<close>

text \<open>
  \<open>reads c w fs ms w'\<close>: between \<open>w\<close> and \<open>w'\<close> the
  frames \<open>fs\<close> were completed and the messages \<open>ms\<close> handled. \<open>assemble\<close> is what a reader of
  whole frames does: payloads add up until a frame's flag says the message is complete.
\<close>

inductive reads :: "ptr \<Rightarrow> server \<Rightarrow> raw_frame list \<Rightarrow> byte list list \<Rightarrow> server \<Rightarrow> bool" for c where
  reads_none: "waits c w w' \<Longrightarrow> reads c w [] [] w'"
| reads_frame: "frame_done c p dn w w1 ms \<Longrightarrow> reads c w1 fs ms' w' \<Longrightarrow>
     reads c w ((p, ty, dn) # fs) (ms @ ms') w'"

inductive_cases reads_nilE: "reads c w [] ms w'"
inductive_cases reads_consE: "reads c w (f # fs) ms w'"

fun assemble :: "byte list \<Rightarrow> raw_frame list \<Rightarrow> byte list list \<times> byte list" where
  "assemble acc [] = ([], acc)"
| "assemble acc ((p, ty, dn) # fs) =
     (if dn = 0 then assemble (acc @ p) fs
      else (let (ms, rest) = assemble [] fs in ((acc @ p) # ms, rest)))"

lemma waits_trans: "waits c w w1 \<Longrightarrow> waits c w1 w2 \<Longrightarrow> waits c w w2"
  using quiet_trans unfolding waits_def by metis

lemma waits_frame_done:
  assumes "waits c w w1" "frame_done c p dn w1 w2 ms"
  shows "frame_done c p dn w w2 ms"
proof -
  have q: "quiet c w w1" using assms(1) by (simp add: waits_def)
  obtain c0 c1 where c: "clients w c = Some c0" "clients w1 c = Some c1" "message_of c1 = message_of c0"
    using assms(1) by (auto simp: waits_def quiet_def)
  show ?thesis
  proof (cases "dn = 0")
    case True
    then show ?thesis using assms(2) c quiet_trans [OF q] by (auto simp: frame_done_def)
  next
    case False
    then obtain c2 wa wb where *: "clients w2 c = Some c2" "ms = [message_of c1 @ p]" "message_of c2 = []"
      "quiet c w1 wa" "quiet c wb w2" "process_payload c (Some (message_of c1 @ p @ [0])) wa = Some (0, wb)"
      using assms(2) c by (auto simp: frame_done_def)
    show ?thesis
      unfolding frame_done_def
      using False c * quiet_trans [OF q *(4)]
      by - (rule exI [of _ c0], rule exI [of _ c2], auto)
  qed
qed

lemma waits_reads:
  assumes a: "reads c w1 fs ms w'" and b: "waits c w w1"
  shows "reads c w fs ms w'"
  using a
proof cases
  case reads_none
  then show ?thesis using waits_trans [OF b] by (simp add: reads.reads_none)
next
  case (reads_frame p dn w2 ms1 fs' ms' ty)
  show ?thesis
    unfolding reads_frame(1,2)
    by (rule reads.reads_frame [OF waits_frame_done [OF b reads_frame(3)] reads_frame(4)])
qed

text \<open>What was handled is what the assembly of the frames gives.\<close>

lemma reads_assemble:
  "reads c w fs ms w' \<Longrightarrow> clients w c = Some ci \<Longrightarrow>
     \<exists>ci'. clients w' c = Some ci' \<and> assemble (message_of ci) fs = (ms, message_of ci')"
proof (induction arbitrary: ci rule: reads.induct)
  case (reads_none w w')
  then show ?case by (auto simp: waits_def)
next
  case (reads_frame p dn w w1 ms fs ms' w' ty)
  obtain c1 where c1: "clients w1 c = Some c1"
    "if dn = 0 then ms = [] \<and> message_of c1 = message_of ci @ p
     else ms = [message_of ci @ p] \<and> message_of c1 = []"
    using reads_frame.hyps(1) reads_frame.prems by (auto simp: frame_done_def split: if_splits)
  obtain ci' where "clients w' c = Some ci'" "assemble (message_of c1) fs = (ms', message_of ci')"
    using reads_frame.IH [OF c1(1)] by blast
  then show ?case using c1 by (auto split: if_splits)
qed

text \<open>
  How a call ends. \<open>read_to c w fs w1\<close>: up to \<open>w1\<close> the frames \<open>fs\<close> were completed and every byte is accounted
  for. \<open>read_ends\<close>: with 0 the call stops there, having read until the socket had no more to give or a
  piece fell short; with -1 it stopped in the next round, and there is a reason.
\<close>

definition read_to :: "ptr \<Rightarrow> server \<Rightarrow> raw_frame list \<Rightarrow> byte list list \<Rightarrow> server \<Rightarrow> bool" where
  "read_to c w fs ms w1 \<longleftrightarrow> reads c w fs ms w1 \<and> (\<forall>f \<in> set fs. length (fst f) \<le> BUF_SIZE) \<and>
     input_view c w = concat (map raw_bytes fs) @ input_view c w1 \<and> fd_of w1 c = fd_of w c \<and>
     (\<exists>ci1. clients w1 c = Some ci1 \<and> budget w1 ci1 \<le> INPUT_MAX)"

definition read_ends :: "ptr \<Rightarrow> client_info \<Rightarrow> server \<Rightarrow> int \<Rightarrow> raw_frame list \<Rightarrow> byte list list
    \<Rightarrow> server \<Rightarrow> server \<Rightarrow> bool" where
  "read_ends c ci w r fs ms w1 w' \<longleftrightarrow> read_to c w fs ms w1 \<and>
     (r = 0 \<and> w1 = w' \<and> talked c w ms w' \<and> pauses (inq w (client_fd ci)) (inq w' (client_fd ci)) \<and>
        (\<exists>ci'. clients w' c = Some ci' \<and> awaits ci') \<or>
      r = -1 \<and> (\<exists>ms'. talked c w ms' w') \<and> read_on (inq w (client_fd ci)) (inq w1 (client_fd ci)) \<and>
        (gives_up c w1 w' \<or> fs = [] \<and> w1 = w \<and> refused ci))"

lemma waits_refl: "clients w c = Some ci \<Longrightarrow> waits c w w"
  by (simp add: waits_def quiet_def idle_fields_def)

lemma tended_fd:
  "tended c w w1 \<Longrightarrow> c \<in> set (roster w) \<Longrightarrow> clients w c = Some ci \<Longrightarrow> fd_of w1 c = fd_of w c"
  using tended_client_kept by (fastforce simp: fd_of_def)

lemma read_to_start:
  "clients w c = Some ci \<Longrightarrow> budget w ci \<le> INPUT_MAX \<Longrightarrow> read_to c w [] [] w"
  using waits_refl by (simp add: read_to_def reads_none)

lemma read_ends_waits:
  assumes "waits c w w1" "input_view c w1 = input_view c w" "talked c w [] w1" "fd_of w1 c = fd_of w c"
    "read_on (inq w (client_fd ci)) (inq w1 (client_fd ci))" "client_fd c1 = client_fd ci" "\<not> refused c1"
    "read_ends c c1 w1 r fs ms w2 w'"
  shows "read_ends c ci w r fs ms w2 w'"
proof -
  have "read_to c w fs ms w2"
    using assms(2,4,8) waits_reads [OF _ assms(1)] by (simp add: read_ends_def read_to_def)
  then show ?thesis
    using assms(5-8) talked_trans [OF assms(3)] read_on_trans [OF assms(5)] read_on_pauses [OF assms(5)]
    unfolding read_ends_def by fastforce
qed

lemma read_ends_frame:
  assumes "frame_done c p dn w w1 ms" "input_view c w = raw_bytes (p, ty, dn) @ input_view c w1"
    "length p \<le> BUF_SIZE" "talked c w ms w1" "fd_of w1 c = fd_of w c"
    "read_on (inq w (client_fd ci)) (inq w1 (client_fd ci))" "client_fd c1 = client_fd ci" "\<not> refused c1" "read_ends c c1 w1 r fs ms' w2 w'"
  shows "read_ends c ci w r ((p, ty, dn) # fs) (ms @ ms') w2 w'"
proof -
  have "read_to c w ((p, ty, dn) # fs) (ms @ ms') w2"
    using assms(2,3,5,9) reads_frame [OF assms(1)] by (simp add: read_ends_def read_to_def)
  then show ?thesis
    using assms(6-9) talked_trans [OF assms(4)] read_on_trans [OF assms(6)] read_on_pauses [OF assms(6)]
    unfolding read_ends_def by fastforce
qed

lemma handle_client_read_ends:
  assumes "server_ok w" "\<not> client_mutex w" "c \<in> set (roster w)" "clients w c = Some ci"
    "budget w ci \<le> INPUT_MAX"
  shows "ok (handle_client_read c w) (\<lambda>(r, w'). tended c w w' \<and> (\<exists>fs ms w1. read_ends c ci w r fs ms w1 w'))"
  using assms
proof (induction "2 * length (rd_data (inq w (client_fd ci))) + (if state ci = READ_PAYLOAD then 1 else 0)"
    arbitrary: w ci rule: less_induct)
  case (less w ci)
  note ok = less.prems
  note start = read_to_start [OF ok(4,5)]
  show ?case
  proof (cases "state ci")
    case READ_HEADER
    obtain s w1 c1 where s: "read_header_step c w = Some (s, w1)" and rd: "round_ok c w c1 w1"
      and b1: "budget w1 c1 \<le> INPUT_MAX"
      and res: "case s of Return r \<Rightarrow> r = -1 \<and> (bad_input ci (inq w (client_fd ci)) \<or> refused ci) \<or>
          r = 0 \<and> input_view c w1 = input_view c w \<and> awaits c1 \<and>
          pauses (inq w (client_fd ci)) (inq w1 (client_fd ci))
        | Again \<Rightarrow> input_view c w1 = input_view c w \<and> state c1 = READ_PAYLOAD \<and>
          read_on (inq w (client_fd ci)) (inq w1 (client_fd ci)) \<and>
          length (rd_data (inq w1 (client_fd ci))) < length (rd_data (inq w (client_fd ci)))"
      using header_step_spec [OF ok(1,3,4) READ_HEADER ok(5)] by (auto elim!: okE)
    have c1: "clients w1 c = Some c1" using rd by (simp add: round_ok_def)
    have t1: "tended c w w1" by (rule round_tended [OF ok(1,3) rd])
    have wt: "waits c w w1" by (rule round_waits [OF ok(1,3) rd])
    have k1: "talked c w [] w1" using talked_quiet [OF _ t1] wt by (simp add: waits_def)
    have fw: "fd_of w1 c = fd_of w c" by (rule tended_fd [OF t1 ok(3,4)])
    show ?thesis
    proof (cases s)
      case (Return r)
      have "\<exists>fs ms w2. read_ends c ci w r fs ms w2 w1"
      proof (cases "r = -1")
        case True
        then have "bad_input ci (inq w (client_fd ci)) \<or> refused ci" using res Return by simp
        then have "read_ends c ci w (-1) [] [] w w1"
          using start k1 wt ok(4) unfolding read_ends_def gives_up_def by (blast intro: read_on_refl)
        then show ?thesis using True by blast
      next
        case False
        then have z: "r = 0" "input_view c w1 = input_view c w" "awaits c1" "pauses (inq w (client_fd ci)) (inq w1 (client_fd ci))"
          using res Return by simp_all
        then have "read_ends c ci w 0 [] [] w1 w1"
          using k1 wt c1 b1 z fw by (simp add: read_ends_def read_to_def reads_none)
        then show ?thesis using z(1) by blast
      qed
      then show ?thesis
        using s ok(4) READ_HEADER Return t1 by (subst handle_client_read.simps) simp
    next
      case Again
      have fd: "client_fd c1 = client_fd ci" using tended_client_kept [OF t1 ok(3,4)] c1 by auto
      have nr: "\<not> refused c1" using res Again by (simp add: refused_def)
      have "ok (handle_client_read c w1) (\<lambda>(r, w'). tended c w1 w' \<and> (\<exists>fs ms w2. read_ends c c1 w1 r fs ms w2 w'))"
        using less.hyps [OF _ _ _ _ c1 b1] tended_globals [OF t1] ok(1-3) res Again fd READ_HEADER by simp
      then have "ok (handle_client_read c w1) (\<lambda>(r, w'). tended c w w' \<and> (\<exists>fs ms w2. read_ends c ci w r fs ms w2 w'))"
      proof (rule ok_weaken, goal_cases)
        case (1 x)
        obtain r w' where x: "x = (r, w')" by fastforce
        obtain fs ms w2 where e: "read_ends c c1 w1 r fs ms w2 w'" using 1 by (auto simp: x)
        have "read_ends c ci w r fs ms w2 w'"
          using res Again by (intro read_ends_waits [OF wt _ k1 fw _ fd nr e]) simp_all
        then show ?case using 1 tended_trans [OF t1] unfolding x by blast
      qed
      then show ?thesis
        using s ok(4) READ_HEADER Again by (subst handle_client_read.simps) simp
    qed
  next
    case READ_PAYLOAD
    obtain s w1 where s: "read_payload_step c w = Some (s, w1)" and t1: "tended c w w1"
      and res: "case s of
        Return r \<Rightarrow> r = -1 \<and> (\<exists>ms. talked c w ms w1) \<and> gives_up c w w1 \<or>
           r = 0 \<and> quiet c w w1 \<and> input_view c w1 = input_view c w \<and>
           pauses (inq w (client_fd ci)) (inq w1 (client_fd ci)) \<and>
           (\<exists>ci'. clients w1 c = Some ci' \<and> budget w1 ci' \<le> INPUT_MAX \<and> message_of ci' = message_of ci \<and> awaits ci')
      | Again \<Rightarrow> \<exists>p ms ci'. length p \<le> BUF_SIZE \<and>
           input_view c w = raw_bytes (p, msg_type ci, msg_done ci) @ input_view c w1 \<and>
           frame_done c p (msg_done ci) w w1 ms \<and> talked c w ms w1 \<and> clients w1 c = Some ci' \<and>
           state ci' = READ_HEADER \<and> header_bytes_read ci' = 0 \<and> budget w1 ci' \<le> INPUT_MAX \<and>
           read_on (inq w (client_fd ci)) (inq w1 (client_fd ci)) \<and>
           length (rd_data (inq w1 (client_fd ci))) \<le> length (rd_data (inq w (client_fd ci)))"
      using payload_step_spec [OF ok(1-4) READ_PAYLOAD ok(5)] by (auto elim!: okE)
    have fw: "fd_of w1 c = fd_of w c" by (rule tended_fd [OF t1 ok(3,4)])
    show ?thesis
    proof (cases s)
      case (Return r)
      have "\<exists>fs ms w2. read_ends c ci w r fs ms w2 w1"
      proof (cases "r = -1")
        case True
        then have "read_ends c ci w (-1) [] [] w w1"
          using res Return start unfolding read_ends_def by (auto intro: read_on_refl)
        then show ?thesis using True by blast
      next
        case False
        then obtain ci' where z: "r = 0" "quiet c w w1" "input_view c w1 = input_view c w"
          "pauses (inq w (client_fd ci)) (inq w1 (client_fd ci))" "clients w1 c = Some ci'"
          "budget w1 ci' \<le> INPUT_MAX" "message_of ci' = message_of ci" "awaits ci'"
          using res Return by auto
        then have "waits c w w1" using ok(4) by (simp add: waits_def)
        then have "read_ends c ci w 0 [] [] w1 w1"
          using z fw talked_quiet [OF z(2) t1] by (simp add: read_ends_def read_to_def reads_none)
        then show ?thesis using z(1) by blast
      qed
      then show ?thesis
        using s ok(4) READ_PAYLOAD Return t1 by (subst handle_client_read.simps) simp
    next
      case Again
      then obtain p ms ci' where p: "length p \<le> BUF_SIZE"
           "input_view c w = raw_bytes (p, msg_type ci, msg_done ci) @ input_view c w1"
           "frame_done c p (msg_done ci) w w1 ms" and k1: "talked c w ms w1" and ci': "clients w1 c = Some ci'"
           "state ci' = READ_HEADER" "header_bytes_read ci' = 0" "budget w1 ci' \<le> INPUT_MAX"
           "read_on (inq w (client_fd ci)) (inq w1 (client_fd ci))"
           "length (rd_data (inq w1 (client_fd ci))) \<le> length (rd_data (inq w (client_fd ci)))"
        using res by auto
      have fd: "client_fd ci' = client_fd ci" using tended_client_kept [OF t1 ok(3,4)] ci'(1) by auto
      have nr: "\<not> refused ci'" using ci'(3) by (simp add: refused_def HEADER_SIZE_def)
      have "ok (handle_client_read c w1) (\<lambda>(r, w'). tended c w1 w' \<and> (\<exists>fs ms w2. read_ends c ci' w1 r fs ms w2 w'))"
        using less.hyps [OF _ _ _ _ ci'(1,4)] tended_globals [OF t1] ok(1-3) ci'(2,6) fd READ_PAYLOAD by simp
      then have "ok (handle_client_read c w1) (\<lambda>(r, w'). tended c w w' \<and> (\<exists>fs ms w2. read_ends c ci w r fs ms w2 w'))"
      proof (rule ok_weaken, goal_cases)
        case (1 x)
        obtain r w' where x: "x = (r, w')" by fastforce
        obtain fs ms' w2 where e: "read_ends c ci' w1 r fs ms' w2 w'" using 1 by (auto simp: x)
        from read_ends_frame [OF p(3,2,1) k1 fw ci'(5) fd nr e] show ?case
          using 1 tended_trans [OF t1] unfolding x by blast
      qed
      then show ?thesis
        using s ok(4) READ_PAYLOAD Again by (subst handle_client_read.simps) simp
    qed
  qed
qed

lemma handle_client_read_spec:
  assumes "server_ok w" "\<not> client_mutex w" "c \<in> set (roster w)" "clients w c = Some ci"
    "budget w ci \<le> INPUT_MAX"
  shows "ok (handle_client_read c w) (\<lambda>(r, w'). tended c w w' \<and> (r = -1 \<and> (\<exists>ms. talked c w ms w') \<or>
     r = 0 \<and> (\<exists>fs ms ci'. reads c w fs ms w' \<and> talked c w ms w' \<and> clients w' c = Some ci' \<and> budget w' ci' \<le> INPUT_MAX \<and>
       (\<forall>f \<in> set fs. length (fst f) \<le> BUF_SIZE) \<and>
       input_view c w = concat (map raw_bytes fs) @ input_view c w')))"
proof (rule ok_weaken [OF handle_client_read_ends [OF assms]], goal_cases)
  case (1 x)
  obtain r w' where x: "x = (r, w')" by fastforce
  obtain fs ms w1 where e: "read_ends c ci w r fs ms w1 w'" and t: "tended c w w'" using 1 by (auto simp: x)
  show ?case
  proof (cases "r = 0")
    case True
    then have "read_to c w fs ms w' \<and> talked c w ms w'" using e by (auto simp: read_ends_def)
    then show ?thesis using t True unfolding x read_to_def prod.case by blast
  next
    case False
    then show ?thesis using e t unfolding x prod.case read_ends_def by blast
  qed
qed

section \<open>Properties\<close>

text \<open>
  Claim C5. Reading from a client is safe and ends. From any server in order, whatever the socket
  delivers and however it is cut, the handler returns 0 or -1; no buffer is overrun, no freed or NULL
  pointer used, no lock left or taken twice; and the server is in order again, the other clients'
  input included.
\<close>

theorem handle_client_read_safe:
  assumes "server_ok w" "\<not> client_mutex w" "c \<in> set (roster w)" "clients w c = Some ci"
    "budget w ci \<le> INPUT_MAX"
  shows "ok (handle_client_read c w) (\<lambda>(r, w'). r \<in> {0, -1} \<and> server_ok w' \<and> \<not> client_mutex w' \<and>
     roster w' = roster w \<and>
     (\<forall>a \<in> set (roster w). a \<noteq> c \<longrightarrow> (\<exists>ca ca'. clients w a = Some ca \<and> clients w' a = Some ca' \<and>
        in_kept ca ca' \<and> inq w' (client_fd ca) = inq w (client_fd ca))))"
  by (rule ok_weaken [OF handle_client_read_spec [OF assms]])
     (use assms(2) out_fields_in_kept in \<open>unfold tended_def, fastforce\<close>)

definition hi_frame :: "byte list" where
  "hi_frame = raw_bytes ([72, 105], 0, 1)"

lemma two_clients_budget:
  "length (rd_data evs) + length msg \<le> INPUT_MAX \<Longrightarrow>
     budget (two_clients evs msg) (plain_client 7 [65] msg) \<le> INPUT_MAX"
  by (simp add: budget_def)

theorem handle_client_read_safe_witness:
  "ok (handle_client_read 16 (two_clients [RdData (take 3 hi_frame), RdData (drop 3 hi_frame)] []))
     (\<lambda>(r, w'). r \<in> {0, -1} \<and> server_ok w' \<and> roster w' = [16, 32])"
proof -
  let ?evs = "[RdData (take 3 hi_frame), RdData (drop 3 hi_frame)]"
  have "server_ok (two_clients ?evs [])" by (rule two_clients_ok) simp
  moreover have "budget (two_clients ?evs []) (plain_client 7 [65] []) \<le> INPUT_MAX"
    by (rule two_clients_budget) (simp add: hi_frame_def raw_bytes_def HEADER_SIZE_def INPUT_MAX_def)
  ultimately show ?thesis
    by (intro ok_weaken [OF handle_client_read_safe [of _ 16 "plain_client 7 [65] []"]]) auto
qed

text \<open>Messages and frames of a call of the reader.\<close>

lemma reads_frames:
  assumes "server_ok w" "\<not> client_mutex w" "c \<in> set (roster w)" "clients w c = Some ci"
    "budget w ci \<le> INPUT_MAX"
  shows "ok (handle_client_read c w) (\<lambda>(r, w').
     \<exists>fs ms w1 ci1. reads c w fs ms w1 \<and> clients w1 c = Some ci1 \<and> budget w1 ci1 \<le> INPUT_MAX \<and>
        client_fd ci1 = client_fd ci \<and> input_view c w = concat (map raw_bytes fs) @ input_view c w1 \<and>
        assemble (message_of ci) fs = (ms, message_of ci1) \<and>
        (\<forall>f \<in> set fs. length (fst f) \<le> 4096) \<and>
        (r = 0 \<and> w' = w1 \<and> awaits ci1 \<and> pauses (inq w (client_fd ci)) (inq w' (client_fd ci)) \<or>
         r = -1 \<and> read_on (inq w (client_fd ci)) (inq w1 (client_fd ci)) \<and>
           (gives_up c w1 w' \<or> fs = [] \<and> w1 = w \<and> refused ci)))"
proof (rule ok_weaken [OF handle_client_read_ends [OF assms]], goal_cases)
  case (1 x)
  obtain r w' where x: "x = (r, w')" by fastforce
  obtain fs ms w1 where e: "read_ends c ci w r fs ms w1 w'" using 1 by (auto simp: x)
  then have rt: "reads c w fs ms w1" "\<forall>f \<in> set fs. length (fst f) \<le> 4096"
    "input_view c w = concat (map raw_bytes fs) @ input_view c w1"
    by (simp_all add: read_ends_def read_to_def BUF_SIZE_def)
  obtain ci1 where ci1: "clients w1 c = Some ci1" "budget w1 ci1 \<le> INPUT_MAX" "client_fd ci1 = client_fd ci"
    using e assms(4) by (auto simp: read_ends_def read_to_def fd_of_def)
  have "assemble (message_of ci) fs = (ms, message_of ci1)"
    using reads_assemble [OF rt(1) assms(4)] ci1(1) by simp
  moreover have "r = 0 \<and> w' = w1 \<and> awaits ci1 \<and> pauses (inq w (client_fd ci)) (inq w' (client_fd ci)) \<or>
         r = -1 \<and> read_on (inq w (client_fd ci)) (inq w1 (client_fd ci)) \<and>
           (gives_up c w1 w' \<or> fs = [] \<and> w1 = w \<and> refused ci)"
    using e ci1(1) by (auto simp: read_ends_def)
  ultimately show ?case using rt ci1 unfolding x prod.case by blast
qed

text \<open>
  A message can only end its client when it is a command, so a script that holds nothing but the
  rest of some frames without errors is read to its end unless a command is among them.
\<close>

lemma process_payload_ends:
  assumes "process_payload c (Some m) w = Some (-1, w')"
  shows "\<exists>m'. m = 47 # m'"
proof -
  obtain ci where ci: "clients w c = Some ci" "has_name ci \<noteq> 0"
    using assms by (auto simp: process_payload_def split: if_splits Option.bind_splits)
  obtain f where "slice m 0 1 = Some f" "f = [47]"
    using assms ci by (auto simp: process_payload_def split: if_splits Option.bind_splits)
  then show ?thesis by (cases m) (auto simp: slice_def split: if_splits)
qed

lemma read_on_single:
  "read_on q q1 \<Longrightarrow> q = [RdData y] \<Longrightarrow> q1 = [] \<or> (\<exists>x z. y = x @ z \<and> q1 = [RdData z] \<and> (z = [] \<longrightarrow> y = []))"
proof (induction arbitrary: y rule: read_on.induct)
  case (read_on_whole q q' bs)
  then show ?case by (auto elim: read_on.cases)
next
  case (read_on_part y' q q' x)
  then show ?case by (metis append.assoc append_is_Nil_conv list.inject rd_ev.inject(1))
qed auto

lemma raw_header_inj:
  assumes "raw_header n ty dn @ x = raw_header n' ty' dn' @ y"
  shows "n = n' \<and> ty = ty' \<and> dn = dn' \<and> x = y"
proof -
  have "raw_header n ty dn = raw_header n' ty' dn'" and xy: "x = y"
    using assms by (simp_all add: append_eq_append_conv)
  then have "htonl n = htonl n'" "ty = ty'" "dn = dn'"
    using header_of_image_image unfolding raw_header_def by (metis msg_header.iffs option.inject)+
  then show ?thesis using xy ntohl_htonl by metis
qed

lemma raw_bytes_nonempty [simp]: "raw_bytes f \<noteq> []"
  by (cases f) (simp add: raw_bytes_def raw_header_def)

text \<open>Images of frames are prefix-free: what follows a frame does not change which frame it is.\<close>

lemma raw_bytes_unique:
  assumes "raw_bytes f @ x = raw_bytes g @ y" "length (fst f) < 2 ^ 32" "length (fst g) < 2 ^ 32"
  shows "f = g \<and> x = y"
proof -
  obtain p ty dn q ty' dn' where fg: "f = (p, ty, dn)" "g = (q, ty', dn')" by (cases f, cases g)
  have h: "(of_nat (length p) :: 32 word) = of_nat (length q) \<and> ty = ty' \<and> dn = dn' \<and> p @ x = q @ y"
    using assms(1) by (intro raw_header_inj) (simp add: fg raw_bytes_def)
  then have "unat (of_nat (length p) :: 32 word) = unat (of_nat (length q) :: 32 word)" by simp
  then have "length p = length q"
    using assms(2,3) by (simp add: fg unat_of_nat)
  then show ?thesis using h by (simp add: fg)
qed

text \<open>What a client waits with is never a whole frame.\<close>

lemma awaits_not_frame:
  assumes "awaits ci" "taken ci = raw_bytes f @ rest" "length (fst f) < 2 ^ 32"
  shows False
proof -
  obtain p ty dn where f: "f = (p, ty, dn)" by (cases f)
  show False
  proof (cases "state ci")
    case READ_HEADER
    then have "length (taken ci) < HEADER_SIZE" using assms(1) by (simp add: awaits_def taken_def)
    then show False using assms(2) by (simp add: f raw_bytes_def)
  next
    case READ_PAYLOAD
    have "expected_payload_len ci = of_nat (length p) \<and> msg_type ci = ty \<and> msg_done ci = dn \<and>
        take (payload_bytes_read ci) (payload_buffer ci) = p @ rest"
      using assms(2) READ_PAYLOAD by (intro raw_header_inj) (simp add: f raw_bytes_def taken_def)
    then have "unat (expected_payload_len ci) = length p" "length (p @ rest) \<le> payload_bytes_read ci"
      using assms(3) by (simp_all add: f unat_of_nat) (metis length_append length_take min.cobounded2)
    then show False using assms(1) READ_PAYLOAD by (simp add: awaits_def)
  qed
qed

lemma pauses_single: "pauses [RdData y] q' \<Longrightarrow> q' = []"
  using read_on_single unfolding pauses_def by fastforce

text \<open>One frame that waits whole is no reason to give up, unless it completes a command.\<close>

lemma whole_frame_accepted:
  assumes on: "read_on [RdData (raw_bytes (p, ty, dn))] (inq w1 (client_fd ci1))"
    and w1: "clients w1 c = Some ci1" "concat (map raw_bytes fs) @ input_view c w1 = raw_bytes (p, ty, dn)"
    and len: "length p \<le> BUF_SIZE" "\<forall>f \<in> set fs. length (fst f) \<le> BUF_SIZE"
    and msg: "fs = [] \<Longrightarrow> dn \<noteq> 0 \<Longrightarrow> \<nexists>m. message_of ci1 @ p @ [0] = 47 # m"
  shows "\<not> gives_up c w1 w'" "fs = [(p, ty, dn)] \<and> input_view c w1 = [] \<or> fs = []"
proof -
  let ?q = "inq w1 (client_fd ci1)" and ?f = "raw_bytes (p, ty, dn)"
  have q: "?q = [] \<or> (\<exists>z. z \<noteq> [] \<and> ?q = [RdData z])"
    using read_on_single [OF on refl] by auto
  then have v: "concat (map raw_bytes fs) @ taken ci1 @ next_chunk ?q = ?f"
    using w1 by (auto simp: input_view_def)
  have short: "\<And>xs :: byte list. length xs \<le> BUF_SIZE \<Longrightarrow> length xs < 2 ^ 32" by (simp add: BUF_SIZE_def)
  have one: "fs = [(p, ty, dn)] \<and> taken ci1 @ next_chunk ?q = []" if "fs = g # gs" for g gs
  proof -
    have "raw_bytes g @ concat (map raw_bytes gs) @ taken ci1 @ next_chunk ?q = ?f @ []"
      using v that by simp
    then have "g = (p, ty, dn) \<and> concat (map raw_bytes gs) @ taken ci1 @ next_chunk ?q = []"
      by (rule raw_bytes_unique) (use len that short in auto)
    then show ?thesis using that by (cases gs) auto
  qed
  then show "fs = [(p, ty, dn)] \<and> input_view c w1 = [] \<or> fs = []"
    using w1 q by (cases fs) (auto simp: input_view_def)
  have no_bad: "\<not> bad_input ci1 ?q"
  proof
    assume "bad_input ci1 ?q"
    then obtain n ty' dn' rest where h: "taken ci1 @ next_chunk ?q = raw_header n ty' dn' @ rest" "BUF_SIZE < unat n"
    proof (cases rule: bad_inputE)
      case (oversized n ty' dn' rest)
      then show ?thesis by (rule that)
    qed (use q in auto)
    have "fs = []" using one h(1) by (cases fs) (auto simp: raw_header_def)
    then have "raw_header n ty' dn' @ rest = raw_header (of_nat (length p)) ty dn @ p"
      using v h(1) by (simp add: raw_bytes_def)
    then have "n = of_nat (length p)" using raw_header_inj by blast
    then show False using h(2) len(1) by (simp add: unat_of_nat BUF_SIZE_def)
  qed
  have "\<not> thrown c w1 p' dn' w'"
    if t: "taken ci1 @ next_chunk ?q = raw_bytes (p', ty', dn') @ rest" "length p' \<le> BUF_SIZE" for p' ty' dn' rest
  proof
    assume th: "thrown c w1 p' dn' w'"
    have fs: "fs = []" using one t(1) by (cases fs) auto
    then have "raw_bytes (p', ty', dn') @ rest = ?f @ []" using v t(1) by simp
    then have "(p', ty', dn') = (p, ty, dn) \<and> rest = []"
      by (rule raw_bytes_unique) (use len(1) t(2) short in simp_all)
    then have "p' = p" "dn' = dn" by simp_all
    moreover obtain wa wb where "dn' \<noteq> 0" "process_payload c (Some (message_of ci1 @ p' @ [0])) wa = Some (-1, wb)"
      using th w1(1) by (auto simp: thrown_def)
    ultimately show False using msg [OF fs] process_payload_ends by auto
  qed
  then show "\<not> gives_up c w1 w'" using no_bad w1(1) by (auto simp: gives_up_def)
qed

lemma hi_frame_read:
  assumes "reads c w fs ms w1" "clients w1 c = Some ci1" "client_fd ci1 = d"
    "concat (map raw_bytes fs) @ input_view c w1 = hi_frame" "assemble [] fs = (ms, message_of ci1)"
    "\<forall>f \<in> set fs. length (fst f) \<le> BUF_SIZE"
    "r = 0 \<and> w' = w1 \<and> awaits ci1 \<and> pauses [RdData hi_frame] (inq w1 d) \<or>
     r = -1 \<and> read_on [RdData hi_frame] (inq w1 d) \<and> gives_up c w1 w'"
  shows "r = 0 \<and> w' = w1 \<and> input_view c w' = [] \<and> fs = [([72, 105], 0, 1)] \<and> ms = [[72, 105]]"
proof -
  let ?f = "([72, 105], 0, 1) :: raw_frame"
  have len: "length [72 :: byte, 105] \<le> BUF_SIZE" by (simp add: BUF_SIZE_def)
  have hi: "concat (map raw_bytes fs) @ input_view c w1 = raw_bytes ?f" using assms(4) by (simp add: hi_frame_def)
  have plain: "\<nexists>m. message_of ci1 @ [72, 105] @ [0] = 47 # m" if "fs = []"
    using that assms(5) by auto
  have acc: "\<not> gives_up c w1 w'" if "read_on [RdData hi_frame] (inq w1 d)"
    by (rule whole_frame_accepted(1) [OF _ assms(2) hi len assms(6) plain])
       (use that assms(3) in \<open>simp_all add: hi_frame_def\<close>)
  from assms(7) show ?thesis
  proof
    assume z: "r = 0 \<and> w' = w1 \<and> awaits ci1 \<and> pauses [RdData hi_frame] (inq w1 d)"
    then have "inq w1 d = []" using pauses_single by blast
    then have iv: "input_view c w1 = taken ci1" using assms(2,3) by (simp add: input_view_def)
    have "fs = [?f] \<and> taken ci1 = []"
    proof (cases fs)
      case Nil
      then have "taken ci1 = raw_bytes ?f @ []" using hi iv by simp
      then show ?thesis using awaits_not_frame [of ci1 ?f "[]"] z by simp
    next
      case (Cons g gs)
      have "raw_bytes g @ concat (map raw_bytes gs) @ taken ci1 = raw_bytes ?f @ []"
        using hi iv by (simp add: Cons)
      then have "g = ?f \<and> concat (map raw_bytes gs) @ taken ci1 = []"
        by (rule raw_bytes_unique) (use assms(6) in \<open>auto simp: Cons BUF_SIZE_def\<close>)
      then show ?thesis by (cases gs) (auto simp: Cons)
    qed
    then show ?thesis using z iv assms(5) by simp
  next
    assume "r = -1 \<and> read_on [RdData hi_frame] (inq w1 d) \<and> gives_up c w1 w'"
    then show ?thesis using acc by blast
  qed
qed

text \<open>
  Claim C4. Reading in pieces refines reading whole frames. The bytes that were buffered or waiting
  before are the images of some frames, in order, followed by what is buffered or waiting after
  these frames; and the messages the handler handled are exactly those that assembling the payloads of these
  frames gives, a message ending at the first frame whose flag is set, with the unfinished rest in
  the client's buffer. When the handler returns 0 it stopped there, because the socket had no more to
  give or gave a piece shorter than asked for. When it returns -1 it stopped in the round after these
  frames and for a reason: the socket failed, the stream ended where a header was due, a header announced more than
  4096 bytes (now or in an earlier call), or the next frame completed a message whose handling
  returned -1.
\<close>

theorem reading_refines_framing:
  assumes "server_ok w" "\<not> client_mutex w" "c \<in> set (roster w)" "clients w c = Some ci"
    "budget w ci \<le> INPUT_MAX"
  shows "ok (handle_client_read c w) (\<lambda>(r, w').
     \<exists>fs ms w1 ci1. reads c w fs ms w1 \<and> clients w1 c = Some ci1 \<and> budget w1 ci1 \<le> INPUT_MAX \<and>
        client_fd ci1 = client_fd ci \<and> input_view c w = concat (map raw_bytes fs) @ input_view c w1 \<and>
        assemble (message_of ci) fs = (ms, message_of ci1) \<and>
        (\<forall>f \<in> set fs. length (fst f) \<le> 4096) \<and>
        (r = 0 \<and> w' = w1 \<and> awaits ci1 \<and> pauses (inq w (client_fd ci)) (inq w' (client_fd ci)) \<or>
         r = -1 \<and> read_on (inq w (client_fd ci)) (inq w1 (client_fd ci)) \<and>
           (gives_up c w1 w' \<or> fs = [] \<and> w1 = w \<and> refused ci)))"
  using assms by (rule reads_frames)

theorem reading_refines_framing_witness:
  "ok (handle_client_read 16 (two_clients [RdData hi_frame] [])) (\<lambda>(r, w').
     r = 0 \<and> input_view 16 w' = [] \<and> reads 16 (two_clients [RdData hi_frame] []) [([72, 105], 0, 1)] [[72, 105]] w')"
proof -
  let ?w = "two_clients [RdData hi_frame] []" and ?ci = "plain_client 7 [65] []"
  have ok: "server_ok ?w" by (rule two_clients_ok) simp
  have bud: "budget ?w ?ci \<le> INPUT_MAX"
    by (rule two_clients_budget) (simp add: hi_frame_def raw_bytes_def HEADER_SIZE_def INPUT_MAX_def)
  have iv: "input_view 16 ?w = hi_frame" by (simp add: input_view_def taken_def)
  have nr: "\<not> refused ?ci" by (simp add: refused_def HEADER_SIZE_def)
  have "client_fd ?ci = 7" "inq ?w 7 = [RdData hi_frame]" "message_of ?ci = []" by simp_all
  note sel = this
  have pre: "\<not> client_mutex ?w" "16 \<in> set (roster ?w)" "clients ?w 16 = Some ?ci" by simp_all
  from reading_refines_framing [OF ok pre bud, unfolded sel iv]
  have "ok (handle_client_read 16 ?w) (\<lambda>(r, w').
     \<exists>fs ms w1 ci1. reads 16 ?w fs ms w1 \<and> clients w1 16 = Some ci1 \<and> budget w1 ci1 \<le> INPUT_MAX \<and>
        client_fd ci1 = 7 \<and> hi_frame = concat (map raw_bytes fs) @ input_view 16 w1 \<and>
        assemble [] fs = (ms, message_of ci1) \<and>
        (\<forall>f \<in> set fs. length (fst f) \<le> 4096) \<and>
        (r = 0 \<and> w' = w1 \<and> awaits ci1 \<and> pauses [RdData hi_frame] (inq w' 7) \<or>
         r = -1 \<and> read_on [RdData hi_frame] (inq w1 7) \<and>
           (gives_up 16 w1 w' \<or> fs = [] \<and> w1 = ?w \<and> refused ?ci)))" .
  then show ?thesis
  proof (rule ok_weaken, goal_cases)
    case (1 x)
    obtain r w' where x: "x = (r, w')" by fastforce
    from 1 [unfolded x prod.case] obtain fs ms w1 ci1 where *: "reads 16 ?w fs ms w1" "clients w1 16 = Some ci1"
      "client_fd ci1 = 7" "hi_frame = concat (map raw_bytes fs) @ input_view 16 w1"
      "assemble [] fs = (ms, message_of ci1)" "\<forall>f \<in> set fs. length (fst f) \<le> 4096"
      and r: "r = 0 \<and> w' = w1 \<and> awaits ci1 \<and> pauses [RdData hi_frame] (inq w' 7) \<or>
        r = -1 \<and> read_on [RdData hi_frame] (inq w1 7) \<and> (gives_up 16 w1 w' \<or> fs = [] \<and> w1 = ?w \<and> refused ?ci)"
      by (elim exE conjE) (rule that)
    have "r = 0 \<and> w' = w1 \<and> input_view 16 w' = [] \<and> fs = [([72, 105], 0, 1)] \<and> ms = [[72, 105]]"
      by (rule hi_frame_read [OF *(1-3) *(4) [symmetric] *(5)]) (use *(6) r nr in \<open>auto simp: BUF_SIZE_def\<close>)
    then show ?case using *(1) by (auto simp: x)
  qed
qed

text \<open>
  Claim C18. A frame that announces more than 4096 bytes is refused as soon as its header is
  complete: the handler returns -1 and takes no byte of the payload.
\<close>

theorem oversized_frame_refused:
  assumes "clients w c = Some ci" "state ci = READ_HEADER" "header_bytes_read ci = 0"
    "length (header_buffer ci) = 6" "opened w (client_fd ci)"
    and "inq w (client_fd ci) = RdData (raw_header n ty dn @ pl) # evs" "4096 < unat n" "pl \<noteq> []"
  shows "\<exists>w'. handle_client_read c w = Some (-1, w') \<and>
     inq w' (client_fd ci) = RdData pl # evs \<and> sent w' = sent w"
proof -
  let ?h = "\<lparr>hdr_len = htonl n, hdr_type = ty, hdr_done = dn\<rparr>"
  have r: "sys_read (client_fd ci) (sz_sub HEADER_SIZE 0) w =
      (Inr (raw_header n ty dn), w\<lparr>inq := (inq w)(client_fd ci := RdData pl # evs)\<rparr>)"
    using assms(5,6,8) by (simp add: sys_read_def HEADER_SIZE_def)
  have mc: "memcpy_at (header_buffer ci) 0 (raw_header n ty dn) = Some (raw_header n ty dn)"
    using assms(4) by (simp add: memcpy_at_def HEADER_SIZE_def)
  have h: "header_of_image (raw_header n ty dn) = Some ?h" by (simp add: raw_header_def)
  have ne: "raw_header n ty dn \<noteq> []" by (simp add: raw_header_def)
  have "sz_add 0 HEADER_SIZE = HEADER_SIZE" by (simp add: sz_add_def SIZE_MOD_def HEADER_SIZE_def)
  then show ?thesis
    using assms(1-3,7) r mc h ne
    by (subst handle_client_read.simps) (simp add: read_header_step_def BUF_SIZE_def)
qed

theorem oversized_frame_refused_witness:
  "\<exists>w'. handle_client_read 16 (two_clients [RdData (raw_header 5000 0 1 @ [72])] []) = Some (-1, w') \<and>
     inq w' 7 = [RdData [72]]"
  using oversized_frame_refused [of "two_clients [RdData (raw_header 5000 0 1 @ [72])] []" 16
      "plain_client 7 [65] []" 5000 0 1 "[72]" "[]"]
  by (auto simp: plain_client_def fresh_client_def HEADER_SIZE_def)

end
