(* ===== verification/Chat_Clients.thy ===== *)
theory Chat_Clients
  imports Chat_Read
begin

text \<open>
  The registry of clients (src/server/client_list.c) and the acceptance of new ones
  (src/server/accept_new_clients.c). The registry is the array \<open>client_list\<close> with its counter, a
  client leaves it by having the last entry moved into its place; \<open>roster\<close> is the list it stands
  for. Leaving also closes the descriptor and frees the structure.
\<close>

section \<open>Operations\<close>

text \<open>\<open>add_client_to_list\<close>; the message buffer of a client that is turned away is not freed.\<close>

definition add_client_to_list :: "ptr \<Rightarrow> server \<Rightarrow> (int \<times> server) option" where
  "add_client_to_list c w = do {
     w1 \<leftarrow> mutex_lock w;
     if client_count w1 < MAX_CLIENTS then do {
       w2 \<leftarrow> list_put (client_count w1) c w1;
       Some (0, mutex_unlock (w2\<lparr>client_count := sz_add (client_count w2) 1\<rparr>))
     } else do {
       let w2 = mutex_unlock w1;
       ci \<leftarrow> clients w2 c;
       let (_, w3) = sys_close (client_fd ci) w2;
       w4 \<leftarrow> free_client c w3;
       Some (-1, w4)
     }
   }"

text \<open>\<open>cleanup_client\<close> reads the descriptor for its message before it tests the pointer.\<close>

definition cleanup_client :: "ptr \<Rightarrow> server \<Rightarrow> (int \<times> server) option" where
  "cleanup_client c w = do {
     ci \<leftarrow> clients w c;
     if c = NULL then Some (-1, w)
     else do {
       let (r, w1) = (if 0 \<le> client_fd ci then sys_close (client_fd ci) w else (0, w));
       if r = -1 then Some (-1, w1)
       else do {
         w2 \<leftarrow> free_client c (free_buf (partial_msg ci) w1);
         Some (0, w2)
       }
     }
   }"

text \<open>The body of the loop of \<open>remove_client_from_list\<close> once the client is found.\<close>

definition take_out :: "nat \<Rightarrow> ptr \<Rightarrow> server \<Rightarrow> (int \<times> server) option" where
  "take_out i c w = do {
     let w1 = w\<lparr>client_count := sz_sub (client_count w) 1\<rparr>;
     l \<leftarrow> list_at w1 (client_count w1);
     w2 \<leftarrow> list_put i l w1;
     (r, w3) \<leftarrow> cleanup_client c (mutex_unlock w2);
     if r = -1 then Some (-1, w3) else Some (0, w3)
   }"

partial_function (option) remove_client_from :: "ptr \<Rightarrow> nat \<Rightarrow> server \<Rightarrow> (int \<times> server) option" where
  "remove_client_from c i w =
     (if i < client_count w then do {
        a \<leftarrow> list_at w i;
        if a = c then take_out i c w else remove_client_from c (i + 1) w
      } else Some (-1, w))"

definition remove_client_from_list :: "ptr \<Rightarrow> server \<Rightarrow> (int \<times> server) option" where
  "remove_client_from_list c w = do { w1 \<leftarrow> mutex_lock w; remove_client_from c 0 w1 }"

text \<open>\<open>remove_all_clients\<close>, from the last entry down; the counter and the entries stay.\<close>

definition no_event :: "32 word \<times> epoll_data" where
  "no_event = (0, DataFd 0)"

fun remove_clients_below :: "nat \<Rightarrow> server \<Rightarrow> (int \<times> server) option" where
  "remove_clients_below 0 w = Some (0, mutex_unlock w)"
| "remove_clients_below (Suc i) w = do {
     c \<leftarrow> list_at w i;
     ci \<leftarrow> clients w c;
     let (_, w1) = epoll_ctl EPOLL_CTL_DEL (client_fd ci) no_event w;
     (r, w2) \<leftarrow> cleanup_client c w1;
     if r = -1 then Some (-1, w2) else remove_clients_below i w2
   }"

definition remove_all_clients :: "server \<Rightarrow> (int \<times> server) option" where
  "remove_all_clients w = do { w1 \<leftarrow> mutex_lock w; remove_clients_below (client_count w1) w1 }"

text \<open>
  The body of the loop of \<open>accept_new_clients\<close> for the new descriptor \<open>d\<close>. The result of \<open>malloc\<close> is not
  tested, so that \<open>client_info_init\<close> on NULL has no outcome; a call that fails leaves \<open>d\<close> open.
\<close>

definition admit_client :: "fd \<Rightarrow> server \<Rightarrow> (int \<times> server) option" where
  "admit_client d w = do {
     let (r, w1) = sys_fcntl_nonblock d w;
     if r = -1 then Some (-1, w1)
     else do {
       let (info, w2) = malloc_client w1;
       (r1, w3) \<leftarrow> client_info_init info d w2;
       if r1 = -1 then Some (-1, w3)
       else do {
         let (r2, w4) = epoll_ctl EPOLL_CTL_ADD d (EPOLLIN OR EPOLLRDHUP, DataPtr info) w3;
         if r2 = -1 then Some (-1, w4)
         else do {
           (r3, w5) \<leftarrow> add_client_to_list info w4;
           if r3 = -1 then Some (-1, w5) else Some (0, w5)
         }
       }
     }
   }"

text \<open>It returns when no connection is left, when a call fails, or when the registry is full.\<close>

partial_function (option) accept_new_clients :: "server \<Rightarrow> (int \<times> server) option" where
  "accept_new_clients w =
     (case sys_accept w of
        (Inl e, w1) \<Rightarrow> if e = EAGAIN \<or> e = EWOULDBLOCK then Some (0, w1) else Some (-1, w1)
      | (Inr d, w1) \<Rightarrow> do {
          (r, w2) \<leftarrow> admit_client d w1;
          if r = -1 then Some (-1, w2) else accept_new_clients w2
        })"

section \<open>Leaving the registry\<close>

lemma roster_swap_out:
  assumes "i < client_count w" "client_count w' = client_count w - 1"
    and "client_list w' = (client_list w)(i := client_list w (client_count w - 1))"
  shows "roster w' = swap_out i (roster w)"
proof (rule nth_equalityI)
  show len: "length (roster w') = length (swap_out i (roster w))"
    using assms by (simp add: roster_def)
  have "last (roster w) = client_list w (client_count w - 1)"
    using assms(1) by (simp add: roster_def last_map)
  then show "roster w' ! j = swap_out i (roster w) ! j" if "j < length (roster w')" for j
    using that assms by (simp add: roster_def swap_out_def nth_butlast nth_list_update)
qed

lemma remove_client_finds:
  assumes "i < client_count w" "client_list w i = c" "client_count w \<le> MAX_CLIENTS"
    and "\<forall>j < i. client_list w j \<noteq> c" "k \<le> i"
  shows "remove_client_from c k w = take_out i c w"
  using assms(5)
proof (induction "i - k" arbitrary: k)
  case 0
  then show ?case using assms by (subst remove_client_from.simps) (simp add: list_at_def)
next
  case (Suc n)
  then have "k < i" by simp
  then have "remove_client_from c k w = remove_client_from c (k + 1) w"
    using assms by (subst remove_client_from.simps) (simp add: list_at_def)
  then show ?case using Suc by simp
qed

lemma roster_first_index:
  "distinct (roster w) \<Longrightarrow> i < client_count w \<Longrightarrow> \<forall>j < i. client_list w j \<noteq> client_list w i"
  by (auto simp: roster_def distinct_conv_nth)

text \<open>
  \<open>shrunk ps c w w'\<close>: client \<open>c\<close> has left and the packets \<open>ps\<close> are freed. Its descriptor is closed
  and deregistered, its structure and buffer are freed when \<open>close\<close> succeeded; nothing else changed.
\<close>

definition shrunk :: "ptr list \<Rightarrow> ptr \<Rightarrow> server \<Rightarrow> server \<Rightarrow> bool" where
  "shrunk ps c w w' \<longleftrightarrow> (\<exists>i ci. i < client_count w \<and> client_list w i = c \<and> clients w c = Some ci \<and>
     roster w' = swap_out i (roster w) \<and> client_count w' = client_count w - 1 \<and> \<not> client_mutex w' \<and>
     (\<forall>a. a \<noteq> c \<longrightarrow> clients w' a = clients w a) \<and>
     packets w' = drop_cells ps (packets w) \<and>
     opened w' = (opened w)(client_fd ci := False) \<and>
     interest w' = (interest w)(client_fd ci := None) \<and>
     inq w' = inq w \<and> outq w' = outq w \<and> sent w' = sent w \<and> brk w' = brk w \<and> junk w' = junk w \<and>
     clock w' = clock w \<and> mallocs w' = mallocs w \<and> accepts w' = accepts w \<and>
     server_fd w' = server_fd w \<and> server_shutdown w' = server_shutdown w \<and>
     set (closes w') \<subseteq> set (closes w) \<and>
     ((\<forall>b \<in> set (closes w). b) \<longrightarrow> clients w' c = None \<and>
        live_bufs w' = live_bufs w - int (length ps) - 1))"

lemma shrunk_roster:
  assumes "server_ok w" "shrunk ps c w w'"
  shows "c \<in> set (roster w)" "set (roster w') = set (roster w) - {c}" "distinct (roster w')"
proof -
  obtain i where i: "i < client_count w" "client_list w i = c" "roster w' = swap_out i (roster w)"
    using assms(2) unfolding shrunk_def by blast
  then have j: "i < length (roster w)" "roster w ! i = c" by (simp_all add: roster_def)
  then show "c \<in> set (roster w)" using nth_mem by blast
  note sw = swap_out_distinct [OF server_ok_parts(5) [OF assms(1)] j(1)]
  show "set (roster w') = set (roster w) - {c}" "distinct (roster w')"
    unfolding i(3) using sw by (simp_all add: j(2))
qed

lemma server_ok_disjoint:
  assumes "server_ok w" "a \<in> set (roster w)" "c \<in> set (roster w)" "a \<noteq> c"
    and "clients w a = Some ca" "clients w c = Some cc"
  shows "client_fd ca \<noteq> client_fd cc" "set (queue_cells w ca) \<inter> set (queue_cells w cc) = {}"
proof -
  have "apart w a c" using assms(1-4) by (simp add: server_ok_def)
  then show "client_fd ca \<noteq> client_fd cc" "set (queue_cells w ca) \<inter> set (queue_cells w cc) = {}"
    using assms(5,6) by (simp_all add: apart_def fd_of_def cells_of_def)
qed

lemma shrunk_keeps:
  assumes ok: "server_ok w" and sh: "shrunk ps c w w'" and ps: "set ps = cells_of w c"
  shows "server_ok w'"
proof -
  note ro = shrunk_roster [OF ok sh]
  obtain ci where c: "clients w c = Some ci" "\<forall>a. a \<noteq> c \<longrightarrow> clients w' a = clients w a"
    "packets w' = drop_cells ps (packets w)"
    "opened w' = (opened w)(client_fd ci := False)" "interest w' = (interest w)(client_fd ci := None)"
    "client_count w' = client_count w - 1"
    and same: "inq w' = inq w" "brk w' = brk w" "junk w' = junk w" "clock w' = clock w"
    "mallocs w' = mallocs w" "accepts w' = accepts w" "server_fd w' = server_fd w"
    using sh unfolding shrunk_def by auto
  have kept: "client_ok w' a \<and> fd_of w' a = fd_of w a \<and> cells_of w' a = cells_of w a"
    if a: "a \<in> set (roster w')" for a
  proof -
    have a': "a \<in> set (roster w)" "a \<noteq> c" using a ro by auto
    obtain ca where ca: "clients w a = Some ca" "queue_rep (packets w) (msg_queue ca) (queue_cells w ca)"
      using client_okE [OF server_ok_client [OF ok a'(1)]] by metis
    note dj = server_ok_disjoint [OF ok a'(1) ro(1) a'(2) ca(1) c(1)]
    have cl: "clients w' a = clients w a" using c(2) a'(2) by simp
    have "\<forall>p \<in> set (queue_cells w ca). packets w' p = packets w p"
      using dj(2) ps c(1) by (auto simp: c(3) drop_cells_def cells_of_def)
    note k = other_client_kept [OF cl ca this]
    have "client_ok w a" using ok a'(1) by (rule server_ok_client)
    then have "client_ok w' a"
      using cl ca(1) k dj(1) c(4,5) same(7) by (simp add: client_ok_def)
    then show ?thesis using cl ca(1) k by (simp add: fd_of_def cells_of_def)
  qed
  have fresh: "heap_fresh w'"
  proof -
    have hf: "heap_fresh w" using ok by (rule server_ok_parts)
    then have "c < brk w" using c(1) by (metis heap_fresh_def not_le option.distinct(1))
    then show ?thesis using hf c(2,3) same(2) by (auto simp: heap_fresh_def drop_cells_def)
  qed
  have "apart w' a b" if "a \<in> set (roster w')" "b \<in> set (roster w')" "a \<noteq> b" for a b
    using that kept ro ok by (simp add: server_ok_def apart_def)
  moreover have "interest_ok w'"
    unfolding interest_ok_def
  proof (intro allI impI)
    fix d m e
    assume i: "interest w' d = Some (m, e)"
    then have d: "d \<noteq> client_fd ci" "interest w d = Some (m, e)" using c(5) by (auto split: if_splits)
    then have "opened w d" "e = DataFd (server_fd w) \<and> d = server_fd w \<or>
        (\<exists>a \<in> set (roster w). e = DataPtr a \<and> fd_of w a = d)"
      using ok by (auto simp: server_ok_def interest_ok_def)
    moreover have "fd_of w c = client_fd ci" using c(1) by (simp add: fd_of_def)
    ultimately show "opened w' d \<and> (e = DataFd (server_fd w') \<and> d = server_fd w' \<or>
        (\<exists>a \<in> set (roster w'). e = DataPtr a \<and> fd_of w' a = d))"
      using d(1) c(4) same(7) kept ro(2) by auto
  qed
  moreover have "client_fd ci \<noteq> server_fd w" using client_okE [OF server_ok_client [OF ok ro(1)]] c(1) by force
  moreover have "env_ok w'"
    using ok same by (auto simp: server_ok_def env_ok_def memory_available_def clock_works_def)
  ultimately show ?thesis
    using ok fresh kept ro(3) c(4,6) same by (auto simp: server_ok_def)
qed

lemma cleanup_client_eq:
  assumes "clients w c = Some ci" "c \<noteq> NULL" "opened w (client_fd ci)" "0 \<le> client_fd ci"
    and "pop_default True (closes w) = (b, cs)"
  defines "w1 \<equiv> w\<lparr>closes := cs, opened := (opened w)(client_fd ci := False),
                   interest := (interest w)(client_fd ci := None)\<rparr>"
  shows "cleanup_client c w = (if b then Some (0, (free_buf (partial_msg ci) w1)\<lparr>clients := (clients w)(c := None)\<rparr>)
                               else Some (-1, w1))"
  using assms by (simp add: cleanup_client_def sys_close_def free_client_def free_buf_def)

lemma remove_client_spec:
  assumes w: "\<not> client_mutex w" "distinct (roster w)" "client_count w \<le> MAX_CLIENTS"
    and i: "i < client_count w" "client_list w i = c"
    and c: "clients w c = Some ci" "c \<noteq> NULL" "opened w (client_fd ci)" "0 \<le> client_fd ci" "partial_msg ci \<noteq> None"
  shows "ok (remove_client_from_list c w) (\<lambda>(r, w'). r \<in> {0, -1} \<and> shrunk [] c w w' \<and>
     ((\<forall>b \<in> set (closes w). b) \<longrightarrow> r = 0))"
proof -
  let ?n = "client_count w - 1" and ?d = "client_fd ci"
  let ?w1 = "w\<lparr>client_mutex := True\<rparr>"
  let ?w2 = "w\<lparr>client_count := ?n, client_list := (client_list w)(i := client_list w ?n), client_mutex := False\<rparr>"
  obtain b cs where b: "pop_default True (closes w) = (b, cs)" by fastforce
  have n: "?n < MAX_CLIENTS" "i < MAX_CLIENTS" "sz_sub (client_count w) 1 = ?n" using w(3) i(1) by simp_all
  have find: "remove_client_from_list c w = take_out i c ?w1"
    using w(1) remove_client_finds [of i ?w1 c 0] i w(3) roster_first_index [OF w(2) i(1)]
    by (simp add: remove_client_from_list_def mutex_lock_def)
  have "take_out i c ?w1 = do { (r, w3) \<leftarrow> cleanup_client c ?w2; if r = -1 then Some (-1, w3) else Some (0, w3) }"
    using n by (simp add: take_out_def list_at_def list_put_def mutex_unlock_def)
  moreover note cleanup_client_eq [of ?w2 c ci b cs]
  moreover have "set cs \<subseteq> set (closes w)" using set_snd_pop_default [of True "closes w"] b by simp
  moreover have "(\<forall>b \<in> set (closes w). b) \<longrightarrow> b" using fst_pop_default [of True "closes w"] b by auto
  moreover have "roster w' = swap_out i (roster w)"
    if "client_count w' = ?n" "client_list w' = (client_list w)(i := client_list w ?n)" for w'
    using roster_swap_out [OF i(1) that] .
  ultimately show ?thesis
    using c b i unfolding find
    by (cases b) (auto simp: shrunk_def free_buf_def intro!: exI [of _ i])
qed

section \<open>Joining the registry\<close>

text \<open>
  \<open>beside w w'\<close>: a step away from the registered clients, which may allocate and open descriptors.
\<close>

definition beside :: "server \<Rightarrow> server \<Rightarrow> bool" where
  "beside w w' \<longleftrightarrow> client_list w' = client_list w \<and> client_count w' = client_count w \<and>
     client_mutex w' = client_mutex w \<and> server_fd w' = server_fd w \<and>
     server_shutdown w' = server_shutdown w \<and> packets w' = packets w \<and> interest w' = interest w \<and>
     (\<forall>a \<in> set (roster w). clients w' a = clients w a) \<and>
     (\<forall>d. opened w d \<longrightarrow> opened w' d \<and> inq w' d = inq w d \<and> sent w' d = sent w d) \<and>
     heap_fresh w' \<and> brk w \<le> brk w' \<and> 16 dvd brk w' \<and> env_ok w'"

lemma beside_keeps:
  assumes ok: "server_ok w" and b: "beside w w'"
  shows "server_ok w'" "roster w' = roster w"
proof -
  show ro: "roster w' = roster w" using b by (simp add: beside_def roster_def)
  have kept: "client_ok w' a \<and> fd_of w' a = fd_of w a \<and> cells_of w' a = cells_of w a"
    if a: "a \<in> set (roster w)" for a
  proof -
    have cl: "clients w' a = clients w a" and pk: "packets w' = packets w" using b a by (simp_all add: beside_def)
    then have cells: "queue_cells w' = queue_cells w" by (intro ext) (simp add: queue_cells_def)
    have "client_ok w' a"
      using server_ok_client [OF ok a] b cl cells by (auto simp: client_ok_def beside_def split: option.splits)
    then show ?thesis using cl cells by (simp add: fd_of_def cells_of_def split: option.split)
  qed
  have "apart w' a c" if "a \<in> set (roster w)" "c \<in> set (roster w)" "a \<noteq> c" for a c
    using that kept ok by (simp add: server_ok_def apart_def)
  moreover have "interest_ok w'"
    using ok b kept ro unfolding server_ok_def interest_ok_def beside_def by simp
  ultimately show "server_ok w'"
    using ok b kept by (simp add: server_ok_def ro) (simp add: beside_def)
qed

text \<open>
  \<open>newcomer w c\<close>: a client that has just been accepted. \<open>grown new w w'\<close>: the clients \<open>new\<close> joined
  at the end of the registry, and for the others nothing changed.
\<close>

definition newcomer :: "server \<Rightarrow> ptr \<Rightarrow> bool" where
  "newcomer w c \<longleftrightarrow> (\<exists>ci. clients w c = Some ci \<and> closed ci = 0 \<and> has_name ci = 0 \<and>
     state ci = READ_HEADER \<and> chan_pending c w = [] \<and> sent w (client_fd ci) = [] \<and>
     budget w ci \<le> INPUT_MAX)"

definition grown :: "ptr list \<Rightarrow> server \<Rightarrow> server \<Rightarrow> bool" where
  "grown new w w' \<longleftrightarrow> server_ok w' \<and> roster w' = roster w @ new \<and> client_mutex w' = client_mutex w \<and>
     server_fd w' = server_fd w \<and> server_shutdown w' = server_shutdown w \<and> packets w' = packets w \<and>
     (\<forall>a \<in> set (roster w). clients w' a = clients w a) \<and>
     (\<forall>d. opened w d \<longrightarrow> opened w' d \<and> inq w' d = inq w d \<and> sent w' d = sent w d) \<and>
     (\<forall>c \<in> set new. newcomer w' c)"

lemma beside_grown: "server_ok w \<Longrightarrow> beside w w' \<Longrightarrow> grown [] w w'"
  using beside_keeps [of w w'] by (simp add: grown_def beside_def)

lemma grown_client:
  assumes "grown new w w'" "server_ok w" "a \<in> set (roster w)" "clients w a = Some ci"
  shows "clients w' a = Some ci" "inq w' (client_fd ci) = inq w (client_fd ci)"
    "sent w' (client_fd ci) = sent w (client_fd ci)" "chan_pending a w' = chan_pending a w"
proof -
  have "opened w (client_fd ci)" using client_okE [OF server_ok_client [OF assms(2,3)]] assms(4) by force
  then show "clients w' a = Some ci" "inq w' (client_fd ci) = inq w (client_fd ci)"
    "sent w' (client_fd ci) = sent w (client_fd ci)"
    using assms by (simp_all add: grown_def)
  then show "chan_pending a w' = chan_pending a w"
    using assms(1,4) by (simp add: chan_pending_def queue_cells_def grown_def)
qed

lemma grown_trans:
  assumes "grown new w w1" "grown new1 w1 w2"
  shows "grown (new @ new1) w w2"
proof -
  have ok: "server_ok w1" and ro: "roster w1 = roster w @ new" using assms(1) by (simp_all add: grown_def)
  have "newcomer w2 c" if c: "c \<in> set new" for c
  proof -
    obtain ci where ci: "clients w1 c = Some ci" "closed ci = 0" "has_name ci = 0" "state ci = READ_HEADER"
      "chan_pending c w1 = []" "sent w1 (client_fd ci) = []" "budget w1 ci \<le> INPUT_MAX"
      using assms(1) c by (auto simp: grown_def newcomer_def)
    have "c \<in> set (roster w1)" using ro c by simp
    note g = grown_client [OF assms(2) ok this ci(1)]
    show ?thesis using ci g by (simp add: newcomer_def budget_def)
  qed
  then show ?thesis using assms by (auto simp: grown_def)
qed

lemma join_keeps:
  assumes ok: "server_ok w" and c: "clients w c = Some ci" "c \<notin> set (roster w)" "c \<noteq> NULL" "16 dvd c"
    and ci: "client_wf ci" "0 \<in> set (name ci)" "partial_len ci = 0"
      "msg_queue ci = \<lparr>head = NULL, tail = NULL, queued_bytes = 0, queued_count = 0\<rparr>"
    and d: "client_fd ci = d" "opened w d" "0 \<le> d" "d \<noteq> server_fd w" "interest w d = None"
    and n: "client_count w < MAX_CLIENTS"
    and w': "w' = w\<lparr>epctls := es, interest := (interest w)(d \<mapsto> (m, DataPtr c)),
      client_list := (client_list w)(client_count w := c), client_count := client_count w + 1\<rparr>"
  shows "server_ok w'" "roster w' = roster w @ [c]"
proof -
  show ro: "roster w' = roster w @ [c]" by (simp add: w' roster_def)
  have cells: "queue_cells w' = queue_cells w" by (intro ext) (simp add: w' queue_cells_def)
  have cl: "clients w' = clients w" by (simp add: w')
  have same: "fd_of w' = fd_of w" "cells_of w' = cells_of w"
    by (intro ext, simp add: fd_of_def cl) (intro ext, simp add: cells_of_def cl cells split: option.split)
  have fdc: "fd_of w c = d" "cells_of w c = {}" using c(1) ci(4) d(1) by (simp_all add: fd_of_def cells_of_def)
  have other: "client_ok w' a \<and> fd_of w a \<noteq> d" if a: "a \<in> set (roster w)" for a
  proof -
    have "client_ok w a" using ok a by (rule server_ok_client)
    moreover from this have "fd_of w a \<noteq> d"
      using d(5) by (auto simp: client_ok_def fd_of_def split: option.splits)
    ultimately show ?thesis
      using cells by (auto simp: client_ok_def w' fd_of_def split: option.splits)
  qed
  have "client_ok w' c"
    using c ci d by (simp add: client_ok_def w')
  moreover have "apart w' a b" if "a \<in> set (roster w')" "b \<in> set (roster w')" "a \<noteq> b" for a b
  proof -
    have "apart w a b" if "a \<in> set (roster w)" "b \<in> set (roster w)"
      using ok that \<open>a \<noteq> b\<close> by (simp add: server_ok_def)
    then show ?thesis
      using that other [of a] other [of b] fdc unfolding ro apart_def same by (cases "a = c"; cases "b = c") auto
  qed
  moreover have "interest_ok w'"
    using ok d c fdc unfolding interest_ok_def ro same server_ok_def
    by (auto simp: w' split: if_splits)
  moreover have "env_ok w'" "heap_fresh w'"
    using ok by (auto simp: server_ok_def env_ok_def memory_available_def clock_works_def heap_fresh_def w')
  ultimately show "server_ok w'"
    using ok other c(2) n unfolding server_ok_def ro by (simp add: w')
qed

text \<open>One connection: from the server \<open>w\<close> before \<open>accept\<close> returned \<open>d\<close>.\<close>

definition answered :: "server \<Rightarrow> fd \<Rightarrow> rd_ev list \<Rightarrow> wr_ev list \<Rightarrow> ac_ev list \<Rightarrow> server" where
  "answered w d rs ws evs = w\<lparr>accepts := evs, opened := (opened w)(d := True), inq := (inq w)(d := rs),
     outq := (outq w)(d := ws), sent := (sent w)(d := [])\<rparr>"

lemma sys_accept_conn:
  "accepts w = AcConn d rs ws # evs \<Longrightarrow> 0 \<le> d \<Longrightarrow> \<not> opened w d \<Longrightarrow> sys_accept w = (Inr d, answered w d rs ws evs)"
  by (simp add: sys_accept_def answered_def)

lemma env_ok_allocated:
  assumes "env_ok w" "set (mallocs w') \<subseteq> set (mallocs w)" "set (accepts w') \<subseteq> set (accepts w)"
    "clock w' = clock w" "junk w' = junk w"
  shows "env_ok w'"
  using assms unfolding env_ok_def memory_available_def clock_works_def by (metis subsetD)

lemmas in_set_tlD = subsetD [OF set_tl_subset]

lemma admit_client_spec:
  assumes ok: "server_ok w" "\<not> client_mutex w" and ac: "accepts w = AcConn d rs ws # evs" "0 \<le> d" "\<not> opened w d"
  shows "ok (admit_client d (answered w d rs ws evs)) (\<lambda>(r, w'). accepts w' = evs \<and>
     (r = -1 \<and> grown [] w w' \<or> r = 0 \<and> (\<exists>c. grown [c] w w' \<and> fd_of w' c = d)) \<and>
     set (fcntls w') \<subseteq> set (fcntls w) \<and> set (epctls w') \<subseteq> set (epctls w) \<and>
     (\<forall>x. opened w' x \<longrightarrow> opened w x \<or> x = d) \<and>
     ((\<forall>b \<in> set (fcntls w) \<union> set (epctls w). b) \<longrightarrow> (r = 0 \<longleftrightarrow> client_count w < MAX_CLIENTS)))"
proof -
  let ?wa = "answered w d rs ws evs"
  let ?c = "brk w"
  obtain b fs where b: "pop_default True (fcntls w) = (b, fs)" by fastforce
  obtain b2 es where b2: "pop_default True (epctls w) = (b2, es)" by fastforce
  have bs: "set fs \<subseteq> set (fcntls w)" "set es \<subseteq> set (epctls w)"
    "(\<forall>b \<in> set (fcntls w). b) \<longrightarrow> b" "(\<forall>b \<in> set (epctls w). b) \<longrightarrow> b2"
    using set_snd_pop_default [of True "fcntls w"] set_snd_pop_default [of True "epctls w"]
      fst_pop_default [of True "fcntls w"] fst_pop_default [of True "epctls w"] b b2 by auto
  note parts = server_ok_parts [OF ok(1)]
  have env: "env_ok w'" if "mallocs w' = mallocs w \<or> mallocs w' = tl (mallocs w) \<or> mallocs w' = tl (tl (mallocs w))"
    "accepts w' = evs" "clock w' = clock w" "junk w' = junk w" for w'
    by (rule env_ok_allocated [OF parts(6)]) (use that ac(1) in \<open>auto dest!: in_set_tlD\<close>)
  have nint: "interest w d = None"
    using ok(1) ac(3) by (cases "interest w d") (auto simp: server_ok_def interest_ok_def)
  have above: "?c \<notin> set (roster w)" "clients w ?c = None" "?c \<noteq> NULL" "16 dvd ?c"
    using parts(1) ok(1) roster_alive [OF ok(1), of ?c] by (auto simp: heap_fresh_def server_ok_def)
  have dne: "d \<noteq> server_fd w" using ok(1) ac(3) by (auto simp: server_ok_def)
  let ?w1 = "?wa\<lparr>fcntls := fs\<rparr>"
  have f: "sys_fcntl_nonblock d ?wa = (if b then 0 else -1, ?w1)"
    using b by (simp add: sys_fcntl_nonblock_def answered_def)
  show ?thesis
  proof (cases b)
    case False
    have "beside w ?w1"
      using ok(1) ac(3) parts(1) env by (auto simp: beside_def answered_def server_ok_def heap_fresh_def)
    then show ?thesis
      using beside_grown [OF ok(1)] f False bs by (auto simp: admit_client_def answered_def)
  next
    case True
    let ?w2 = "set_client ?c (fresh_client (junk w)) (?w1\<lparr>mallocs := tl (mallocs w), brk := ?c + 16\<rparr>)"
    have m: "malloc_client ?w1 = (?c, ?w2)"
      using malloc_ok_available [of ?w1 SIZEOF_CLIENT_INFO] parts(2)
      by (simp add: malloc_client_def fresh_ptr_def answered_def memory_available_def SIZEOF_CLIENT_INFO_def PTRDIFF_MAX_def)
    have "memory_available ?w2" using parts(2) by (auto simp: memory_available_def answered_def dest: in_set_tlD)
    then obtain ci where i: "client_info_init ?c d ?w2 =
        Some (0, set_client ?c ci (?w2\<lparr>mallocs := tl (mallocs ?w2), live_bufs := live_bufs ?w2 + 1\<rparr>))"
      and ci: "client_wf ci" "client_fd ci = d" "closed ci = 0" "has_name ci = 0" "state ci = READ_HEADER"
        "partial_len ci = 0" "msg_queue ci = \<lparr>head = NULL, tail = NULL, queued_bytes = 0, queued_count = 0\<rparr>"
        "name ci = map (junk w) [0..<NAME_MAX]"
      using client_info_init_spec [of ?w2 ?c "junk w" d] by auto
    define w3 where "w3 = set_client ?c ci (?w2\<lparr>mallocs := tl (mallocs ?w2), live_bufs := live_bufs ?w2 + 1\<rparr>)"
    note i3 = i [folded w3_def]
    have nm: "0 \<in> set (name ci)" using parts(6) by (force simp: ci(8) env_ok_def)
    have bes: "beside w w'" if "w' = w3\<lparr>epctls := es\<rparr>" for w'
      using ok(1) ac(3) parts(1) env [of w'] above(1,2)
      by (auto simp: that w3_def beside_def answered_def server_ok_def heap_fresh_def)
    show ?thesis
    proof (cases b2)
      case False
      have e: "epoll_ctl EPOLL_CTL_ADD d (EPOLLIN OR EPOLLRDHUP, DataPtr ?c) w3 = (-1, w3\<lparr>epctls := es\<rparr>)"
        using b2 False by (simp add: epoll_ctl_def w3_def answered_def)
      then show ?thesis
        using beside_grown [OF ok(1) bes] f True m i3 e False bs b2
        by (auto simp: admit_client_def) (auto simp: w3_def answered_def)
    next
      case b2t: True
      define w4 where "w4 = w3\<lparr>epctls := es, interest := (interest w)(d \<mapsto> (EPOLLIN OR EPOLLRDHUP, DataPtr ?c))\<rparr>"
      have w3s: "interest w3 = interest w" "opened w3 = (opened w)(d := True)" "clients w3 = (clients w)(?c \<mapsto> ci)"
        "client_count w3 = client_count w" "client_list w3 = client_list w" "client_mutex w3 = client_mutex w"
        "epctls w3 = epctls w" "accepts w3 = evs" "fcntls w3 = fs" "roster w3 = roster w" "server_fd w3 = server_fd w"
        "inq w3 = (inq w)(d := rs)" "sent w3 = (sent w)(d := [])" "packets w3 = packets w"
        by (auto simp: w3_def answered_def roster_def)
      have e: "epoll_ctl EPOLL_CTL_ADD d (EPOLLIN OR EPOLLRDHUP, DataPtr ?c) w3 = (0, w4)"
        using b2 b2t nint by (simp add: epoll_ctl_def w3s w4_def)
      have run: "admit_client d ?wa = do { (r3, w5) \<leftarrow> add_client_to_list ?c w4; if r3 = -1 then Some (-1, w5) else Some (0, w5) }"
        using f True m i3 e by (simp add: admit_client_def)
      show ?thesis
      proof (cases "client_count w < MAX_CLIENTS")
        case True
        have "client_count w + 1 < SIZE_MOD" using True by (simp add: MAX_CLIENTS_def SIZE_MOD_def)
        let ?w5 = "w3\<lparr>epctls := es, interest := (interest w3)(d \<mapsto> (EPOLLIN OR EPOLLRDHUP, DataPtr ?c)),
            client_list := (client_list w3)(client_count w3 := ?c), client_count := client_count w3 + 1\<rparr>"
        have add: "add_client_to_list ?c w4 = Some (0, ?w5)"
          using True ok(2) \<open>client_count w + 1 < SIZE_MOD\<close>
          by (simp add: add_client_to_list_def mutex_lock_def mutex_unlock_def list_put_def w4_def w3s sz_add_small)
        have b3: "beside w (w3\<lparr>epctls := es\<rparr>)" by (rule bes) simp
        have j: "server_ok ?w5" "roster ?w5 = roster w @ [?c]"
          using join_keeps [of "w3\<lparr>epctls := es\<rparr>" ?c ci d ?w5 "EPOLLIN OR EPOLLRDHUP" es]
            beside_keeps [OF ok(1) b3] above ci nm ac(2) dne nint True by (simp_all add: w3s)
        have "rd_data rs = rd_data (inq ?w5 d)" by (simp add: w3s)
        then have "budget ?w5 ci \<le> INPUT_MAX"
          using parts(6) ac(1) ci by (simp add: budget_def env_ok_def w3s)
        then have "newcomer ?w5 ?c" using ci by (simp add: newcomer_def w3s chan_pending_def)
        then have "grown [?c] w ?w5"
          using j b3 by (simp add: grown_def beside_def w3s)
        moreover have "fd_of ?w5 ?c = d" using ci by (simp add: fd_of_def w3s)
        ultimately show ?thesis
          using run add True bs b b2 by (auto simp: w3s)
      next
        case False
        obtain b4 cs where b4: "pop_default True (closes w4) = (b4, cs)" by fastforce
        define w5 where "w5 = w4\<lparr>client_mutex := False, closes := cs, opened := (opened w4)(d := False),
          interest := (interest w4)(d := None), clients := (clients w4)(?c := None)\<rparr>"
        have add: "add_client_to_list ?c w4 = Some (-1, w5)"
          using False ok(2) b4 above(3) ci
          by (simp add: add_client_to_list_def mutex_lock_def mutex_unlock_def sys_close_def free_client_def w4_def w3s w5_def)
        have "beside w (w3\<lparr>epctls := es\<rparr>)" by (rule bes) simp
        moreover have "interest w5 = interest w" "opened w5 = opened w" "env_ok w5 = env_ok w3"
          using nint ac(3)
          by (auto simp: w5_def w4_def w3s env_ok_def memory_available_def clock_works_def fun_upd_idem)
        ultimately have "beside w w5"
          using ok(2) ac(3) above by (auto simp: beside_def w5_def w4_def w3s heap_fresh_def env_ok_def
              memory_available_def clock_works_def)
        then show ?thesis
          using beside_grown [OF ok(1)] run add False bs by (auto simp: w5_def w4_def w3s)
      qed
    qed
  qed
qed

lemma accept_new_clients_spec:
  assumes "server_ok w" "\<not> client_mutex w"
  shows "ok (accept_new_clients w) (\<lambda>(r, w'). r \<in> {0, -1} \<and> (\<exists>new. grown new w w'))"
  using assms
proof (induction "length (accepts w)" arbitrary: w rule: less_induct)
  case less
  note ok = less.prems
  have stop: "grown [] w (w\<lparr>accepts := evs\<rparr>)" if "set evs \<subseteq> set (accepts w)" for evs
  proof (rule beside_grown [OF ok(1)])
    show "beside w (w\<lparr>accepts := evs\<rparr>)"
      using ok(1) env_ok_allocated [OF server_ok_parts(6) [OF ok(1)], of "w\<lparr>accepts := evs\<rparr>"] that
      by (simp add: beside_def server_ok_def heap_fresh_def)
  qed
  show ?case
  proof (cases "accepts w")
    case Nil
    then have "accept_new_clients w = Some (0, w)" by (simp add: accept_new_clients.simps sys_accept_def)
    then show ?thesis using stop [of "accepts w"] by (auto intro!: exI [of _ "[]"])
  next
    case (Cons a evs)
    show ?thesis
    proof (cases "\<exists>d rs ws. a = AcConn d rs ws \<and> 0 \<le> d \<and> \<not> opened w d")
      case False
      then have "\<exists>e. sys_accept w = (Inl e, w\<lparr>accepts := evs\<rparr>)"
        using Cons by (cases a) (auto simp: sys_accept_def)
      then obtain e where "sys_accept w = (Inl e, w\<lparr>accepts := evs\<rparr>)" ..
      then show ?thesis
        using stop [of evs] Cons by (subst accept_new_clients.simps) auto
    next
      case True
      then obtain d rs ws where d: "accepts w = AcConn d rs ws # evs" "0 \<le> d" "\<not> opened w d"
        using Cons by blast
      obtain r w1 where a: "admit_client d (answered w d rs ws evs) = Some (r, w1)" "accepts w1 = evs"
        "r = -1 \<and> grown [] w w1 \<or> r = 0 \<and> (\<exists>c. grown [c] w w1)"
        using admit_client_spec [OF ok d] by (auto elim!: okE)
      have run: "accept_new_clients w = (if r = -1 then Some (-1, w1) else accept_new_clients w1)"
        using sys_accept_conn [OF d] a(1) by (subst accept_new_clients.simps) simp
      show ?thesis
      proof (cases "r = -1")
        case True
        then show ?thesis using run a(3) by auto
      next
        case False
        then obtain c where c: "grown [c] w w1" using a(3) by blast
        then have "server_ok w1" "\<not> client_mutex w1" using ok(2) by (simp_all add: grown_def)
        moreover have "length (accepts w1) < length (accepts w)" using a(2) d(1) by simp
        ultimately have "ok (accept_new_clients w1) (\<lambda>(r, w'). r \<in> {0, -1} \<and> (\<exists>new. grown new w1 w'))"
          by (rule less.hyps [rotated])
        then show ?thesis
          unfolding run if_not_P [OF False]
          by (rule ok_weaken) (use grown_trans [OF c] in \<open>auto\<close>)
      qed
    qed
  qed
qed

section \<open>Properties\<close>

text \<open>Connections that the listening socket may hand out one after the other.\<close>

fun conn_ev :: "fd \<times> rd_ev list \<times> wr_ev list \<Rightarrow> ac_ev" where
  "conn_ev (d, rs, ws) = AcConn d rs ws"

definition legal_conns :: "server \<Rightarrow> (fd \<times> rd_ev list \<times> wr_ev list) list \<Rightarrow> bool" where
  "legal_conns w conns \<longleftrightarrow> distinct (map fst conns) \<and> (\<forall>d \<in> set (map fst conns). 0 \<le> d \<and> \<not> opened w d)"

lemma grown_fds:
  assumes "grown new w w'" "a \<in> set (roster w)"
  shows "fd_of w' a = fd_of w a"
  using assms by (simp add: grown_def fd_of_def)

lemma grown_count: "grown new w w' \<Longrightarrow> client_count w' = client_count w + length new"
  by (auto simp: grown_def roster_def dest: arg_cong [of _ _ length])

text \<open>
  Claim C12. When every fcntl and every epoll_ctl succeeds, accepting takes all the waiting connections for which
  there is a place. Each becomes, in order, a client at the end of the registry, open, unnamed, with an empty queue; when there are more
  than places, one is closed again, the others stay with the listening socket, and the result is -1.
  The server is in order, and the clients it had are untouched.
\<close>

theorem accept_fills_registry:
  assumes "server_ok w" "\<not> client_mutex w" "accepts w = map conn_ev conns" "legal_conns w conns"
    and "\<forall>b \<in> set (fcntls w) \<union> set (epctls w). b"
  shows "ok (accept_new_clients w) (\<lambda>(r, w'). \<exists>new. grown new w w' \<and>
     map (fd_of w') new = take (MAX_CLIENTS - client_count w) (map fst conns) \<and>
     accepts w' = map conn_ev (drop (Suc (MAX_CLIENTS - client_count w)) conns) \<and>
     r = (if client_count w + length conns \<le> MAX_CLIENTS then 0 else -1))"
  using assms
proof (induction conns arbitrary: w)
  case Nil
  then have "accept_new_clients w = Some (0, w)" by (simp add: accept_new_clients.simps sys_accept_def)
  moreover have "beside w w"
    using Nil by (simp add: beside_def server_ok_def)
  ultimately show ?case
    using Nil beside_grown [of w w] server_ok_parts(4) [of w] by (auto intro!: exI [of _ "[]"])
next
  case (Cons x conns)
  obtain d rs ws where x: "x = (d, rs, ws)" by (cases x) auto
  have d: "accepts w = AcConn d rs ws # map conn_ev conns" "0 \<le> d" "\<not> opened w d"
    using Cons.prems(3,4) x by (auto simp: legal_conns_def)
  obtain r w1 where a: "admit_client d (answered w d rs ws (map conn_ev conns)) = Some (r, w1)"
    "accepts w1 = map conn_ev conns"
    "r = -1 \<and> grown [] w w1 \<or> r = 0 \<and> (\<exists>c. grown [c] w w1 \<and> fd_of w1 c = d)"
    "\<forall>x. opened w1 x \<longrightarrow> opened w x \<or> x = d"
    "set (fcntls w1) \<subseteq> set (fcntls w)" "set (epctls w1) \<subseteq> set (epctls w)"
    "r = 0 \<longleftrightarrow> client_count w < MAX_CLIENTS"
  proof (rule okE [OF admit_client_spec [OF Cons.prems(1,2) d]], goal_cases)
    case (1 y)
    obtain r w1 where y: "y = (r, w1)" by fastforce
    show ?case
      using 1(3) [unfolded y prod.case] Cons.prems(5) 1(2) [unfolded y]
      by - (elim conjE, drule (1) mp, rule 1(1); assumption)
  qed
  have run: "accept_new_clients w = (if r = -1 then Some (-1, w1) else accept_new_clients w1)"
    using sys_accept_conn [OF d] a(1) by (subst accept_new_clients.simps) simp
  show ?case
  proof (cases "client_count w < MAX_CLIENTS")
    case False
    then have "r = -1" "grown [] w w1" using a(3,7) by auto
    then show ?thesis
      using run False a(2) by (auto intro!: exI [of _ "[]"])
  next
    case True
    then obtain c where c: "grown [c] w w1" "fd_of w1 c = d" and r: "r = 0" using a(3,7) by auto
    have pre: "server_ok w1" "\<not> client_mutex w1" using c Cons.prems(2) by (simp_all add: grown_def)
    have lg: "legal_conns w1 conns"
      using Cons.prems(4) a(4) unfolding legal_conns_def x by auto
    have al: "\<forall>b \<in> set (fcntls w1) \<union> set (epctls w1). b" using Cons.prems(5) a(5,6) by blast
    have n: "MAX_CLIENTS - client_count w = Suc (MAX_CLIENTS - client_count w1)"
      using grown_count [OF c(1)] True by simp
    have IH: "ok (accept_new_clients w1) (\<lambda>(r, w'). \<exists>new. grown new w1 w' \<and>
       map (fd_of w') new = take (MAX_CLIENTS - client_count w1) (map fst conns) \<and>
       accepts w' = map conn_ev (drop (Suc (MAX_CLIENTS - client_count w1)) conns) \<and>
       r = (if client_count w1 + length conns \<le> MAX_CLIENTS then 0 else -1))"
      by (rule Cons.IH [OF pre a(2) lg al])
    have run1: "accept_new_clients w = accept_new_clients w1" using run r by simp
    show ?thesis
      unfolding run1
    proof (rule ok_weaken [OF IH], goal_cases)
      case (1 y)
      obtain r' w' where y: "y = (r', w')" by fastforce
      obtain new where new: "grown new w1 w'"
        "map (fd_of w') new = take (MAX_CLIENTS - client_count w1) (map fst conns)"
        "accepts w' = map conn_ev (drop (Suc (MAX_CLIENTS - client_count w1)) conns)"
        "r' = (if client_count w1 + length conns \<le> MAX_CLIENTS then 0 else -1)"
        using 1 unfolding y by auto
      have "fd_of w' c = d" using grown_fds [OF new(1), of c] c by (simp add: grown_def)
      then show ?case
        unfolding y using grown_trans [OF c(1) new(1)] new grown_count [OF c(1)] n x
        by (auto intro!: exI [of _ "c # new"])
    qed
  qed
qed

lemma two_clients_accepts_ok:
  assumes "length msg \<le> BUF_SIZE" "\<forall>d rs ws. AcConn d rs ws \<in> set as \<longrightarrow> length (rd_data rs) \<le> INPUT_MAX"
  shows "server_ok ((two_clients evs msg)\<lparr>accepts := as\<rparr>)"
proof -
  let ?w = "two_clients evs msg"
  have ok: "server_ok ?w" using assms(1) by (rule two_clients_ok)
  then have "beside ?w (?w\<lparr>accepts := as\<rparr>)"
    using assms(2) unfolding beside_def server_ok_def
    by (simp add: heap_fresh_def env_ok_def memory_available_def clock_works_def)
  with ok show ?thesis by (rule beside_keeps)
qed

lemma two_clients_scripts [simp]: "fcntls (two_clients evs msg) = []" "epctls (two_clients evs msg) = []"
  "closes (two_clients evs msg) = []"
  by (simp_all add: two_clients_def)

theorem accept_fills_registry_witness:
  "ok (accept_new_clients ((two_clients [] [])\<lparr>accepts := [AcConn 9 [RdData [72]] []]\<rparr>)) (\<lambda>(r, w').
     r = 0 \<and> (\<exists>c. roster w' = [16, 32, c] \<and> fd_of w' c = 9))"
proof -
  let ?w = "(two_clients [] [])\<lparr>accepts := [AcConn 9 [RdData [72]] []]\<rparr>"
  have "server_ok ?w" by (rule two_clients_accepts_ok) (simp_all add: INPUT_MAX_def)
  moreover have "legal_conns ?w [(9, [RdData [72]], [])]" by (simp add: legal_conns_def)
  moreover have "roster ?w = [16, 32]" by (simp add: roster_def numeral_2_eq_2 two_clients_def)
  ultimately show ?thesis
    by (intro ok_weaken [OF accept_fills_registry [of ?w "[(9, [RdData [72]], [])]"]])
       (auto simp: MAX_CLIENTS_def grown_def map_eq_Cons_conv split: prod.splits)
qed

end
