(* ===== verification/Chat_Loop.thy ===== *)
theory Chat_Loop
  imports Chat_Clients
begin

text \<open>
  The server's main loop (src/server/server_loop.c): register the listening socket, then, until the
  shutdown flag is up, remove the clients that were marked closed, wait for events and dispatch
  them; at the end announce the shutdown and release everything. What \<open>epoll_wait\<close> answers each time
  is a script; the loop is followed for as many rounds as there are answers.
\<close>

section \<open>Removing closed clients\<close>

definition reap_client :: "nat \<Rightarrow> server \<Rightarrow> server option" where
  "reap_client i w = do {
     c \<leftarrow> list_at w i;
     ci \<leftarrow> clients w c;
     if closed ci = 1 then do {
       let (_, w1) = epoll_ctl EPOLL_CTL_DEL (client_fd ci) no_event w;
       w2 \<leftarrow> discard_queue c w1;
       c' \<leftarrow> list_at w2 i;
       (_, w3) \<leftarrow> remove_client_from_list c' w2;
       Some w3
     } else Some w
   }"

partial_function (option) reap_from :: "nat \<Rightarrow> server \<Rightarrow> server option" where
  "reap_from i w =
     (if i < client_count w then do { w1 \<leftarrow> reap_client i w; reap_from (i + 1) w1 } else Some w)"

section \<open>Events\<close>

text \<open>
  An answer of \<open>epoll_wait\<close>: an error, or descriptors with the conditions that hold of them. The
  kernel reports what was registered, with the data registered for it, errors and hang-ups always.
\<close>

datatype wait_ans = WaitErr | WaitReady "(fd \<times> 32 word) list"

definition MAX_EVENTS :: nat where "MAX_EVENTS = 10"

definition report :: "'a os_scheme \<Rightarrow> fd \<times> 32 word \<Rightarrow> (32 word \<times> epoll_data) option" where
  "report w x = (case x of (d, m) \<Rightarrow>
     (case interest w d of None \<Rightarrow> None
      | Some (i, e) \<Rightarrow>
          (let k = m AND (i OR EPOLLERR OR EPOLLHUP) in if k = 0 then None else Some (k, e))))"

definition epoll_wait :: "nat \<Rightarrow> wait_ans \<Rightarrow> 'a os_scheme \<Rightarrow> (32 word \<times> epoll_data) list option" where
  "epoll_wait n a w =
     (case a of WaitErr \<Rightarrow> None | WaitReady ds \<Rightarrow> Some (take n (List.map_filter (report w) ds)))"

text \<open>
  \<open>epoll_data_t\<close> is a union: the descriptor is the low half of the pointer, read as a signed number.
\<close>

definition data_fd :: "epoll_data \<Rightarrow> fd" where
  "data_fd e = (case e of DataFd d \<Rightarrow> d | DataPtr p \<Rightarrow> sint (of_nat p :: 32 word))"

definition data_ptr :: "epoll_data \<Rightarrow> ptr" where
  "data_ptr e = (case e of DataPtr p \<Rightarrow> p | DataFd d \<Rightarrow> unat (of_int d :: 32 word))"

definition close_client :: "ptr \<Rightarrow> server \<Rightarrow> server option" where
  "close_client c w = do { ci \<leftarrow> clients w c; Some (set_client c (ci\<lparr>closed := 1\<rparr>) w) }"

text \<open>One event; the flag says that the reading branch has given up on the client.\<close>

definition dispatch_read :: "32 word \<Rightarrow> ptr \<Rightarrow> server \<Rightarrow> (bool \<times> server) option" where
  "dispatch_read m c w =
     (if m AND EPOLLIN \<noteq> 0 then do {
        (r, w1) \<leftarrow> handle_client_read c w;
        if r < 0 then do { w2 \<leftarrow> close_client c w1; Some (True, w2) } else Some (False, w1)
      } else Some (False, w))"

definition dispatch_write :: "32 word \<Rightarrow> ptr \<Rightarrow> server \<Rightarrow> server option" where
  "dispatch_write m c w =
     (if m AND EPOLLOUT \<noteq> 0 then do {
        (r, w1) \<leftarrow> client_try_write c w;
        if r = -1 then close_client c w1 else Some w1
      } else Some w)"

definition dispatch_event :: "32 word \<times> epoll_data \<Rightarrow> server \<Rightarrow> server option" where
  "dispatch_event ev w = (case ev of (m, e) \<Rightarrow>
     if data_fd e = server_fd w then do { (_, w1) \<leftarrow> accept_new_clients w; Some w1 }
     else do {
       let c = data_ptr e;
       ci \<leftarrow> clients w c;
       if closed ci = 1 then Some w
       else if m AND (EPOLLHUP OR EPOLLRDHUP OR EPOLLERR) \<noteq> 0 then close_client c w
       else do {
         (gone, w1) \<leftarrow> dispatch_read m c w;
         if gone then Some w1 else dispatch_write m c w1
       }
     })"

fun each :: "('e \<Rightarrow> 's \<Rightarrow> 's option) \<Rightarrow> 'e list \<Rightarrow> 's \<Rightarrow> 's option" where
  "each f [] s = Some s"
| "each f (x # xs) s = do { s1 \<leftarrow> f x s; each f xs s1 }"

section \<open>Shutting down\<close>

definition shutdown_message :: "byte list" where
  "shutdown_message = bytes_of ''SERVER SHUTDOWN'' @ [0]"

partial_function (option) discard_from :: "nat \<Rightarrow> server \<Rightarrow> server option" where
  "discard_from i w =
     (if i < client_count w then do {
        c \<leftarrow> list_at w i;
        w1 \<leftarrow> discard_queue c w;
        discard_from (i + 1) w1
      } else Some w)"

text \<open>The part after the loop; \<open>shutdown\<close> on the listening socket has no effect the model sees.\<close>

definition stop_server :: "server \<Rightarrow> (int \<times> server) option" where
  "stop_server w = do {
     shutdown_len \<leftarrow> strlen_c shutdown_message;
     (_, w1) \<leftarrow> broadcast NULL shutdown_message shutdown_len w;
     let (_, w2) = epoll_ctl EPOLL_CTL_DEL (server_fd w1) no_event w1;
     let (_, w3) = sys_close (server_fd w2) w2;
     w4 \<leftarrow> discard_from 0 w3;
     (_, w5) \<leftarrow> remove_all_clients w4;
     Some (0, w5)
   }"

section \<open>The loop\<close>

text \<open>No result means that the loop waits for the next event when the answers are used up.\<close>

definition returned :: "(int \<times> server) option \<Rightarrow> (int option \<times> server) option" where
  "returned m = do { (r, w) \<leftarrow> m; Some (Some r, w) }"

fun server_loop_from :: "wait_ans list \<Rightarrow> server \<Rightarrow> (int option \<times> server) option" where
  "server_loop_from [] w =
     (if server_shutdown w = 1 then returned (stop_server w)
      else do { w1 \<leftarrow> reap_from 0 w; Some (None, w1) })"
| "server_loop_from (a # as) w =
     (if server_shutdown w = 1 then returned (stop_server w)
      else do {
        w1 \<leftarrow> reap_from 0 w;
        case epoll_wait MAX_EVENTS a w1 of
          None \<Rightarrow> Some (Some (-1), w1)
        | Some evs \<Rightarrow> do { w2 \<leftarrow> each dispatch_event evs w1; server_loop_from as w2 }
      })"

definition server_loop :: "wait_ans list \<Rightarrow> server \<Rightarrow> (int option \<times> server) option" where
  "server_loop as w =
     (case epoll_ctl EPOLL_CTL_ADD (server_fd w) (EPOLLIN, DataFd (server_fd w)) w of (r, w1) \<Rightarrow>
        if r = -1 then Some (Some (-1), w1) else server_loop_from as w1)"

section \<open>The pass over the closed clients\<close>

lemma reap_client_spec:
  assumes ok: "server_ok w" "\<not> client_mutex w" and i: "i < client_count w" "client_list w i = c"
    and c: "clients w c = Some ci" "closed ci = 1"
  shows "ok (reap_client i w) (\<lambda>w'. shrunk (queue_cells w ci) c w w')"
proof -
  let ?d = "client_fd ci" and ?ps = "queue_cells w ci"
  have cin: "c \<in> set (roster w)" using set_roster_nth [OF i(1)] i(2) by simp
  have count: "client_count w \<le> MAX_CLIENTS" using ok(1) by (rule server_ok_parts)
  have la: "list_at w' i = Some c" if "client_list w' = client_list w" for w'
    using i count that by (simp add: list_at_def)
  have cok: "c \<noteq> NULL" "opened w ?d" "0 \<le> ?d" "client_wf ci" "queue_rep (packets w) (msg_queue ci) ?ps"
    using server_ok_client [OF ok(1) cin] c(1) by (auto simp: client_ok_def)
  obtain r w1 where e: "epoll_ctl EPOLL_CTL_DEL ?d no_event w = (r, w1)" by fastforce
  have "w1 = w\<lparr>epctls := epctls w1, interest := interest w1\<rparr> \<and>
      (interest w1)(?d := None) = (interest w)(?d := None)"
    using e by (auto simp: epoll_ctl_def Let_def split: if_splits prod.splits)
  then obtain es it where w1: "w1 = w\<lparr>epctls := es, interest := it\<rparr>" "it(?d := None) = (interest w)(?d := None)"
    by blast
  define ci' where "ci' = ci\<lparr>msg_queue := (msg_queue ci)\<lparr>head := NULL\<rparr>\<rparr>"
  define w2 where "w2 = w1\<lparr>clients := (clients w1)(c \<mapsto> ci'), packets := drop_cells ?ps (packets w1),
     live_bufs := live_bufs w1 - int (length ?ps)\<rparr>"
  have dq: "discard_queue c w1 = Some w2"
    unfolding w2_def ci'_def using cok(5) c(1)
    by (intro discard_queue_eq) (simp_all add: w1 queue_rep_def)
  have "roster w2 = roster w" by (simp add: roster_def w2_def w1)
  then have "ok (remove_client_from_list c w2) (\<lambda>(r, w'). r \<in> {0, -1} \<and> shrunk [] c w2 w' \<and>
     ((\<forall>b \<in> set (closes w2). b) \<longrightarrow> r = 0))"
    using ok server_ok_parts(5) [OF ok(1)] count i c(1) cok
    by (intro remove_client_spec [of w2 i c ci']) (auto simp: w2_def w1 ci'_def client_wf_def)
  then obtain r3 w3 where rm: "remove_client_from_list c w2 = Some (r3, w3)" and sh: "shrunk [] c w2 w3"
    by (auto elim!: okE)
  have run: "reap_client i w = Some w3"
    using la [of w] la [of w2] c e dq rm by (simp add: reap_client_def w2_def w1)
  have "client_fd ci' = ?d" by (simp add: ci'_def)
  then have "shrunk ?ps c w w3"
    using sh unfolding shrunk_def
  proof (elim exE, goal_cases)
    case (1 j cj)
    then have j: "j < client_count w" "client_list w j = c" by (simp_all add: w2_def w1)
    then have "roster w ! j = roster w ! i" using i by (simp add: roster_def)
    then have "j = i"
      using nth_eq_iff_index_eq [OF server_ok_parts(5) [OF ok(1)], of j i] i(1) j(1) by (simp add: roster_def)
    then show ?case
      using 1 i c(1) w1(2) \<open>roster w2 = roster w\<close> \<open>client_fd ci' = ?d\<close>
      by (intro exI [of _ i] exI [of _ ci]) (simp add: w2_def w1)
  qed
  then show ?thesis using run by simp
qed

text \<open>The pass on lists: the client moved into the place of a removed one is not looked at.\<close>

function reap_list :: "('a \<Rightarrow> bool) \<Rightarrow> nat \<Rightarrow> 'a list \<Rightarrow> 'a list" where
  "reap_list dead i xs =
     (if i < length xs then reap_list dead (Suc i) (if dead (xs ! i) then swap_out i xs else xs) else xs)"
  by pat_completeness auto

termination by (relation "measure (\<lambda>(dead, i, xs). length xs - i)") auto

declare reap_list.simps [simp del]

definition is_closed :: "server \<Rightarrow> ptr \<Rightarrow> bool" where
  "is_closed w c = (case clients w c of None \<Rightarrow> False | Some ci \<Rightarrow> closed ci = 1)"

lemma set_swap_out: "i < length xs \<Longrightarrow> set (swap_out i xs) \<subseteq> set xs"
  using mset_swap_out [of i xs] by (metis diff_subset_eq_self mset_subset_eqD set_mset_mset subsetI)

lemma reap_list_cong:
  "(\<And>x. x \<in> set xs \<Longrightarrow> dead x = dead' x) \<Longrightarrow> reap_list dead i xs = reap_list dead' i xs"
proof (induction dead i xs rule: reap_list.induct)
  case (1 dead i xs)
  then show ?case
    using set_swap_out [of i xs]
    by (subst (1 2) reap_list.simps) (auto simp: subset_iff)
qed

text \<open>What a pass leaves: the survivors are untouched, the others are gone.\<close>

definition swept :: "server \<Rightarrow> server \<Rightarrow> bool" where
  "swept w w' \<longleftrightarrow> server_ok w' \<and> \<not> client_mutex w' \<and> server_fd w' = server_fd w \<and>
     server_shutdown w' = server_shutdown w \<and> inq w' = inq w \<and> set (closes w') \<subseteq> set (closes w) \<and>
     set (roster w') \<subseteq> set (roster w) \<and> (\<forall>d. opened w' d \<longrightarrow> opened w d) \<and>
     (\<forall>a. clients w a = None \<longrightarrow> clients w' a = None) \<and>
     (\<forall>a \<in> set (roster w'). clients w' a = clients w a \<and> stream w' a = stream w a) \<and>
     (\<forall>a \<in> set (roster w) - set (roster w'). \<not> opened w' (fd_of w a) \<and>
        ((\<forall>b \<in> set (closes w). b) \<longrightarrow> clients w' a = None))"

lemma swept_refl: "server_ok w \<Longrightarrow> \<not> client_mutex w \<Longrightarrow> swept w w"
  by (simp add: swept_def)

lemma shrunk_swept:
  assumes ok: "server_ok w" and sh: "shrunk ps c w w'" and ps: "set ps = cells_of w c"
  shows "swept w w'"
proof -
  note ro = shrunk_roster [OF ok sh]
  obtain ci where c: "clients w c = Some ci" "\<forall>a. a \<noteq> c \<longrightarrow> clients w' a = clients w a"
    "packets w' = drop_cells ps (packets w)" "opened w' = (opened w)(client_fd ci := False)"
    "sent w' = sent w" "inq w' = inq w" "server_fd w' = server_fd w" "server_shutdown w' = server_shutdown w"
    "\<not> client_mutex w'" "set (closes w') \<subseteq> set (closes w)"
    "(\<forall>b \<in> set (closes w). b) \<longrightarrow> clients w' c = None"
    using sh unfolding shrunk_def by auto
  have kept: "clients w' a = clients w a \<and> stream w' a = stream w a" if a: "a \<in> set (roster w')" for a
  proof -
    have a': "a \<in> set (roster w)" "a \<noteq> c" using a ro by auto
    obtain ca where ca: "clients w a = Some ca" "queue_rep (packets w) (msg_queue ca) (queue_cells w ca)"
      using client_okE [OF server_ok_client [OF ok a'(1)]] by metis
    have cl: "clients w' a = clients w a" using c(2) a'(2) by simp
    have "\<forall>p \<in> set (queue_cells w ca). packets w' p = packets w p"
      using server_ok_disjoint(2) [OF ok a'(1) ro(1) a'(2) ca(1) c(1)] ps c(1)
      by (auto simp: c(3) drop_cells_def cells_of_def)
    from other_client_kept(3) [OF cl ca this] show ?thesis
      using cl ca(1) c(5) by (simp add: stream_def chan_sent_def)
  qed
  have fd: "fd_of w c = client_fd ci" using c(1) by (simp add: fd_of_def)
  have "clients w' a = None" if "clients w a = None" for a
    using that c(1,2) by (cases "a = c") simp_all
  then show ?thesis
    unfolding swept_def using shrunk_keeps [OF ok sh ps] ro(1,2) kept c(4-) fd by auto
qed

lemma swept_trans:
  assumes "swept w w1" "swept w1 w2"
  shows "swept w w2"
proof -
  note s1 = assms(1) [unfolded swept_def] and s2 = assms(2) [unfolded swept_def]
  have sub: "set (roster w2) \<subseteq> set (roster w1)" "set (closes w1) \<subseteq> set (closes w)" using s1 s2 by blast+
  have kept: "clients w2 a = clients w a \<and> stream w2 a = stream w a" if "a \<in> set (roster w2)" for a
  proof -
    have "a \<in> set (roster w1)" using that sub by blast
    then show ?thesis using s1 s2 that by simp
  qed
  have gone: "\<not> opened w2 (fd_of w a) \<and> ((\<forall>b \<in> set (closes w). b) \<longrightarrow> clients w2 a = None)"
    if a: "a \<in> set (roster w) - set (roster w2)" for a
  proof (cases "a \<in> set (roster w1)")
    case True
    then have fd: "fd_of w1 a = fd_of w a" using s1 by (simp add: fd_of_def)
    have "\<not> opened w2 (fd_of w1 a) \<and> ((\<forall>b \<in> set (closes w1). b) \<longrightarrow> clients w2 a = None)"
      using s2 True a by blast
    then show ?thesis using fd sub(2) by (metis subsetD)
  next
    case False
    then have "\<not> opened w1 (fd_of w a) \<and> ((\<forall>b \<in> set (closes w). b) \<longrightarrow> clients w1 a = None)"
      using s1 a by blast
    then show ?thesis using s2 by metis
  qed
  have "server_ok w2" "\<not> client_mutex w2" "server_fd w2 = server_fd w" "server_shutdown w2 = server_shutdown w"
    "inq w2 = inq w" "set (closes w2) \<subseteq> set (closes w)" "set (roster w2) \<subseteq> set (roster w)"
    "\<forall>d. opened w2 d \<longrightarrow> opened w d" "\<forall>a. clients w a = None \<longrightarrow> clients w2 a = None"
    using s1 s2 by (auto dest: subsetD)
  then show ?thesis unfolding swept_def using kept gone by blast
qed

lemma reap_from_spec:
  assumes "server_ok w" "\<not> client_mutex w"
  shows "ok (reap_from i w) (\<lambda>w'. swept w w' \<and> roster w' = reap_list (is_closed w) i (roster w))"
  using assms
proof (induction "client_count w - i" arbitrary: i w rule: less_induct)
  case less
  note ok = less.prems
  have len: "length (roster w') = client_count w'" for w' by (simp add: roster_def)
  show ?case
  proof (cases "i < client_count w")
    case False
    then show ?thesis
      using swept_refl [OF ok] by (subst reap_from.simps, subst reap_list.simps) (simp add: len)
  next
    case True
    let ?c = "client_list w i"
    have cin: "?c \<in> set (roster w)" and nth: "roster w ! i = ?c"
      using True by (simp_all add: set_roster_nth roster_def)
    obtain ci where ci: "clients w ?c = Some ci" using roster_alive [OF ok(1) cin] by blast
    have la: "list_at w i = Some ?c" using True server_ok_parts(4) [OF ok(1)] by (simp add: list_at_def)
    have "ok (reap_client i w) (\<lambda>w1. swept w w1 \<and> client_count w1 \<le> client_count w \<and>
        roster w1 = (if is_closed w ?c then swap_out i (roster w) else roster w))"
    proof (cases "closed ci = 1")
      case False
      then show ?thesis using la ci swept_refl [OF ok] by (simp add: reap_client_def is_closed_def)
    next
      case closed: True
      show ?thesis
      proof (rule ok_weaken [OF reap_client_spec [OF ok True refl ci closed]])
        fix w1
        assume sh: "shrunk (queue_cells w ci) ?c w w1"
        have "swept w w1" using shrunk_swept [OF ok(1) sh] ci by (simp add: cells_of_def)
        moreover obtain j where "j < client_count w" "client_list w j = ?c" "roster w1 = swap_out j (roster w)"
          "client_count w1 = client_count w - 1"
          using sh unfolding shrunk_def by blast
        moreover from this have "j = i"
          using roster_index [of w] nth_eq_iff_index_eq [OF server_ok_parts(5) [OF ok(1)], of j i] nth True
          by (simp add: roster_def)
        ultimately show "swept w w1 \<and> client_count w1 \<le> client_count w \<and>
            roster w1 = (if is_closed w ?c then swap_out i (roster w) else roster w)"
          using ci closed by (simp add: is_closed_def)
      qed
    qed
    then obtain w1 where w1: "reap_client i w = Some w1" "swept w w1" "client_count w1 \<le> client_count w"
      "roster w1 = (if is_closed w ?c then swap_out i (roster w) else roster w)"
      by (auto elim!: okE)
    have run: "reap_from i w = reap_from (Suc i) w1" using True w1(1) by (subst reap_from.simps) simp
    have "ok (reap_from (Suc i) w1) (\<lambda>w'. swept w1 w' \<and> roster w' = reap_list (is_closed w1) (Suc i) (roster w1))"
      using less.hyps [of w1 "Suc i"] w1(2,3) True by (simp add: swept_def)
    moreover have "reap_list (is_closed w1) (Suc i) (roster w1) = reap_list (is_closed w) i (roster w)"
    proof -
      have "reap_list (is_closed w1) (Suc i) (roster w1) = reap_list (is_closed w) (Suc i) (roster w1)"
        using w1(2) by (intro reap_list_cong) (simp add: swept_def is_closed_def)
      then show ?thesis
        using True nth w1(4) by (subst (2) reap_list.simps) (simp add: len)
    qed
    ultimately show ?thesis
      unfolding run by (elim ok_weaken) (use swept_trans [OF w1(2)] in auto)
  qed
qed

text \<open>On lists: nobody who is not dead leaves, and at least half of the dead do.\<close>

lemma swap_out_split:
  assumes "i < length xs"
  shows "swap_out i xs = take i xs @ (if Suc i = length xs then [] else last xs # butlast (drop (Suc i) xs))"
proof (rule nth_equalityI)
  show "length (swap_out i xs) = length (take i xs @ (if Suc i = length xs then [] else last xs # butlast (drop (Suc i) xs)))"
    using assms by auto
  show "swap_out i xs ! j = (take i xs @ (if Suc i = length xs then [] else last xs # butlast (drop (Suc i) xs))) ! j"
    if "j < length (swap_out i xs)" for j
    using that assms
    by (auto simp: swap_out_def nth_butlast nth_append nth_list_update nth_Cons' min_def)
qed

lemma reap_list_halves:
  "i \<le> length xs \<Longrightarrow> length (filter dead (reap_list dead i xs))
     \<le> length (filter dead (take i xs)) + length (filter dead (drop i xs)) div 2"
proof (induction dead i xs rule: reap_list.induct)
  case (1 dead i xs)
  show ?case
  proof (cases "i < length xs")
    case False
    then show ?thesis by (subst reap_list.simps) simp
  next
    case i: True
    have dr: "drop i xs = xs ! i # drop (Suc i) xs" and tk: "take (Suc i) xs = take i xs @ [xs ! i]"
      using i by (simp_all add: Cons_nth_drop_Suc take_Suc_conv_app_nth)
    show ?thesis
    proof (cases "dead (xs ! i)")
      case False
      then show ?thesis
        using 1 i dr tk by (subst reap_list.simps) simp
    next
      case dead: True
      show ?thesis
      proof (cases "Suc i = length xs")
        case True
        then have "swap_out i xs = take i xs" using swap_out_split [OF i] by simp
        then show ?thesis
          using i dead True by (subst reap_list.simps, subst reap_list.simps) simp
      next
        case False
        let ?ys = "swap_out i xs" and ?bs = "butlast (drop (Suc i) xs)"
        have ys: "?ys = (take i xs @ [last xs]) @ ?bs" using swap_out_split [OF i] False by simp
        have l: "length (take i xs @ [last xs]) = Suc i" using i by simp
        note td = iffD1 [OF append_eq_conv_conj ys [symmetric], unfolded l]
        have "take (Suc i) ?ys = take i xs @ [last xs]" "drop (Suc i) ?ys = ?bs"
          by (rule td [THEN conjunct1, symmetric]) (rule td [THEN conjunct2, symmetric])
        moreover have "Suc i \<le> length ?ys" using i False by simp
        ultimately have IH: "length (filter dead (reap_list dead (Suc i) ?ys))
            \<le> length (filter dead (take i xs @ [last xs])) + length (filter dead ?bs) div 2"
          using 1 i dead by simp
        have "drop (Suc i) xs = ?bs @ [last xs]"
          using append_butlast_last_id [of "drop (Suc i) xs"] last_drop [of "Suc i" xs] i False by simp
        then have "length (filter dead (drop (Suc i) xs)) =
            length (filter dead ?bs) + length (filter dead [last xs])"
          by (metis filter_append length_append)
        then have "length (filter dead (drop i xs)) =
            Suc (length (filter dead ?bs) + (if dead (last xs) then 1 else 0))"
          using dr dead by simp
        moreover have "reap_list dead i xs = reap_list dead (Suc i) ?ys"
          using i dead by (subst reap_list.simps) simp
        ultimately show ?thesis using IH by auto
      qed
    qed
  qed
qed

lemma reap_list_keeps:
  "x \<in> set xs \<Longrightarrow> \<not> dead x \<Longrightarrow> x \<in> set (reap_list dead i xs)"
proof (induction dead i xs rule: reap_list.induct)
  case (1 dead i xs)
  show ?case
  proof (cases "i < length xs \<and> dead (xs ! i)")
    case True
    then have "x \<in># mset xs - {# xs ! i #}" using 1 by (simp add: in_diff_count) (metis count_mset_gt_0)
    then have "x \<in> set (swap_out i xs)" using mset_swap_out [of i xs] True by (metis set_mset_mset)
    then show ?thesis using 1 True by (subst reap_list.simps) simp
  next
    case False
    then show ?thesis using 1 by (subst reap_list.simps) auto
  qed
qed

end
