(* ===== verification/Chat_Server.thy ===== *)
theory Chat_Server
  imports Chat_Loop
begin

text \<open>
  The server as a whole: the contract of an event loop as a locale, the invariant under which the
  model of \<open>server_loop\<close> (src/server/server_loop.c) meets it, the shutdown sequence, and what follows for
  every run.
\<close>

section \<open>The contract of the loop\<close>

text \<open>
  An event loop: a pass, a source of events and a handler that share an invariant. An event is due when
  it may be handled; handling one keeps the others due.
\<close>

locale event_loop =
  fixes inv :: "'s \<Rightarrow> bool" and due :: "'s \<Rightarrow> 'e \<Rightarrow> bool"
    and pass :: "'s \<Rightarrow> 's option" and wait :: "'a \<Rightarrow> 's \<Rightarrow> 'e list option"
    and handle :: "'e \<Rightarrow> 's \<Rightarrow> 's option"
  assumes pass_law: "inv s \<Longrightarrow> ok (pass s) inv"
    and wait_law: "inv s \<Longrightarrow> wait a s = Some es \<Longrightarrow> e \<in> set es \<Longrightarrow> due s e"
    and handle_law: "inv s \<Longrightarrow> due s e \<Longrightarrow> ok (handle e s) (\<lambda>s'. inv s' \<and> (\<forall>e'. due s e' \<longrightarrow> due s' e'))"
begin

lemma each_keeps:
  assumes "inv s" "\<forall>e \<in> set es. due s e"
  shows "ok (each handle es s) (\<lambda>s'. inv s' \<and> (\<forall>e. due s e \<longrightarrow> due s' e))"
  using assms
proof (induction es arbitrary: s)
  case (Cons e es)
  obtain s1 where s1: "handle e s = Some s1" "inv s1" "\<forall>e'. due s e' \<longrightarrow> due s1 e'"
    using handle_law [of s e] Cons.prems by (auto elim!: okE)
  have "ok (each handle es s1) (\<lambda>s'. inv s' \<and> (\<forall>e. due s1 e \<longrightarrow> due s' e))"
    using Cons s1 by simp
  then show ?case using s1 by (auto elim!: ok_weaken)
qed simp

lemma round_keeps:
  assumes "inv s"
  shows "ok (pass s) (\<lambda>s1. inv s1 \<and> (\<forall>a es. wait a s1 = Some es \<longrightarrow> ok (each handle es s1) inv))"
proof (rule ok_weaken [OF pass_law [OF assms]], intro conjI allI impI)
  fix s1 a es
  assume "inv s1" "wait a s1 = Some es"
  then show "ok (each handle es s1) inv"
    using wait_law [of s1 a es] by (intro ok_weaken [OF each_keeps]) auto
qed

text \<open>Whatever came before it in the batch, an event is due when its turn comes.\<close>

lemma due_in_turn:
  assumes "inv s" "wait a s = Some (es @ e # es')"
  shows "ok (each handle es s) (\<lambda>s'. inv s' \<and> due s' e)"
  using wait_law [OF assms] by (intro ok_weaken [OF each_keeps [OF assms(1)]]) auto

end

section \<open>The server\<close>

text \<open>
  The invariant of the loop: the server in order, its mutex free, and no open client over its budget.
\<close>

definition server_inv :: "server \<Rightarrow> bool" where
  "server_inv w \<longleftrightarrow> server_ok w \<and> \<not> client_mutex w \<and>
     (\<forall>c \<in> set (roster w). \<forall>ci. clients w c = Some ci \<longrightarrow> closed ci \<noteq> 1 \<longrightarrow> budget w ci \<le> INPUT_MAX)"

definition event_due :: "server \<Rightarrow> 32 word \<times> epoll_data \<Rightarrow> bool" where
  "event_due w ev \<longleftrightarrow> snd ev = DataFd (server_fd w) \<or> (\<exists>c \<in> set (roster w). snd ev = DataPtr c)"

lemma data_fd_aligned:
  assumes "16 dvd c"
  shows "16 dvd data_fd (DataPtr c)"
proof -
  have c: "(16 :: int) dvd int c" using assms by presburger
  have m: "(16 :: int) dvd 2 ^ Suc 31" by simp
  have "data_fd (DataPtr c) = take_bit (Suc 31) (int c) - 2 ^ Suc 31 * of_bool (bit (int c) 31)"
    unfolding signed_take_bit_eq_take_bit_minus [symmetric] by (simp add: data_fd_def signed_of_nat)
  moreover have "(16 :: int) dvd take_bit (Suc 31) (int c)"
    unfolding take_bit_eq_mod using dvd_mod [OF c m] .
  ultimately show ?thesis using m by (metis dvd_diff dvd_mult2)
qed

lemma tended_inv:
  assumes inv: "server_inv w" and t: "tended c w w'" and c: "c \<in> set (roster w)"
    and b: "\<And>ci'. clients w' c = Some ci' \<Longrightarrow> closed ci' \<noteq> 1 \<Longrightarrow> budget w' ci' \<le> INPUT_MAX"
  shows "server_inv w'" "\<forall>e. event_due w e \<longrightarrow> event_due w' e"
proof -
  have ok: "server_ok w" "\<not> client_mutex w" using inv by (simp_all add: server_inv_def)
  note g = tended_globals [OF t]
  have "budget w' ca' \<le> INPUT_MAX" if a: "a \<in> set (roster w)" "clients w' a = Some ca'" "closed ca' \<noteq> 1" for a ca'
  proof (cases "a = c")
    case True
    then show ?thesis using b a by simp
  next
    case False
    then obtain ca where ca: "clients w a = Some ca" "in_kept ca ca'" "inq w' (client_fd ca) = inq w (client_fd ca)"
      using t a(1,2) out_fields_in_kept unfolding tended_def by force
    then have "budget w ca \<le> INPUT_MAX" using inv a(1,3) by (auto simp: server_inv_def in_kept_def)
    moreover have "budget w' ca' \<le> budget w ca" using ca by (auto simp: budget_def in_kept_def)
    ultimately show ?thesis by simp
  qed
  then show "server_inv w'" using g ok(2) by (auto simp: server_inv_def)
  show "\<forall>e. event_due w e \<longrightarrow> event_due w' e" using g by (simp add: event_due_def)
qed

lemma delivered_tended:
  assumes "server_ok w" "c \<in> set (roster w)" "delivered c bs w w'"
  shows "tended c w w'"
proof -
  obtain ci ci' where ci: "clients w c = Some ci" "clients w' c = Some ci'" "out_fields ci ci'"
    using assms(3) by (auto simp: delivered_def)
  have "in_order c w w'"
    by (rule in_order_evolves [OF assms(1,2) delivered_evolves [OF server_ok_client [OF assms(1,2)] assms(3)]
          delivered_globals(4) [OF assms(3)] ci(1,2) out_fields_in_kept [OF ci(3)]])
  then show ?thesis by (rule tended_in_order)
qed

lemma delivered_inv:
  assumes "server_inv w" "c \<in> set (roster w)" "delivered c bs w w'"
  shows "server_inv w'" "\<forall>e. event_due w e \<longrightarrow> event_due w' e"
proof -
  have ok: "server_ok w" using assms(1) by (simp add: server_inv_def)
  obtain ci ci' where ci: "clients w c = Some ci" "clients w' c = Some ci'" "out_fields ci ci'"
    using assms(3) by (auto simp: delivered_def)
  have b: "budget w' ci' = budget w ci"
    using out_fields_sel [OF ci(3)] delivered_globals(4) [OF assms(3)] by (simp add: budget_def)
  have "closed ci' \<noteq> 1 \<Longrightarrow> closed ci \<noteq> 1" using ci(3) by (auto simp: out_fields_def)
  then have *: "budget w' cx \<le> INPUT_MAX" if "clients w' c = Some cx" "closed cx \<noteq> 1" for cx
    using that ci(1,2) b assms(1,2) by (auto simp: server_inv_def)
  show "server_inv w'" "\<forall>e. event_due w e \<longrightarrow> event_due w' e"
    using tended_inv [OF assms(1) delivered_tended [OF ok assms(2,3)] assms(2) *] by blast+
qed

lemma client_in_order:
  assumes "server_ok w" "c \<in> set (roster w)"
  obtains ci where "clients w c = Some ci" "heap_fresh w" "opened w (client_fd ci)"
    "queue_rep (packets w) (msg_queue ci) (queue_cells w ci)"
  using client_okE [OF server_ok_client [OF assms]] server_ok_parts(1) [OF assms(1)] by metis

lemma close_client_delivers:
  assumes "server_ok w" "c \<in> set (roster w)"
  shows "ok (close_client c w) (\<lambda>w'. delivered c [] w w' \<and> is_closed w' c)"
proof -
  obtain ci where ci: "clients w c = Some ci" "heap_fresh w" "queue_rep (packets w) (msg_queue ci) (queue_cells w ci)"
    using client_in_order [OF assms] .
  show ?thesis using delivered_closed [OF ci] ci(1) by (simp add: close_client_def is_closed_def)
qed

text \<open>The two branches of an event of a client.\<close>

lemma dispatch_read_keeps:
  assumes inv: "server_inv w" and c: "c \<in> set (roster w)" "clients w c = Some ci" "closed ci \<noteq> 1"
  shows "ok (dispatch_read m c w) (\<lambda>(_, w'). server_inv w' \<and> roster w' = roster w \<and>
     (\<forall>e. event_due w e \<longrightarrow> event_due w' e))"
proof (cases "m AND EPOLLIN = 0")
  case True
  then show ?thesis using inv by (simp add: dispatch_read_def)
next
  case False
  have ok: "server_ok w" "\<not> client_mutex w" and b: "budget w ci \<le> INPUT_MAX"
    using inv c by (auto simp: server_inv_def)
  obtain r w1 where h: "handle_client_read c w = Some (r, w1)" and t: "tended c w w1"
    and r: "r = -1 \<or> r = 0 \<and> (\<exists>ci'. clients w1 c = Some ci' \<and> budget w1 ci' \<le> INPUT_MAX)"
    using handle_client_read_spec [OF ok c(1,2) b] by (auto elim!: okE)
  note g = tended_globals [OF t]
  show ?thesis
  proof (cases "r = -1")
    case False
    then have b1: "budget w1 cx \<le> INPUT_MAX" if "clients w1 c = Some cx" for cx using r that by auto
    have "server_inv w1" "\<forall>e. event_due w e \<longrightarrow> event_due w1 e"
      by (rule tended_inv [OF inv t c(1)], rule b1, assumption)+
    then show ?thesis using h r g False \<open>m AND EPOLLIN \<noteq> 0\<close> by (simp add: dispatch_read_def)
  next
    case True
    have "server_ok w1" "c \<in> set (roster w1)" using g c(1) by simp_all
    then obtain w2 where w2: "close_client c w1 = Some w2" "delivered c [] w1 w2" "is_closed w2 c"
      using close_client_delivers [of w1 c] by (auto elim!: okE)
    have t2: "tended c w w2"
      using tended_trans [OF t delivered_tended] w2(2) \<open>server_ok w1\<close> \<open>c \<in> set (roster w1)\<close> by blast
    have b2: "closed cx = 1" if "clients w2 c = Some cx" for cx using w2(3) that by (simp add: is_closed_def)
    have "server_inv w2" "\<forall>e. event_due w e \<longrightarrow> event_due w2 e"
      by (rule tended_inv [OF inv t2 c(1)], use b2 in blast)+
    then show ?thesis
      using h w2(1) tended_globals [OF t2] True \<open>m AND EPOLLIN \<noteq> 0\<close> by (simp add: dispatch_read_def)
  qed
qed

lemma dispatch_write_delivers:
  assumes ok: "server_ok w" and c: "c \<in> set (roster w)"
  shows "ok (dispatch_write m c w) (\<lambda>w'. delivered c [] w w')"
proof -
  obtain ci where ci: "clients w c = Some ci" "heap_fresh w" "opened w (client_fd ci)"
    "queue_rep (packets w) (msg_queue ci) (queue_cells w ci)"
    using client_in_order [OF ok c] .
  obtain r w1 where t: "client_try_write c w = Some (r, w1)" "delivered c [] w w1"
    using try_write_delivers [OF ci(1,2,4,3)] by (auto elim!: okE)
  note g = tended_globals [OF delivered_tended [OF ok c t(2)]]
  have "ok (if r = -1 then close_client c w1 else Some w1) (\<lambda>w'. delivered c [] w w')"
    using close_client_delivers [of w1 c] g c delivered_trans [OF t(2)] t(2) by (auto elim!: ok_weaken)
  then show ?thesis
    using t(1) delivered_refl [OF ci(1,2,4)] by (simp add: dispatch_write_def)
qed

lemma dispatch_write_keeps:
  assumes inv: "server_inv w" and c: "c \<in> set (roster w)"
  shows "ok (dispatch_write m c w) (\<lambda>w'. server_inv w' \<and> roster w' = roster w \<and>
     (\<forall>e. event_due w e \<longrightarrow> event_due w' e))"
proof -
  have ok: "server_ok w" using inv by (simp add: server_inv_def)
  show ?thesis
    by (rule ok_weaken [OF dispatch_write_delivers [OF ok c]])
       (use delivered_inv [OF inv c] tended_globals [OF delivered_tended [OF ok c]] in auto)
qed

lemma accept_inv:
  assumes inv: "server_inv w"
  shows "ok (accept_new_clients w) (\<lambda>(_, w'). server_inv w' \<and> (\<forall>e. event_due w e \<longrightarrow> event_due w' e))"
proof -
  have ok: "server_ok w" "\<not> client_mutex w" using inv by (simp_all add: server_inv_def)
  show ?thesis
  proof (rule ok_weaken [OF accept_new_clients_spec [OF ok]], goal_cases)
    case (1 x)
    obtain r w' where x: "x = (r, w')" by fastforce
    obtain new where g: "grown new w w'" using 1 by (auto simp: x)
    have "budget w' ca \<le> INPUT_MAX" if a: "a \<in> set (roster w')" "clients w' a = Some ca" "closed ca \<noteq> 1" for a ca
    proof (cases "a \<in> set (roster w)")
      case True
      then obtain cb where "clients w a = Some cb" using roster_alive [OF ok(1)] by blast
      note same = grown_client [OF g ok(1) True this] this
      then show ?thesis using inv True a(2,3) by (simp add: server_inv_def budget_def)
    next
      case False
      then have "newcomer w' a" using a(1) g by (auto simp: grown_def)
      then show ?thesis using a(2) by (auto simp: newcomer_def)
    qed
    then have "server_inv w'" using g ok(2) by (auto simp: server_inv_def grown_def)
    moreover have "\<forall>e. event_due w e \<longrightarrow> event_due w' e" using g by (auto simp: event_due_def grown_def)
    ultimately show ?case by (simp add: x)
  qed
qed

lemma dispatch_event_keeps:
  assumes inv: "server_inv w" and due: "event_due w ev"
  shows "ok (dispatch_event ev w) (\<lambda>w'. server_inv w' \<and> (\<forall>e. event_due w e \<longrightarrow> event_due w' e))"
proof -
  obtain m e where ev: "ev = (m, e)" by fastforce
  have ok: "server_ok w" using inv by (simp add: server_inv_def)
  show ?thesis
  proof (cases "e = DataFd (server_fd w)")
    case True
    then have "dispatch_event ev w = map_option snd (accept_new_clients w)"
      by (cases "accept_new_clients w") (simp_all add: dispatch_event_def ev data_fd_def split: prod.splits)
    then show ?thesis using accept_inv [OF inv] by (auto simp: ok_map_snd split: prod.splits elim!: ok_weaken)
  next
    case False
    then obtain c where c: "c \<in> set (roster w)" "e = DataPtr c" using due by (auto simp: event_due_def ev)
    obtain ci where ci: "clients w c = Some ci" using roster_alive [OF ok c(1)] by blast
    have "16 dvd c" using server_ok_client [OF ok c(1)] by (simp add: client_ok_def)
    then have nfd: "data_fd e \<noteq> server_fd w"
      using data_fd_aligned [of c] ok c(2) unfolding server_ok_def by metis
    have ptr: "data_ptr e = c" using c(2) by (simp add: data_ptr_def)
    show ?thesis
    proof (cases "closed ci = 1 \<or> m AND (EPOLLHUP OR EPOLLRDHUP OR EPOLLERR) \<noteq> 0")
      case True
      have "ok (close_client c w) (\<lambda>w'. server_inv w' \<and> (\<forall>e. event_due w e \<longrightarrow> event_due w' e))"
        by (rule ok_weaken [OF close_client_delivers [OF ok c(1)]]) (use delivered_inv [OF inv c(1)] in blast)
      then show ?thesis using True inv nfd ptr ci by (auto simp: dispatch_event_def ev)
    next
      case False
      then have op: "closed ci \<noteq> 1" by simp
      obtain g w1 where r: "dispatch_read m c w = Some (g, w1)" "server_inv w1" "roster w1 = roster w"
        "\<forall>e. event_due w e \<longrightarrow> event_due w1 e"
        using dispatch_read_keeps [OF inv c(1) ci op, of m] by (auto elim!: okE)
      have "ok (dispatch_write m c w1) (\<lambda>w'. server_inv w' \<and> (\<forall>e. event_due w e \<longrightarrow> event_due w' e))"
        by (rule ok_weaken [OF dispatch_write_keeps [of w1 c m]]) (use r c(1) in auto)
      then show ?thesis using False nfd ptr ci r by (simp add: dispatch_event_def ev)
    qed
  qed
qed

lemma swept_inv:
  assumes "server_inv w" "swept w w'"
  shows "server_inv w'"
proof -
  have "budget w' ci \<le> INPUT_MAX" if "a \<in> set (roster w')" "clients w' a = Some ci" "closed ci \<noteq> 1" for a ci
  proof -
    have "a \<in> set (roster w)" "clients w a = Some ci" "inq w' = inq w"
      using assms(2) that by (auto simp: swept_def)
    then show ?thesis using assms(1) that(3) by (simp add: server_inv_def budget_def)
  qed
  then show ?thesis using assms(2) by (simp add: server_inv_def swept_def)
qed

lemma epoll_wait_due:
  assumes "server_ok w" "epoll_wait n a w = Some evs" "ev \<in> set evs"
  shows "event_due w ev"
proof -
  obtain ds where ds: "evs = take n (List.map_filter (report w) ds)"
    using assms(2) by (cases a) (auto simp: epoll_wait_def)
  then have "ev \<in> set (List.map_filter (report w) ds)" using assms(3) in_set_takeD by fastforce
  then obtain d m where "report w (d, m) = Some ev" by (auto simp: map_filter_def)
  then obtain i where "interest w d = Some (i, snd ev)"
    by (auto simp: report_def Let_def split: option.splits if_splits)
  then show ?thesis using assms(1) unfolding server_ok_def interest_ok_def event_due_def by metis
qed

interpretation chat_loop: event_loop server_inv event_due "reap_from 0" "epoll_wait MAX_EVENTS" dispatch_event
proof unfold_locales
  show "ok (reap_from 0 w) server_inv" if "server_inv w" for w
    using reap_from_spec [of w 0] that swept_inv [OF that] by (auto simp: server_inv_def elim!: ok_weaken)
  show "event_due w e" if "server_inv w" "epoll_wait MAX_EVENTS a w = Some es" "e \<in> set es" for w a es e
    using epoll_wait_due [OF _ that(2,3)] that(1) by (simp add: server_inv_def)
  show "ok (dispatch_event e w) (\<lambda>w'. server_inv w' \<and> (\<forall>e'. event_due w e' \<longrightarrow> event_due w' e'))"
    if "server_inv w" "event_due w e" for w e
    using dispatch_event_keeps [OF that] .
qed

section \<open>The shutdown sequence\<close>

text \<open>
  \<open>drained f cs w w'\<close>: the queues of the clients \<open>cs\<close>, made of the cells \<open>f\<close>, were freed, and nothing
  else changed.
\<close>

definition drained :: "(ptr \<Rightarrow> ptr list) \<Rightarrow> ptr list \<Rightarrow> server \<Rightarrow> server \<Rightarrow> bool" where
  "drained f cs w w' \<longleftrightarrow>
     w' = w\<lparr>clients := clients w', packets := drop_cells (concat (map f cs)) (packets w),
            live_bufs := live_bufs w - int (length (concat (map f cs)))\<rparr> \<and>
     (\<forall>a. a \<notin> set cs \<longrightarrow> clients w' a = clients w a) \<and>
     (\<forall>c \<in> set cs. \<exists>ci q. clients w c = Some ci \<and> clients w' c = Some (ci\<lparr>msg_queue := q\<rparr>))"

lemma drop_cells_drop_cells: "drop_cells ps (drop_cells qs h) = drop_cells (qs @ ps) h"
  by (auto simp: drop_cells_def)

definition queued :: "(ptr \<Rightarrow> ptr list) \<Rightarrow> server \<Rightarrow> ptr \<Rightarrow> bool" where
  "queued f w c \<longleftrightarrow> (\<exists>ci. clients w c = Some ci \<and> linked (packets w) (head (msg_queue ci)) (f c) \<and> distinct (f c))"

lemma discard_from_spec:
  assumes "client_count w \<le> MAX_CLIENTS" "distinct (roster w)"
    and "\<forall>c \<in> set (drop i (roster w)). queued f w c"
    and "\<forall>c \<in> set (drop i (roster w)). \<forall>c' \<in> set (drop i (roster w)). c \<noteq> c' \<longrightarrow> set (f c) \<inter> set (f c') = {}"
  shows "ok (discard_from i w) (\<lambda>w'. drained f (drop i (roster w)) w w')"
  using assms
proof (induction "client_count w - i" arbitrary: i w)
  case 0
  then have "drop i (roster w) = []" "discard_from i w = Some w"
    by (simp_all add: roster_def discard_from.simps)
  then show ?case by (simp add: drained_def)
next
  case (Suc n)
  let ?c = "client_list w i"
  have i: "i < client_count w" using Suc.hyps(2) by simp
  have dr: "drop i (roster w) = ?c # drop (Suc i) (roster w)"
    unfolding roster_def drop_map drop_upt add_0 upt_conv_Cons [OF i] by simp
  have nin: "?c \<notin> set (drop (Suc i) (roster w))"
    using Suc.prems(2) by (metis dr distinct.simps(2) distinct_drop)
  obtain ci where ci: "clients w ?c = Some ci" "linked (packets w) (head (msg_queue ci)) (f ?c)" "distinct (f ?c)"
    using Suc.prems(3) unfolding dr queued_def by auto
  define w1 where "w1 = w\<lparr>clients := (clients w)(?c \<mapsto> ci\<lparr>msg_queue := (msg_queue ci)\<lparr>head := NULL\<rparr>\<rparr>),
     packets := drop_cells (f ?c) (packets w), live_bufs := live_bufs w - int (length (f ?c))\<rparr>"
  have dq: "discard_queue ?c w = Some w1" unfolding w1_def by (rule discard_queue_eq [OF ci])
  have run: "discard_from i w = discard_from (Suc i) w1"
    using i Suc.prems(1) dq by (subst discard_from.simps) (simp add: list_at_def)
  have ro: "roster w1 = roster w" by (simp add: w1_def roster_def)
  have q: "queued f w1 c" if c: "c \<in> set (drop (Suc i) (roster w))" for c
  proof -
    obtain cc where cc: "clients w c = Some cc" "linked (packets w) (head (msg_queue cc)) (f c)" "distinct (f c)"
      using Suc.prems(3) c unfolding dr queued_def by auto
    have "set (f ?c) \<inter> set (f c) = {}" using Suc.prems(4) c nin unfolding dr by auto
    then have "linked (packets w1) (head (msg_queue cc)) (f c)"
      using cc(2) by (subst linked_frame [of _ _ "packets w"]) (auto simp: w1_def drop_cells_def)
    moreover have "c \<noteq> ?c" using c nin by blast
    ultimately show ?thesis using cc by (auto simp: queued_def w1_def)
  qed
  have "ok (discard_from (Suc i) w1) (\<lambda>w'. drained f (drop (Suc i) (roster w1)) w1 w')"
    using Suc.hyps(2) Suc.prems q unfolding dr by (intro Suc.hyps(1)) (simp_all add: w1_def ro [unfolded w1_def])
  then show ?case
    unfolding run ro
  proof (rule ok_weaken)
    fix w'
    assume d: "drained f (drop (Suc i) (roster w)) w1 w'"
    have "w' = w\<lparr>clients := clients w', packets := drop_cells (concat (map f (drop i (roster w)))) (packets w),
            live_bufs := live_bufs w - int (length (concat (map f (drop i (roster w)))))\<rparr>"
    proof -
      have "w' = w1\<lparr>clients := clients w', packets := drop_cells (concat (map f (drop (Suc i) (roster w)))) (packets w1),
            live_bufs := live_bufs w1 - int (length (concat (map f (drop (Suc i) (roster w)))))\<rparr>"
        using d by (simp add: drained_def)
      then show ?thesis
        by (rule trans) (simp add: w1_def dr drop_cells_drop_cells del: length_concat)
    qed
    moreover have "\<forall>a. a \<notin> set (drop i (roster w)) \<longrightarrow> clients w' a = clients w a"
      using d unfolding dr drained_def by (simp add: w1_def)
    moreover have "\<exists>cc q. clients w c = Some cc \<and> clients w' c = Some (cc\<lparr>msg_queue := q\<rparr>)"
      if "c \<in> set (drop i (roster w))" for c
    proof (cases "c = ?c")
      case True
      then have "clients w' c = clients w1 c" using d nin by (simp add: drained_def)
      then show ?thesis using True ci(1) by (auto simp: w1_def)
    next
      case False
      then have "clients w1 c = clients w c" by (simp add: w1_def)
      moreover have "c \<in> set (drop (Suc i) (roster w))" using that False unfolding dr by simp
      ultimately show ?thesis using d unfolding drained_def by metis
    qed
    ultimately show "drained f (drop i (roster w)) w w'" unfolding drained_def by blast
  qed
qed

text \<open>
  \<open>removed cs w w'\<close>: the structures of the clients \<open>cs\<close> were freed with their buffers.
\<close>

definition removable :: "server \<Rightarrow> ptr \<Rightarrow> bool" where
  "removable w c \<longleftrightarrow> c \<noteq> NULL \<and> (\<exists>ci. clients w c = Some ci \<and> opened w (client_fd ci) \<and> 0 \<le> client_fd ci \<and>
     partial_msg ci \<noteq> None)"

definition removed :: "ptr list \<Rightarrow> server \<Rightarrow> server \<Rightarrow> bool" where
  "removed cs w w' \<longleftrightarrow> (\<forall>c \<in> set cs. clients w' c = None \<and> \<not> opened w' (fd_of w c)) \<and>
     (\<forall>c. clients w c = None \<longrightarrow> clients w' c = None) \<and> packets w' = packets w \<and> live_bufs w' = live_bufs w - int (length cs) \<and> \<not> client_mutex w' \<and>
     sent w' = sent w \<and> (\<forall>d. opened w' d \<longrightarrow> opened w d)"

lemma remove_clients_below_spec:
  assumes "n \<le> client_count w" "client_count w \<le> MAX_CLIENTS" "distinct (roster w)"
    and "\<forall>c \<in> set (take n (roster w)). removable w c" "distinct (map (fd_of w) (take n (roster w)))"
  shows "ok (remove_clients_below n w) (\<lambda>(r, w'). (\<forall>b \<in> set (closes w). b) \<longrightarrow>
     r = 0 \<and> removed (take n (roster w)) w w')"
  using assms
proof (induction n arbitrary: w)
  case 0
  then show ?case by (simp add: mutex_unlock_def removed_def)
next
  case (Suc n)
  let ?c = "client_list w n"
  have n: "n < client_count w" "n < length (roster w)" "roster w ! n = ?c"
    using Suc.prems(1) by (simp_all add: roster_def)
  have tk: "take (Suc n) (roster w) = take n (roster w) @ [?c]"
    using n(2,3) by (simp add: take_Suc_conv_app_nth)
  obtain ci where ci: "?c \<noteq> NULL" "clients w ?c = Some ci" "opened w (client_fd ci)" "0 \<le> client_fd ci"
    "partial_msg ci \<noteq> None"
    using Suc.prems(4) unfolding tk removable_def by auto
  have nin: "?c \<notin> set (take n (roster w))" using distinct_take [OF Suc.prems(3), of "Suc n"] unfolding tk by simp
  obtain r w1 where e: "epoll_ctl EPOLL_CTL_DEL (client_fd ci) no_event w = (r, w1)" by fastforce
  have "w1 = w\<lparr>epctls := epctls w1, interest := interest w1\<rparr>"
    using e by (auto simp: epoll_ctl_def Let_def split: if_splits prod.splits)
  then obtain es it where w1: "w1 = w\<lparr>epctls := es, interest := it\<rparr>" by blast
  obtain b cs where b: "pop_default True (closes w) = (b, cs)" by fastforce
  have bs: "set cs \<subseteq> set (closes w)" "(\<forall>b \<in> set (closes w). b) \<longrightarrow> b"
    using set_snd_pop_default [of True "closes w"] fst_pop_default [of True "closes w"] b by auto
  define w2 where "w2 = w1\<lparr>closes := cs, opened := (opened w)(client_fd ci := False),
     interest := (interest w1)(client_fd ci := None)\<rparr>"
  define w3 where "w3 = w2\<lparr>live_bufs := live_bufs w - 1, clients := (clients w)(?c := None)\<rparr>"
  have cl: "cleanup_client ?c w1 = (if b then Some (0, w3) else Some (-1, w2))"
    using cleanup_client_eq [of w1 ?c ci b cs] ci b by (simp add: w1 w2_def w3_def free_buf_def)
  have run: "remove_clients_below (Suc n) w = (if b then remove_clients_below n w3 else Some (-1, w2))"
    using n(1) Suc.prems(2) ci(2) e cl by (simp add: list_at_def)
  show ?case
  proof (cases b)
    case False
    then show ?thesis using run bs(2) by simp
  next
    case True
    have same: "roster w3 = roster w" "closes w3 = cs" "clients w3 = (clients w)(?c := None)"
      "opened w3 = (opened w)(client_fd ci := False)" "client_count w3 = client_count w" "packets w3 = packets w"
      "live_bufs w3 = live_bufs w - 1" "sent w3 = sent w"
      by (simp_all add: w3_def w2_def w1 roster_def)
    have fdc: "fd_of w ?c = client_fd ci" using ci(2) by (simp add: fd_of_def)
    have fd: "fd_of w3 c = fd_of w c" if "c \<in> set (take n (roster w))" for c
      using that nin by (auto simp: fd_of_def same(3))
    have "removable w3 c" if c: "c \<in> set (take n (roster w))" for c
    proof -
      have "removable w c" using Suc.prems(4) c unfolding tk by simp
      moreover have "client_fd ci \<notin> fd_of w ` set (take n (roster w))" using Suc.prems(5) fdc unfolding tk by simp
      then have "fd_of w c \<noteq> client_fd ci" using imageI [OF c, of "fd_of w"] by metis
      moreover have "c \<noteq> ?c" using c nin by blast
      ultimately show ?thesis by (auto simp: removable_def same fd_of_def)
    qed
    moreover have "distinct (map (fd_of w3) (take n (roster w)))"
      using Suc.prems(5) fd unfolding tk by (simp cong: map_cong)
    ultimately have IH: "ok (remove_clients_below n w3) (\<lambda>(r, w'). (\<forall>b \<in> set (closes w3). b) \<longrightarrow>
       r = 0 \<and> removed (take n (roster w3)) w3 w')"
      using Suc.prems(1-3) by (intro Suc.IH) (simp_all add: same(1,5))
    have "remove_clients_below (Suc n) w = remove_clients_below n w3" using run True by simp
    then show ?thesis
    proof (simp only:, intro ok_weaken [OF IH], goal_cases)
      case (1 x)
      obtain r w' where x: "x = (r, w')" by fastforce
      show ?case
      proof (unfold x prod.case, intro impI conjI)
        assume "\<forall>b \<in> set (closes w). b"
        then have R: "r = 0" "removed (take n (roster w)) w3 w'"
          using 1 bs(1) by (auto simp: x same)
        show "r = 0" by (rule R)
        have "\<forall>d. opened w' d \<longrightarrow> opened w d"
          using R(2) unfolding removed_def same(4) by (metis fun_upd_apply)
        then show "removed (take (Suc n) (roster w)) w w'"
          using R(2) fd fdc unfolding tk removed_def by (auto simp: same)
      qed
    qed
  qed
qed

text \<open>
  \<open>stopped w w'\<close>: what the shutdown sequence makes of a server. The announcement went out to every open
  client as far as its socket accepts it; nothing registered is left in memory and nothing is open.
\<close>

definition shutdown_text :: "byte list" where
  "shutdown_text = bytes_of ''SERVER SHUTDOWN''"

definition announced :: "server \<Rightarrow> server \<Rightarrow> bool" where
  "announced w w' \<longleftrightarrow> broadcasted NULL (normal_frame shutdown_text) 15 (set (roster w)) w w'"

definition stopped :: "server \<Rightarrow> server \<Rightarrow> bool" where
  "stopped w w' \<longleftrightarrow> (\<exists>w1. broadcast NULL shutdown_message 15 w = Some (0, w1) \<and> announced w w1 \<and> sent w' = sent w1 \<and> \<not> client_mutex w' \<and> \<not> opened w' (server_fd w) \<and>
     (\<forall>c \<in> set (roster w). clients w' c = None \<and> \<not> opened w' (fd_of w c) \<and>
        (\<forall>p \<in> cells_of w1 c. packets w' p = None)) \<and>
     live_bufs w' = live_bufs w1 - int (length (concat (map (\<lambda>c. queue_cells w1 (the (clients w1 c))) (roster w))))
       - int (client_count w))"

lemma strlen_shutdown: "strlen_c shutdown_message = Some 15" "take 15 shutdown_message = shutdown_text"
  "length shutdown_message = 16"
  by (simp_all add: shutdown_message_def shutdown_text_def bytes_of_def strlen_c_eq cstr_def)

lemma server_ok_queued:
  assumes "server_ok w"
  shows "\<forall>c \<in> set (roster w). queued (\<lambda>c. queue_cells w (the (clients w c))) w c"
    "\<forall>c \<in> set (roster w). \<forall>c' \<in> set (roster w). c \<noteq> c' \<longrightarrow>
       set (queue_cells w (the (clients w c))) \<inter> set (queue_cells w (the (clients w c'))) = {}"
    "\<forall>c \<in> set (roster w). removable w c \<and> fd_of w c \<noteq> server_fd w" "distinct (map (fd_of w) (roster w))"
proof -
  show "\<forall>c \<in> set (roster w). queued (\<lambda>c. queue_cells w (the (clients w c))) w c"
    using assms by (auto simp: server_ok_def client_ok_def queued_def queue_rep_def split: option.splits)
  show "\<forall>c \<in> set (roster w). \<forall>c' \<in> set (roster w). c \<noteq> c' \<longrightarrow>
       set (queue_cells w (the (clients w c))) \<inter> set (queue_cells w (the (clients w c'))) = {}"
  proof (intro ballI impI)
    fix a c
    assume a: "a \<in> set (roster w)" "c \<in> set (roster w)" "a \<noteq> c"
    obtain ca cc where "clients w a = Some ca" "clients w c = Some cc" using roster_alive [OF assms] a by blast
    then show "set (queue_cells w (the (clients w a))) \<inter> set (queue_cells w (the (clients w c))) = {}"
      using server_ok_disjoint(2) [OF assms a] by simp
  qed
  show "\<forall>c \<in> set (roster w). removable w c \<and> fd_of w c \<noteq> server_fd w"
  proof
    fix c
    assume "c \<in> set (roster w)"
    then have "client_ok w c" by (rule server_ok_client [OF assms])
    then show "removable w c \<and> fd_of w c \<noteq> server_fd w"
      by (cases "clients w c") (auto simp: client_ok_def removable_def client_wf_def fd_of_def)
  qed
  have "inj_on (fd_of w) (set (roster w))"
    using assms by (auto simp: server_ok_def apart_def inj_on_def)
  then show "distinct (map (fd_of w) (roster w))"
    using assms by (simp add: distinct_map server_ok_def)
qed

lemma stop_server_spec:
  assumes ok: "server_ok w" "\<not> client_mutex w"
  shows "ok (stop_server w) (\<lambda>(r, w'). r = 0 \<and> ((\<forall>b \<in> set (closes w). b) \<longrightarrow> stopped w w'))"
proof -
  obtain w1 where b: "broadcast NULL shutdown_message 15 w = Some (0, w1)" and an: "announced w w1"
  proof -
    have "ok (broadcast NULL shutdown_message 15 w) (\<lambda>(r, w'). r = 0 \<and> announced w w')"
      using broadcast_spec [OF ok, of 15 shutdown_message NULL] strlen_shutdown by (simp add: announced_def)
    then show ?thesis using that by (auto simp: ok_conv)
  qed
  have w1: "server_ok w1" "\<not> client_mutex w1" "roster w1 = roster w" "closes w1 = closes w"
    "server_fd w1 = server_fd w" "client_count w1 = client_count w"
    using an ok(2) by (auto simp: announced_def broadcasted_def roster_def)
  have fds: "fd_of w1 c = fd_of w c" if "c \<in> set (roster w)" for c
  proof -
    have "\<exists>ci ci'. clients w c = Some ci \<and> clients w1 c = Some ci' \<and> out_fields ci ci'"
      using an that by (simp add: announced_def broadcasted_def)
    then obtain ci ci' where "clients w c = Some ci" "clients w1 c = Some ci'" "out_fields ci ci'" by blast
    then show ?thesis using out_fields_sel by (simp add: fd_of_def)
  qed
  let ?f = "\<lambda>c. queue_cells w1 (the (clients w1 c))"
  obtain r2 w2 where e: "epoll_ctl EPOLL_CTL_DEL (server_fd w1) no_event w1 = (r2, w2)" by fastforce
  have "w2 = w1\<lparr>epctls := epctls w2, interest := interest w2\<rparr>"
    using e by (auto simp: epoll_ctl_def Let_def split: if_splits prod.splits)
  then obtain es it where w2: "w2 = w1\<lparr>epctls := es, interest := it\<rparr>" by blast
  obtain b3 cs where b3: "pop_default True (closes w1) = (b3, cs)" by fastforce
  have cs: "set cs \<subseteq> set (closes w1)" using set_snd_pop_default [of True "closes w1"] b3 by auto
  have op: "opened w1 (server_fd w1)" using w1(1) by (simp add: server_ok_def)
  define w3 where "w3 = w2\<lparr>closes := cs, opened := (opened w1)(server_fd w1 := False),
     interest := (interest w2)(server_fd w1 := None)\<rparr>"
  have cl: "sys_close (server_fd w2) w2 = (if b3 then 0 else -1, w3)"
    using op b3 by (simp add: sys_close_def w2 w3_def)
  have w3: "roster w3 = roster w" "clients w3 = clients w1" "packets w3 = packets w1" "client_count w3 = client_count w1"
    "closes w3 = cs" "client_mutex w3 = False" "opened w3 = (opened w1)(server_fd w1 := False)"
    "live_bufs w3 = live_bufs w1" "sent w3 = sent w1"
    using w1 by (simp_all add: w3_def w2 roster_def)
  note q = server_ok_queued [OF w1(1)]
  have "ok (discard_from 0 w3) (\<lambda>w'. drained ?f (drop 0 (roster w3)) w3 w')"
  proof (rule discard_from_spec)
    show "client_count w3 \<le> MAX_CLIENTS" "distinct (roster w3)"
      using server_ok_parts(4,5) [OF w1(1)] w1(3) w3(1,4) by simp_all
    show "\<forall>c \<in> set (drop 0 (roster w3)). queued ?f w3 c"
      using q(1) w1(3) w3(1-3) by (simp add: queued_def)
    show "\<forall>c \<in> set (drop 0 (roster w3)). \<forall>c' \<in> set (drop 0 (roster w3)). c \<noteq> c' \<longrightarrow> set (?f c) \<inter> set (?f c') = {}"
      using q(2) w1(3) w3(1) by simp
  qed
  then obtain w4 where d: "discard_from 0 w3 = Some w4" and dr: "drained ?f (roster w) w3 w4"
    using w3(1) by (auto elim!: okE)
  have "w4 = w3\<lparr>clients := clients w4, packets := drop_cells (concat (map ?f (roster w))) (packets w3),
            live_bufs := live_bufs w3 - int (length (concat (map ?f (roster w))))\<rparr>"
    using dr by (simp add: drained_def)
  then obtain k where w4: "w4 = w3\<lparr>clients := k, packets := drop_cells (concat (map ?f (roster w))) (packets w3),
            live_bufs := live_bufs w3 - int (length (concat (map ?f (roster w))))\<rparr>" by blast
  have kc: "\<exists>ci q. clients w1 c = Some ci \<and> k c = Some (ci\<lparr>msg_queue := q\<rparr>)" if "c \<in> set (roster w)" for c
    using dr that unfolding drained_def w3(2) by (simp add: w4)
  define w4m where "w4m = w4\<lparr>client_mutex := True\<rparr>"
  have s4: "roster w4m = roster w" "client_count w4m = client_count w" "closes w4m = cs" "clients w4m = k"
    "opened w4m = (opened w1)(server_fd w1 := False)" "sent w4m = sent w1"
    "packets w4m = drop_cells (concat (map ?f (roster w))) (packets w1)"
    "live_bufs w4m = live_bufs w1 - int (length (concat (map ?f (roster w))))"
    using w3 w1 by (simp_all add: w4m_def w4 roster_def)
  have fd4: "fd_of w4m c = fd_of w1 c" if "c \<in> set (roster w)" for c
    using kc [OF that] by (auto simp: fd_of_def s4(4))
  have rm4: "removable w4m c" if c: "c \<in> set (roster w)" for c
  proof -
    obtain ci qu where "clients w1 c = Some ci" "k c = Some (ci\<lparr>msg_queue := qu\<rparr>)" using kc [OF c] by blast
    moreover have "removable w1 c" "fd_of w1 c \<noteq> server_fd w1" using q(3) c w1(3) by simp_all
    ultimately show ?thesis by (auto simp: removable_def s4 fd_of_def)
  qed
  have n: "length (roster w) = client_count w" by (simp add: roster_def)
  have "ok (remove_clients_below (client_count w) w4m) (\<lambda>(r, w'). (\<forall>b \<in> set (closes w4m). b) \<longrightarrow>
     r = 0 \<and> removed (take (client_count w) (roster w4m)) w4m w')"
  proof (rule remove_clients_below_spec)
    show "client_count w \<le> client_count w4m" by (simp add: s4)
    show "client_count w4m \<le> MAX_CLIENTS" "distinct (roster w4m)" using server_ok_parts [OF ok(1)] s4 by simp_all
    show "\<forall>c \<in> set (take (client_count w) (roster w4m)). removable w4m c" using rm4 n by (simp add: s4)
    show "distinct (map (fd_of w4m) (take (client_count w) (roster w4m)))"
      using q(4) w1(3) fd4 n by (simp add: s4 cong: map_cong)
  qed
  then obtain r5 w5 where rm: "remove_clients_below (client_count w) w4m = Some (r5, w5)"
    and R: "(\<forall>b \<in> set cs. b) \<longrightarrow> removed (roster w) w4m w5"
    using n s4 by (auto simp: ok_conv)
  have w4f: "client_mutex w4 = False" "client_count w4 = client_count w" using w3 w1 by (simp_all add: w4)
  have all: "remove_all_clients w4 = Some (r5, w5)"
    using rm w4f by (simp add: remove_all_clients_def mutex_lock_def w4m_def)
  have run: "stop_server w = Some (0, w5)"
    using strlen_shutdown(1) b e cl d all by (simp add: stop_server_def)
  have "stopped w w5" if "\<forall>b \<in> set (closes w). b"
  proof -
    have rem: "removed (roster w) w4m w5" using R that cs w1(4) by auto
    have gone: "clients w5 c = None \<and> \<not> opened w5 (fd_of w c) \<and> (\<forall>p \<in> cells_of w1 c. packets w5 p = None)"
      if c: "c \<in> set (roster w)" for c
    proof -
      obtain ci where "clients w1 c = Some ci" using kc [OF c] by blast
      then have "\<forall>p \<in> cells_of w1 c. packets w5 p = None"
        using rem c by (auto simp: removed_def s4(7) drop_cells_def cells_of_def)
      then show ?thesis using rem c fd4 [OF c] fds [OF c] unfolding removed_def by metis
    qed
    have "\<not> opened w5 (server_fd w)" using rem w1(5) by (auto simp: removed_def s4(5))
    then show ?thesis
      unfolding stopped_def using b an gone rem s4 n by (intro exI [of _ w1]) (simp add: removed_def)
  qed
  then show ?thesis unfolding run by simp
qed

section \<open>Properties\<close>

text \<open>
  \<open>serves as w w'\<close>: from \<open>w\<close> the loop went through a whole round for each of the answers \<open>as\<close> and stands at
  its head again, in \<open>w'\<close>: the flag was down, the closed clients were removed, the events were dispatched.
  \<open>loop_ends\<close>: what a run that starts at the head of the loop comes to.
\<close>

inductive serves :: "wait_ans list \<Rightarrow> server \<Rightarrow> server \<Rightarrow> bool" where
  serves_none: "serves [] w w"
| serves_turn: "server_shutdown w \<noteq> 1 \<Longrightarrow> reap_from 0 w = Some w1 \<Longrightarrow>
     epoll_wait MAX_EVENTS a w1 = Some evs \<Longrightarrow> each dispatch_event evs w1 = Some w2 \<Longrightarrow>
     serves as w2 w' \<Longrightarrow> serves (a # as) w w'"

inductive_cases serves_nilE: "serves [] w w'"
inductive_cases serves_consE: "serves (a # as) w w'"

definition loop_ends :: "wait_ans list \<Rightarrow> server \<Rightarrow> int option \<Rightarrow> server \<Rightarrow> bool" where
  "loop_ends as w r w' \<longleftrightarrow> (\<exists>bs cs w1. as = bs @ cs \<and> serves bs w w1 \<and> server_inv w1 \<and>
     (if server_shutdown w1 = 1
      then r = Some 0 \<and> stop_server w1 = Some (0, w') \<and> ((\<forall>b \<in> set (closes w1). b) \<longrightarrow> stopped w1 w')
      else reap_from 0 w1 = Some w' \<and> server_inv w' \<and>
        (r = None \<and> cs = [] \<or> r = Some (-1) \<and> (\<exists>cs'. cs = WaitErr # cs'))))"

lemma loop_ends_turn:
  assumes "server_shutdown w \<noteq> 1" "reap_from 0 w = Some w1" "epoll_wait MAX_EVENTS a w1 = Some evs"
    "each dispatch_event evs w1 = Some w2" "loop_ends as w2 r w'"
  shows "loop_ends (a # as) w r w'"
proof -
  from assms(5) obtain bs cs w3 where b: "as = bs @ cs" "serves bs w2 w3" and rest: "server_inv w3 \<and>
     (if server_shutdown w3 = 1
      then r = Some 0 \<and> stop_server w3 = Some (0, w') \<and> ((\<forall>b \<in> set (closes w3). b) \<longrightarrow> stopped w3 w')
      else reap_from 0 w3 = Some w' \<and> server_inv w' \<and>
        (r = None \<and> cs = [] \<or> r = Some (-1) \<and> (\<exists>cs'. cs = WaitErr # cs')))"
    unfolding loop_ends_def by blast
  have "serves (a # bs) w w3" by (rule serves_turn [OF assms(1-4) b(2)])
  moreover have "a # as = (a # bs) @ cs" using b(1) by simp
  ultimately show ?thesis unfolding loop_ends_def using rest by blast
qed

lemma loop_ends_here:
  assumes "server_inv w"
  shows "server_shutdown w = 1 \<Longrightarrow> stop_server w = Some (0, w') \<Longrightarrow>
      (\<forall>b \<in> set (closes w). b) \<longrightarrow> stopped w w' \<Longrightarrow> loop_ends as w (Some 0) w'"
    "server_shutdown w \<noteq> 1 \<Longrightarrow> reap_from 0 w = Some w' \<Longrightarrow> server_inv w' \<Longrightarrow> loop_ends [] w None w'"
    "server_shutdown w \<noteq> 1 \<Longrightarrow> reap_from 0 w = Some w' \<Longrightarrow> server_inv w' \<Longrightarrow>
      loop_ends (WaitErr # as) w (Some (-1)) w'"
  using assms serves_none unfolding loop_ends_def by (metis append_Nil option.inject)+

lemma server_loop_from_safe:
  "server_inv w \<Longrightarrow> ok (server_loop_from as w) (\<lambda>(r, w'). loop_ends as w r w')"
proof (induction as arbitrary: w)
  case Nil
  show ?case
  proof (cases "server_shutdown w = 1")
    case True
    obtain w' where "stop_server w = Some (0, w')" "(\<forall>b \<in> set (closes w). b) \<longrightarrow> stopped w w'"
      using stop_server_spec [of w] Nil by (auto simp: server_inv_def ok_conv)
    then show ?thesis using True loop_ends_here(1) [OF Nil] by (simp add: returned_def)
  next
    case False
    obtain w' where "reap_from 0 w = Some w'" "server_inv w'"
      using chat_loop.pass_law [OF Nil] by (auto elim!: okE)
    then show ?thesis using False loop_ends_here(2) [OF Nil] by simp
  qed
next
  case (Cons a as)
  show ?case
  proof (cases "server_shutdown w = 1")
    case True
    obtain w' where "stop_server w = Some (0, w')" "(\<forall>b \<in> set (closes w). b) \<longrightarrow> stopped w w'"
      using stop_server_spec [of w] Cons.prems by (auto simp: server_inv_def ok_conv)
    then show ?thesis using True loop_ends_here(1) [OF Cons.prems] by (simp add: returned_def)
  next
    case False
    obtain w1 where w1: "reap_from 0 w = Some w1" "server_inv w1"
      "\<forall>a es. epoll_wait MAX_EVENTS a w1 = Some es \<longrightarrow> ok (each dispatch_event es w1) server_inv"
      using chat_loop.round_keeps [OF Cons.prems] by (auto elim!: okE)
    show ?thesis
    proof (cases "epoll_wait MAX_EVENTS a w1")
      case None
      then have "a = WaitErr" by (cases a) (simp_all add: epoll_wait_def)
      then show ?thesis using None False w1 loop_ends_here(3) [OF Cons.prems] by simp
    next
      case (Some es)
      then obtain w2 where w2: "each dispatch_event es w1 = Some w2" "server_inv w2"
        using w1(3) by (auto elim!: okE)
      have "ok (server_loop_from as w2) (\<lambda>(r, w'). loop_ends (a # as) w r w')"
        by (rule ok_weaken [OF Cons.IH [OF w2(2)]])
           (use loop_ends_turn [OF False w1(1) Some w2(1)] in auto)
      then show ?thesis using False w1(1) Some w2(1) by simp
    qed
  qed
qed

lemma listening_registered:
  fixes w :: server
  assumes "epoll_ctl EPOLL_CTL_ADD d ev w = (r, w')"
  shows "\<exists>es it. w' = w\<lparr>epctls := es, interest := it\<rparr> \<and> it \<in> {interest w, (interest w)(d \<mapsto> ev)}"
proof (cases "r = -1")
  case True
  then have "w' = w\<lparr>epctls := epctls w'\<rparr>"
    using assms by (auto simp: epoll_ctl_def Let_def split: if_splits prod.splits)
  moreover have "w\<lparr>epctls := es\<rparr> = w\<lparr>epctls := es, interest := interest w\<rparr>" for es
    by (rule server.equality) simp_all
  ultimately have "w' = w\<lparr>epctls := epctls w', interest := interest w\<rparr>" by metis
  then show ?thesis by blast
next
  case False
  then have "w' = w\<lparr>epctls := epctls w', interest := (interest w)(d \<mapsto> ev)\<rparr>"
    using assms by (auto simp: epoll_ctl_def Let_def split: if_splits prod.splits)
  then show ?thesis by blast
qed

lemma listening_keeps:
  assumes inv: "server_inv w" and w': "w' = w\<lparr>epctls := es, interest := it\<rparr>"
    and it: "it \<in> {interest w, (interest w)(server_fd w \<mapsto> (m, DataFd (server_fd w))), (interest w)(server_fd w := None)}"
  shows "server_inv w'"
proof -
  have ok: "server_ok w" using inv by (simp add: server_inv_def)
  have ro: "roster w' = roster w" by (simp add: w' roster_def)
  have cells: "queue_cells w' = queue_cells w" by (intro ext) (simp add: w' queue_cells_def)
  have cl: "clients w' = clients w" by (simp add: w')
  have same: "fd_of w' = fd_of w" "cells_of w' = cells_of w"
    by (intro ext, simp add: fd_of_def cl) (intro ext, simp add: cells_of_def cl cells split: option.split)
  have "client_ok w' a" if "a \<in> set (roster w)" for a
    using server_ok_client [OF ok that] cells it by (auto simp: client_ok_def w' split: option.splits)
  moreover have "interest_ok w'"
    unfolding interest_ok_def ro same
  proof (intro allI impI)
    fix d k e
    assume "interest w' d = Some (k, e)"
    then have "interest w d = Some (k, e) \<or> d = server_fd w \<and> e = DataFd (server_fd w)"
      using it by (auto simp: w' split: if_splits)
    then show "opened w' d \<and> (e = DataFd (server_fd w') \<and> d = server_fd w' \<or>
        (\<exists>c \<in> set (roster w). e = DataPtr c \<and> fd_of w c = d))"
      using ok unfolding server_ok_def interest_ok_def by (elim disjE) (force simp: w')+
  qed
  moreover have "env_ok w'" "heap_fresh w'"
    using ok by (auto simp: server_ok_def env_ok_def memory_available_def clock_works_def heap_fresh_def w')
  moreover have "16 dvd brk w'" "client_count w' \<le> MAX_CLIENTS" "\<not> 16 dvd server_fd w'" "opened w' (server_fd w')"
    "distinct (roster w)"
    using ok by (simp_all add: server_ok_def w')
  moreover have "apart w' a b" if "a \<in> set (roster w)" "b \<in> set (roster w)" "a \<noteq> b" for a b
    using ok that by (simp add: server_ok_def apart_def same)
  ultimately have "server_ok w'" unfolding server_ok_def ro by blast
  moreover have "budget w' = budget w" "client_mutex w' = client_mutex w"
    by (intro ext) (simp_all add: budget_def w')
  ultimately show ?thesis using inv by (simp add: server_inv_def ro cl)
qed

text \<open>The loop from its registration of the listening socket.\<close>

lemma server_loop_outcome:
  assumes "server_inv w"
    and "epoll_ctl EPOLL_CTL_ADD (server_fd w) (EPOLLIN, DataFd (server_fd w)) w = (e, w0)"
  shows "ok (server_loop as w) (\<lambda>(r, w').
     if e = -1 then r = Some (-1) \<and> w' = w0 \<and> server_inv w' else loop_ends as w0 r w')"
proof -
  let ?ev = "(EPOLLIN, DataFd (server_fd w))"
  have ok: "server_ok w" "\<not> client_mutex w" using assms by (simp_all add: server_inv_def)
  obtain es it where "w0 = w\<lparr>epctls := es, interest := it\<rparr>" "it \<in> {interest w, (interest w)(server_fd w \<mapsto> ?ev)}"
    using listening_registered [OF assms(2)] by blast
  then have "server_inv w0" by (intro listening_keeps [OF assms(1)]) auto
  then show ?thesis
    using server_loop_from_safe [of w0 as] assms(2) by (auto simp: server_loop_def)
qed

lemma server_loop_keeps:
  assumes "server_inv w"
  shows "ok (server_loop as w) (\<lambda>(r, w'). r = None \<longrightarrow> server_inv w')"
proof -
  obtain e w0 where "epoll_ctl EPOLL_CTL_ADD (server_fd w) (EPOLLIN, DataFd (server_fd w)) w = (e, w0)" by fastforce
  from server_loop_outcome [OF assms this] show ?thesis
    by (rule ok_weaken) (auto simp: loop_ends_def split: if_splits)
qed

text \<open>
  Claim C1. The server never goes wrong. Started in order, with any clients, and with allocations that succeed, it
  runs through any sequence of answers of \<open>epoll_wait\<close>, whatever the sockets deliver and accept: every round ends, no
  freed or NULL pointer is followed, no buffer overrun, the mutex never taken twice. If the listening socket cannot
  be registered it returns -1 at once. Otherwise it goes through whole rounds for some first part of the answers,
  to a state in order. If the flag is up there it returns 0, its final state is what the shutdown
  sequence makes of that very state, and everything is released when no \<open>close\<close> fails. If it is not, the closed
  clients are removed and the state is in order again; the loop then waits because the answers are used up, or returns -1
  because \<open>epoll_wait\<close> fails.
\<close>

theorem server_loop_safe:
  assumes "server_inv w"
    and "epoll_ctl EPOLL_CTL_ADD (server_fd w) (EPOLLIN, DataFd (server_fd w)) w = (e, w0)"
  shows "ok (server_loop as w) (\<lambda>(r, w').
     if e = -1 then r = Some (-1) \<and> w' = w0 \<and> server_inv w'
     else \<exists>bs cs w1. as = bs @ cs \<and> serves bs w0 w1 \<and> server_inv w1 \<and>
       (if server_shutdown w1 = 1
        then r = Some 0 \<and> stop_server w1 = Some (0, w') \<and> ((\<forall>b \<in> set (closes w1). b) \<longrightarrow> stopped w1 w')
        else reap_from 0 w1 = Some w' \<and> server_inv w' \<and>
          (r = None \<and> cs = [] \<or> r = Some (-1) \<and> (\<exists>cs'. cs = WaitErr # cs'))))"
  by (rule server_loop_outcome [OF assms, unfolded loop_ends_def])

lemma two_clients_inv:
  assumes "length (rd_data evs) + length msg \<le> BUF_SIZE"
  shows "server_inv (two_clients evs msg)"
proof -
  have "length (rd_data (inq (two_clients evs msg) 8)) = 0" by (simp add: two_clients_def)
  moreover have "BUF_SIZE \<le> INPUT_MAX" by (simp add: BUF_SIZE_def INPUT_MAX_def)
  ultimately show ?thesis
    using assms two_clients_ok [of msg evs] by (auto simp: server_inv_def budget_def)
qed

text \<open>The two clients of a server that has not registered its listening socket yet.\<close>

definition ready_server :: "int \<Rightarrow> server" where
  "ready_server flag = (two_clients [RdData hi_frame] [])\<lparr>interest := (interest (two_clients [] []))(4 := None),
     server_shutdown := flag\<rparr>"

lemma ready_server_inv: "server_inv (ready_server flag)"
proof -
  let ?w = "two_clients [RdData hi_frame] []"
  let ?v = "?w\<lparr>interest := (interest ?w)(4 := None)\<rparr>"
  have "server_inv ?w"
    by (rule two_clients_inv) (simp add: hi_frame_def raw_bytes_def HEADER_SIZE_def BUF_SIZE_def)
  then have inv: "server_inv ?v"
    by (rule listening_keeps [where es = "epctls ?w" and it = "(interest ?w)(4 := None)"]) (simp_all add: two_clients_def)
  have r: "ready_server flag = ?v\<lparr>server_shutdown := flag\<rparr>"
    by (simp add: ready_server_def two_clients_def)
  have sc: "same_core ?v (ready_server flag)" unfolding r by (simp add: same_core_def)
  have "server_ok (ready_server flag)" "roster (ready_server flag) = roster ?v"
    using same_core_keeps [OF _ sc] inv by (simp_all add: server_inv_def)
  then show ?thesis
    using inv unfolding server_inv_def r by (simp add: budget_def)
qed

theorem server_loop_safe_witness:
  "ok (server_loop [WaitErr] (ready_server 0)) (\<lambda>(r, w'). r = Some (-1) \<and> server_inv w') \<and>
   ok (server_loop [WaitErr] (ready_server 1)) (\<lambda>(r, w'). r = Some 0 \<and> clients w' 16 = None)"
proof -
  define v where "v f = (ready_server f)\<lparr>interest := (interest (ready_server f))(4 \<mapsto> (EPOLLIN, DataFd 4))\<rparr>" for f
  have e: "epoll_ctl EPOLL_CTL_ADD (server_fd (ready_server f)) (EPOLLIN, DataFd (server_fd (ready_server f))) (ready_server f)
      = (0, v f)" for f
    by (simp add: v_def epoll_ctl_def ready_server_def two_clients_def)
  have sel: "server_shutdown (v f) = f" "closes (v f) = []" "set (roster (v f)) = {16, 32}" for f
    using two_clients_sel by (simp_all add: v_def ready_server_def roster_def two_clients_def)
  have one: "bs = [] \<and> w1 = v f" if "serves bs (v f) w1" "[WaitErr] = bs @ cs" for bs cs w1 f
    using that by (cases bs) (auto elim!: serves_nilE serves_consE simp: epoll_wait_def)
  have "ok (server_loop [WaitErr] (ready_server 0)) (\<lambda>(r, w'). r = Some (-1) \<and> server_inv w')"
    by (rule ok_weaken [OF server_loop_safe [OF ready_server_inv e]])
       (auto dest!: one simp: sel)
  moreover have "ok (server_loop [WaitErr] (ready_server 1)) (\<lambda>(r, w'). r = Some 0 \<and> clients w' 16 = None)"
    by (rule ok_weaken [OF server_loop_safe [OF ready_server_inv e]])
       (auto dest!: one simp: sel stopped_def)
  ultimately show ?thesis ..
qed

text \<open>
  Claim C6. No event is stale. When \<open>epoll_wait\<close> has returned a batch, then at the moment an event of
  the batch is dispatched, after all the ones before it, its data is the listening socket or the
  address of a client that is registered and whose structure is live; and the two are told apart.
\<close>

theorem events_never_stale:
  assumes "server_inv w" "epoll_wait 10 a w = Some (evs @ (m, e) # evs')"
  shows "ok (each dispatch_event evs w) (\<lambda>w'.
     e = DataFd (server_fd w') \<or>
     data_fd e \<noteq> server_fd w' \<and> (\<exists>ci. clients w' (data_ptr e) = Some ci \<and> data_ptr e \<in> set (roster w')))"
proof (rule ok_weaken [OF chat_loop.due_in_turn [OF assms(1) assms(2) [folded MAX_EVENTS_def]]])
  fix w'
  assume "server_inv w' \<and> event_due w' (m, e)"
  then have ok: "server_ok w'" and due: "event_due w' (m, e)" by (simp_all add: server_inv_def)
  show "e = DataFd (server_fd w') \<or>
     data_fd e \<noteq> server_fd w' \<and> (\<exists>ci. clients w' (data_ptr e) = Some ci \<and> data_ptr e \<in> set (roster w'))"
  proof (cases "e = DataFd (server_fd w')")
    case False
    then obtain c where c: "c \<in> set (roster w')" "e = DataPtr c" using due by (auto simp: event_due_def)
    have "16 dvd c" using server_ok_client [OF ok c(1)] by (simp add: client_ok_def)
    then have "data_fd e \<noteq> server_fd w'" using data_fd_aligned [of c] ok c(2) unfolding server_ok_def by metis
    then show ?thesis using roster_alive [OF ok c(1)] c by (simp add: data_ptr_def)
  qed simp
qed

theorem events_never_stale_witness:
  "ok (each dispatch_event [(EPOLLIN, DataPtr 16)] (two_clients [RdEof] [])) (\<lambda>w'.
     \<exists>ci. clients w' 32 = Some ci \<and> 32 \<in> set (roster w'))"
proof -
  let ?w = "two_clients [RdEof] []"
  have inv: "server_inv ?w" by (rule two_clients_inv) simp
  have "epoll_wait 10 (WaitReady [(7, EPOLLIN), (8, EPOLLIN)]) ?w
      = Some ([(EPOLLIN, DataPtr 16)] @ (EPOLLIN, DataPtr 32) # [])"
    by (simp add: epoll_wait_def report_def map_filter_def epoll_masks)
  from events_never_stale [OF inv this] show ?thesis
    by (rule ok_weaken) (auto simp: data_ptr_def)
qed

text \<open>
  Claim C10. Removing the closed clients is what it is on lists, and touches nobody else. The pass ends
  with the registry that \<open>reap_list\<close> computes; whoever stays keeps structure and stream; whoever leaves
  has its descriptor closed and, when \<open>close\<close> does not fail, its structure freed.
\<close>

theorem reap_pass_on_lists:
  assumes "server_ok w" "\<not> client_mutex w"
  shows "ok (reap_from 0 w) (\<lambda>w'. roster w' = reap_list (is_closed w) 0 (roster w) \<and> server_ok w' \<and>
     (\<forall>a \<in> set (roster w'). clients w' a = clients w a \<and> stream w' a = stream w a) \<and>
     (\<forall>a \<in> set (roster w) - set (roster w'). is_closed w a \<and> \<not> opened w' (fd_of w a) \<and>
        ((\<forall>b \<in> set (closes w). b) \<longrightarrow> clients w' a = None)))"
proof (rule ok_weaken [OF reap_from_spec [OF assms]], goal_cases)
  case (1 w')
  have "is_closed w a" if "a \<in> set (roster w) - set (roster w')" for a
    using that reap_list_keeps [of a "roster w" "is_closed w" 0] 1 by auto
  then show ?case using 1 by (simp add: swept_def)
qed

text \<open>Two clients, both marked closed.\<close>

definition both_closed :: server where
  "both_closed = set_client 32 ((plain_client 8 [66] [])\<lparr>closed := 1\<rparr>)
     (set_client 16 ((plain_client 7 [65] [])\<lparr>closed := 1\<rparr>) (two_clients [] []))"

lemma closed_ok:
  assumes "server_ok w" "c \<in> set (roster w)" "clients w c = Some ci"
  shows "server_ok (set_client c (ci\<lparr>closed := 1\<rparr>) w)" "roster (set_client c (ci\<lparr>closed := 1\<rparr>) w) = roster w"
proof -
  obtain cj where cj: "clients w c = Some cj" "heap_fresh w" "queue_rep (packets w) (msg_queue cj) (queue_cells w cj)"
    using client_in_order [OF assms(1,2)] .
  have "cj = ci" using cj(1) assms(3) by (rule option.inject [THEN iffD1, OF trans [OF sym]])
  then have "delivered c [] w (set_client c (ci\<lparr>closed := 1\<rparr>) w)"
    using delivered_closed [OF cj] by blast
  from tended_globals [OF delivered_tended [OF assms(1,2) this]]
  show "server_ok (set_client c (ci\<lparr>closed := 1\<rparr>) w)" "roster (set_client c (ci\<lparr>closed := 1\<rparr>) w) = roster w"
    by simp_all
qed

lemma both_closed_ok: "server_ok both_closed" "roster both_closed = [16, 32]" "\<not> client_mutex both_closed"
  "is_closed both_closed 16" "is_closed both_closed 32" "closes both_closed = []"
proof -
  let ?w = "two_clients [] []"
  have ok: "server_ok ?w" by (rule two_clients_ok) simp
  have in1: "16 \<in> set (roster ?w)" "clients ?w 16 = Some (plain_client 7 [65] [])" by simp_all
  note c1 = closed_ok [OF ok in1]
  have in2: "32 \<in> set (roster (set_client 16 ((plain_client 7 [65] [])\<lparr>closed := 1\<rparr>) ?w))"
    "clients (set_client 16 ((plain_client 7 [65] [])\<lparr>closed := 1\<rparr>) ?w) 32 = Some (plain_client 8 [66] [])"
    unfolding c1(2) by simp_all
  note c2 = closed_ok [OF c1(1) in2]
  show "server_ok both_closed" unfolding both_closed_def by (rule c2)
  show "roster both_closed = [16, 32]" unfolding both_closed_def c2(2) c1(2) by simp
  show "\<not> client_mutex both_closed" "is_closed both_closed 16" "is_closed both_closed 32" "closes both_closed = []"
    by (simp_all add: both_closed_def is_closed_def)
qed

theorem reap_pass_on_lists_witness:
  "ok (reap_from 0 both_closed) (\<lambda>w'. roster w' = [32] \<and> clients w' 16 = None)"
proof -
  have "reap_list (is_closed both_closed) 0 [16, 32] = [32]"
    using both_closed_ok
    by (subst reap_list.simps, subst reap_list.simps) (simp add: swap_out_def)
  moreover have "\<forall>b \<in> set (closes both_closed). b" by (simp add: both_closed_ok)
  ultimately show ?thesis
    by (intro ok_weaken [OF reap_pass_on_lists [OF both_closed_ok(1,3)]]) (simp add: both_closed_ok(2))
qed

text \<open>
  Claim C11. Closed clients go away. No open client leaves in a pass, and each pass removes at least
  half of the closed ones; the counter of a server with a closed client strictly decreases.
\<close>

theorem reap_pass_halves:
  assumes "server_ok w" "\<not> client_mutex w"
  shows "ok (reap_from 0 w) (\<lambda>w'.
     2 * length (filter (is_closed w') (roster w')) \<le> length (filter (is_closed w) (roster w)) \<and>
     (\<forall>a \<in> set (roster w). \<not> is_closed w a \<longrightarrow> a \<in> set (roster w')) \<and>
     client_count w' \<le> client_count w \<and>
     ((\<exists>a \<in> set (roster w). is_closed w a) \<longrightarrow> client_count w' < client_count w))"
proof (rule ok_weaken [OF reap_from_spec [OF assms]], goal_cases)
  case (1 w')
  have ro: "roster w' = reap_list (is_closed w) 0 (roster w)" and sw: "swept w w'" using 1 by simp_all
  have same: "is_closed w' a = is_closed w a" if "a \<in> set (roster w')" for a
    using sw that by (simp add: swept_def is_closed_def)
  then have f: "filter (is_closed w') (roster w') = filter (is_closed w) (roster w')"
    by (rule filter_cong [OF refl])
  have half: "2 * length (filter (is_closed w') (roster w')) \<le> length (filter (is_closed w) (roster w))"
    using reap_list_halves [of 0 "roster w" "is_closed w"] unfolding f unfolding ro take_0 drop_0 by auto
  have keeps: "\<forall>a \<in> set (roster w). \<not> is_closed w a \<longrightarrow> a \<in> set (roster w')"
    unfolding ro by (intro ballI impI reap_list_keeps)
  have len: "length (roster x) = client_count x" for x by (simp add: roster_def)
  have sub: "set (roster w') \<subseteq> set (roster w)" using sw by (simp add: swept_def)
  have dist: "distinct (roster w')" "distinct (roster w)"
    using sw server_ok_parts(5) assms(1) by (auto simp: swept_def)
  have card: "card (set (roster w')) = client_count w'" "card (set (roster w)) = client_count w"
    using distinct_card [OF dist(1)] distinct_card [OF dist(2)] len by simp_all
  have le: "client_count w' \<le> client_count w" using card_mono [OF finite_set sub] card by simp
  have "client_count w' < client_count w" if a: "a \<in> set (roster w)" "is_closed w a" for a
  proof (rule ccontr)
    assume "\<not> client_count w' < client_count w"
    then have eq: "set (roster w') = set (roster w)" using card_subset_eq [OF finite_set sub] card le by simp
    have "length (filter (is_closed w) (roster w')) = card (set (roster w) \<inter> {a. is_closed w a})"
      using distinct_card [of "filter (is_closed w) (roster w')"] dist(1) eq by (simp add: Int_def)
    moreover have "length (filter (is_closed w) (roster w)) = card (set (roster w) \<inter> {a. is_closed w a})"
      using distinct_card [of "filter (is_closed w) (roster w)"] dist(2) by (simp add: Int_def)
    ultimately have "length (filter (is_closed w) (roster w)) = 0" using half f by simp
    then show False using a by (auto simp: filter_empty_conv)
  qed
  then show ?case using half keeps le by blast
qed

theorem reap_pass_halves_witness:
  "ok (reap_from 0 both_closed) (\<lambda>w'. 2 * length (filter (is_closed w') (roster w')) \<le> 2 \<and> client_count w' < 2)"
proof -
  have "client_count both_closed = 2" by (simp add: both_closed_def)
  then show ?thesis
    using both_closed_ok by (intro ok_weaken [OF reap_pass_halves]) auto
qed



text \<open>
  Claim C36. A peer that closes in the middle of a payload may go unnoticed. The reader takes the end of the
  stream for zero more bytes of payload, returns 0 and changes nothing. A client still registered for
  \<open>EPOLLRDHUP\<close> is marked closed when the kernel reports that condition. But once a message was queued for it, it is
  registered for \<open>EPOLLIN\<close> alone: then, with the shutdown flag down and no closed client waiting to be removed,
  whatever conditions hold of the socket, short of an error or a full hang-up, any number of rounds of the
  loop leaves the server exactly as it was, with half a frame.
\<close>

theorem eof_in_payload_ignored:
  assumes "clients w c = Some ci" "client_wf ci" "closed ci \<noteq> 1" "opened w (client_fd ci)"
    and "state ci = READ_PAYLOAD" "payload_bytes_read ci < unat (expected_payload_len ci)"
    and "inq w (client_fd ci) = RdEof # evs" "16 dvd c" "\<not> 16 dvd server_fd w"
  shows "handle_client_read c w = Some (0, w) \<and>
     (interest w (client_fd ci) = Some (EPOLLIN OR EPOLLRDHUP, DataPtr c) \<longrightarrow> m AND EPOLLRDHUP \<noteq> 0 \<longrightarrow>
        Option.bind (epoll_wait 10 (WaitReady [(client_fd ci, m)]) w) (\<lambda>es. each dispatch_event es w)
          = Some (set_client c (ci\<lparr>closed := 1\<rparr>) w)) \<and>
     (interest w (client_fd ci) = Some (EPOLLIN, DataPtr c) \<longrightarrow> m AND (EPOLLERR OR EPOLLHUP) = 0 \<longrightarrow>
        server_shutdown w \<noteq> 1 \<longrightarrow> reap_from 0 w = Some w \<longrightarrow>
        serves (replicate n (WaitReady [(client_fd ci, m)])) w w)"
proof -
  let ?k = "sz_sub (unat (expected_payload_len ci)) (payload_bytes_read ci)" and ?d = "client_fd ci"
  have wf: "payload_bytes_read ci \<le> BUF_SIZE" "length (payload_buffer ci) = BUF_SIZE"
    using assms(2,5) by (auto simp: client_wf_def)
  have "?k \<noteq> 0" using assms(6) sz_sub_small [of "payload_bytes_read ci" "unat (expected_payload_len ci)"] by simp
  then have r: "sys_read ?d ?k w = (Inr [], w)" using assms(4,7) by (simp add: sys_read_def)
  have mc: "memcpy_at (payload_buffer ci) (payload_bytes_read ci) [] = Some (payload_buffer ci)"
    using wf by (simp add: memcpy_at_def)
  have add: "sz_add (payload_bytes_read ci) (length ([] :: byte list)) = payload_bytes_read ci"
    using wf(1) by (simp add: sz_add_def SIZE_MOD_def BUF_SIZE_def)
  have same: "ci\<lparr>payload_buffer := payload_buffer ci, payload_bytes_read := payload_bytes_read ci\<rparr> = ci"
    by (rule client_info.equality) simp_all
  have st: "read_payload_step c w = Some (Return 0, w)"
    using assms(1,6) r mc add same by (simp add: read_payload_step_def)
  then have read: "handle_client_read c w = Some (0, w)"
    using assms(1,5) by (subst handle_client_read.simps) simp
  have ne: "data_fd (DataPtr c) \<noteq> server_fd w" using data_fd_aligned [OF assms(8)] assms(9) by metis
  have ev: "dispatch_event (EPOLLIN, DataPtr c) w = Some w"
    using assms(1,3) read ne
    by (simp add: dispatch_event_def data_ptr_def dispatch_read_def dispatch_write_def epoll_masks)
  have closes: "dispatch_event (k, DataPtr c) w = Some (set_client c (ci\<lparr>closed := 1\<rparr>) w)"
    if "k AND (EPOLLHUP OR EPOLLRDHUP OR EPOLLERR) \<noteq> 0" for k
    using assms(1,3) ne that by (simp add: dispatch_event_def data_ptr_def close_client_def)
  have "Option.bind (epoll_wait 10 (WaitReady [(?d, m)]) w) (\<lambda>es. each dispatch_event es w)
          = Some (set_client c (ci\<lparr>closed := 1\<rparr>) w)"
    if i: "interest w ?d = Some (EPOLLIN OR EPOLLRDHUP, DataPtr c)" "m AND EPOLLRDHUP \<noteq> 0"
  proof -
    let ?k = "m AND (EPOLLIN OR EPOLLRDHUP OR EPOLLERR OR EPOLLHUP)"
    have "(?k AND (EPOLLHUP OR EPOLLRDHUP OR EPOLLERR)) AND EPOLLRDHUP = m AND EPOLLRDHUP"
      by (simp add: epoll_masks and.assoc)
    then have "?k \<noteq> 0" "?k AND (EPOLLHUP OR EPOLLRDHUP OR EPOLLERR) \<noteq> 0"
      using i(2) by (metis and_zero_eq zero_and_eq)+
    then show ?thesis using i(1) closes [of ?k] by (simp add: epoll_wait_def report_def map_filter_def or.assoc)
  qed
  moreover have "serves (replicate n (WaitReady [(?d, m)])) w w"
    if i: "interest w ?d = Some (EPOLLIN, DataPtr c)" "m AND (EPOLLERR OR EPOLLHUP) = 0"
      and s: "server_shutdown w \<noteq> 1" "reap_from 0 w = Some w"
  proof -
    have k: "m AND (EPOLLIN OR EPOLLERR OR EPOLLHUP) = m AND EPOLLIN"
      using i(2) by (simp add: bit.conj_disj_distrib)
    have m: "m AND EPOLLIN = 0 \<or> m AND EPOLLIN = EPOLLIN" by (simp add: EPOLLIN_def and_one_eq mod_2_eq_odd)
    obtain es where "epoll_wait MAX_EVENTS (WaitReady [(?d, m)]) w = Some es" "each dispatch_event es w = Some w"
      using m i(1) k ev by (auto simp: epoll_wait_def report_def map_filter_def MAX_EVENTS_def)
    then show ?thesis
      by (induction n) (auto intro: serves_none serves_turn [OF s])
  qed
  ultimately show ?thesis using read by blast
qed

theorem eof_in_payload_ignored_witness:
  "let ci = (plain_client 7 [65] [])\<lparr>state := READ_PAYLOAD, expected_payload_len := 5, payload_bytes_read := 2\<rparr>;
       w = (set_client 16 ci (two_clients [RdEof] []))\<lparr>interest := [7 \<mapsto> (EPOLLIN, DataPtr 16)]\<rparr>
   in handle_client_read 16 w = Some (0, w) \<and>
      serves (replicate 1000 (WaitReady [(7, EPOLLIN OR EPOLLRDHUP)])) w w"
proof -
  let ?ci = "(plain_client 7 [65] [])\<lparr>state := READ_PAYLOAD, expected_payload_len := 5, payload_bytes_read := 2\<rparr>"
  let ?w = "(set_client 16 ?ci (two_clients [RdEof] []))\<lparr>interest := [7 \<mapsto> (EPOLLIN, DataPtr 16)]\<rparr>"
  have "client_wf (plain_client 7 [65] [])" by (rule client_wf_plain) (simp_all add: NAME_MAX_def)
  then have wf: "client_wf ?ci" by (simp add: client_wf_def BUF_SIZE_def)
  have reap: "reap_from 0 ?w = Some ?w"
    by (simp add: reap_from.simps [of 0] reap_from.simps [of 1] reap_from.simps [of 2] reap_client_def list_at_def
        MAX_CLIENTS_def set_client_def two_clients_def one_add_one del: One_nat_def)
  show ?thesis
    unfolding Let_def
    using eof_in_payload_ignored [of ?w 16 ?ci "[]" "EPOLLIN OR EPOLLRDHUP" 1000] wf reap
    by (simp add: set_client_def epoll_masks)
qed

end
