(* ===== verification/Chat_Setup.thy ===== *)
theory Chat_Setup
  imports Chat_Server
begin

text \<open>
  Start-up: the socket helpers (src/common/common_setup.c), the set-up of the server
  (src/server/server_setup.c) and of the client (src/client/client_setup.c), the thread helper
  (src/common/common_thread.c), and the server's \<open>main\<close> (src/server/server.c). The network calls and
  their answers are a function and a log, since each is made at most once.
\<close>

section \<open>Network calls\<close>

definition ERR_SOCKET :: int where "ERR_SOCKET = -1"
definition ERR_INET_PTON :: int where "ERR_INET_PTON = -2"
definition ERR_BIND :: int where "ERR_BIND = -3"
definition ERR_LISTEN :: int where "ERR_LISTEN = -4"
definition ERR_CONNECT :: int where "ERR_CONNECT = -5"

lemmas error_codes = ERR_SOCKET_def ERR_INET_PTON_def ERR_BIND_def ERR_LISTEN_def ERR_CONNECT_def

definition LISTEN_BACKLOG :: int where "LISTEN_BACKLOG = 256"
definition LISTEN_ADDR :: string where "LISTEN_ADDR = ''0.0.0.0''"
definition ADDR :: string where "ADDR = ''127.0.0.1''"
definition PORT :: "16 word" where "PORT = 8000"

text \<open>The address structure; the binary form of an address is what \<open>inet_pton\<close> computes.\<close>

record sockaddr_in =
  sin_family :: nat
  sin_port :: "16 word"
  sin_addr :: "byte list"

definition AF_INET :: nat where "AF_INET = 2"

definition htons :: "16 word \<Rightarrow> 16 word" where
  "htons w = push_bit 8 w OR drop_bit 8 w"

datatype net_call =
    Socket | SetNonblock fd | InetPton string | SetReuseaddr fd | Bind fd sockaddr_in | Listen fd int
  | Connect fd sockaddr_in

record net =
  reply :: "net_call \<Rightarrow> int"
  pton_addr :: "string \<Rightarrow> byte list"
  calls :: "net_call list"

definition ask :: "net_call \<Rightarrow> net \<Rightarrow> int \<times> net" where
  "ask c n = (reply n c, n\<lparr>calls := calls n @ [c]\<rparr>)"

section \<open>Helpers\<close>

text \<open>\<open>create_inet_socket\<close> returns its status and the descriptor left in \<open>*sfd_out\<close>.\<close>

definition create_inet_socket :: "net \<Rightarrow> (int \<times> fd) \<times> net" where
  "create_inet_socket n =
     (let (sfd, n1) = ask Socket n in ((if sfd = -1 then ERR_SOCKET else 0, sfd), n1))"

definition setup_address :: "string \<Rightarrow> net \<Rightarrow> (int \<times> sockaddr_in) \<times> net" where
  "setup_address src n =
     (let a = \<lparr>sin_family = AF_INET, sin_port = htons PORT, sin_addr = [0, 0, 0, 0]\<rparr>;
          (r, n1) = ask (InetPton src) n
      in if r \<noteq> 1 then ((ERR_INET_PTON, a), n1) else ((0, a\<lparr>sin_addr := pton_addr n src\<rparr>), n1))"

definition bind_and_listen :: "fd \<Rightarrow> sockaddr_in \<Rightarrow> net \<Rightarrow> int \<times> net" where
  "bind_and_listen sfd a n =
     (let (r1, n1) = ask (SetReuseaddr sfd) n
      in if r1 = -1 then (ERR_SOCKET, n1)
         else (let (r2, n2) = ask (Bind sfd a) n1
               in if r2 = -1 then (ERR_BIND, n2)
                  else (let (r3, n3) = ask (Listen sfd LISTEN_BACKLOG) n2
                        in if r3 = -1 then (ERR_LISTEN, n3) else (0, n3))))"

definition init_server :: "net \<Rightarrow> (int \<times> fd) \<times> net" where
  "init_server n =
     (let ((status, sfd), n1) = create_inet_socket n
      in if status \<noteq> 0 then ((status, sfd), n1)
         else (let (status, n2) = ask (SetNonblock sfd) n1
               in if status = -1 then ((status, sfd), n2)
                  else (let ((status, a), n3) = setup_address LISTEN_ADDR n2
                        in if status \<noteq> 0 then ((status, sfd), n3)
                           else (let (status, n4) = bind_and_listen sfd a n3 in ((status, sfd), n4)))))"

definition init_client :: "net \<Rightarrow> (int \<times> fd) \<times> net" where
  "init_client n =
     (let ((status, sfd), n1) = create_inet_socket n
      in if status \<noteq> 0 then ((status, sfd), n1)
         else (let ((status, a), n2) = setup_address ADDR n1
               in if status \<noteq> 0 then ((status, sfd), n2)
                  else (let (r, n3) = ask (Connect sfd a) n2
                        in if r = -1 then ((ERR_CONNECT, sfd), n3) else ((status, sfd), n3))))"

text \<open>\<open>create_and_detach_thread\<close>, on the results of the two calls; the second is made only after the first.\<close>

definition create_and_detach_thread :: "int \<Rightarrow> int \<Rightarrow> int" where
  "create_and_detach_thread created detached =
     (if created \<noteq> 0 then -1 else if detached \<noteq> 0 then -1 else 0)"

section \<open>The server's main\<close>

text \<open>
  The exit status of the process, or none while the loop waits. \<open>handle_error\<close> (src/common/logging.c)
  exits with \<open>EXIT_FAILURE\<close>. A socket that was created is open from then on.
\<close>

definition EXIT_FAILURE :: int where "EXIT_FAILURE = 1"

definition handle_error :: "'a \<Rightarrow> (int option \<times> 'a) option" where
  "handle_error w = Some (Some EXIT_FAILURE, w)"

definition with_socket :: "fd \<Rightarrow> server \<Rightarrow> server" where
  "with_socket sfd w =
     w\<lparr>server_fd := sfd, opened := (if sfd = -1 then opened w else (opened w)(sfd := True))\<rparr>"

definition server_main ::
  "int \<Rightarrow> fd \<Rightarrow> int \<Rightarrow> net \<Rightarrow> wait_ans list \<Rightarrow> server \<Rightarrow> (int option \<times> server) option" where
  "server_main mutex_init epfd mutex_destroy n answers w =
     (let (r, w1) = server_state_init True mutex_init epfd w
      in if r = -1 then handle_error w1
         else (let ((r1, sfd), n1) = init_server n; w2 = with_socket sfd w1
               in if r1 = -1 then handle_error w2
                  else do {
                    (res, w3) \<leftarrow> server_loop answers w2;
                    case res of
                      None \<Rightarrow> Some (None, w3)
                    | Some _ \<Rightarrow>
                        if server_state_destroy True mutex_destroy = -1 then handle_error w3
                        else Some (Some 0, w3)
                  }))"

section \<open>From a cold start to the invariant\<close>

text \<open>A process that has just started: nothing registered with epoll, an allocator and a clock that work.\<close>

definition cold :: "server \<Rightarrow> bool" where
  "cold w \<longleftrightarrow> heap_fresh w \<and> 16 dvd brk w \<and> env_ok w \<and> (\<forall>d. interest w d = None)"

lemma server_state_init_cold:
  assumes "cold w" "server_state_init True m e w = (r, w1)" "\<not> 16 dvd sfd" "sfd \<noteq> -1"
  shows "r = -1 \<or> server_inv (with_socket sfd w1)"
proof (cases "r = -1")
  case False
  then have w1: "w1 = w\<lparr>server_fd := -1, epoll_fd := e, client_list := (\<lambda>_. NULL),
                       client_count := 0, client_mutex := False\<rparr>"
    using assms(2) by (auto simp: server_state_init_def Let_def split: if_splits)
  have "roster (with_socket sfd w1) = []" by (simp add: roster_def with_socket_def w1)
  moreover have "env_ok (with_socket sfd w1)" "heap_fresh (with_socket sfd w1)"
    using assms(1) by (auto simp: cold_def env_ok_def memory_available_def clock_works_def heap_fresh_def
        with_socket_def w1)
  ultimately show ?thesis
    using assms unfolding server_inv_def server_ok_def interest_ok_def cold_def
    by (simp add: with_socket_def w1)
qed simp

lemma init_server_socket:
  "init_server n = ((st, sfd), n1) \<Longrightarrow> sfd = reply n Socket \<and> (sfd = -1 \<longrightarrow> st = -1)"
  by (auto simp: init_server_def create_inet_socket_def ask_def error_codes Let_def split: if_splits prod.splits)

section \<open>Properties\<close>

text \<open>
  Claim C22. The whole server program is safe from its first instruction. From a cold start with allocations that
  succeed, whatever the set-up calls return, except a listening descriptor that is a multiple of 16,
  and whatever happens in the loop, \<open>main\<close> makes no memory fault and never blocks on
  its own mutex; while it serves, the invariant holds; otherwise it exits with status 0 or 1.
\<close>

theorem server_main_safe:
  assumes "cold w" "\<not> 16 dvd reply n Socket"
  shows "ok (server_main mutex_init epfd mutex_destroy n answers w) (\<lambda>(r, w').
     r = None \<and> server_inv w' \<or> r = Some 0 \<or> r = Some 1)"
proof -
  obtain r w1 where i: "server_state_init True mutex_init epfd w = (r, w1)" by fastforce
  obtain st sfd n1 where s: "init_server n = ((st, sfd), n1)" by (metis surj_pair)
  show ?thesis
  proof (cases "r = -1 \<or> st = -1")
    case True
    then show ?thesis using i s by (auto simp: server_main_def handle_error_def EXIT_FAILURE_def)
  next
    case False
    then have sfd: "sfd = reply n Socket" "sfd \<noteq> -1" using init_server_socket [OF s] by auto
    then have "server_inv (with_socket sfd w1)"
      using server_state_init_cold [OF assms(1) i _ sfd(2)] assms(2) False by simp
    then obtain res w3 where L: "server_loop answers (with_socket sfd w1) = Some (res, w3)"
      and inv: "res = None \<longrightarrow> server_inv w3"
      using server_loop_keeps [of _ answers] by (fastforce simp: ok_conv)
    show ?thesis
      using False i s L inv
      by (simp add: server_main_def handle_error_def EXIT_FAILURE_def split: option.split)
  qed
qed

definition cold_server :: server where
  "cold_server = server0\<lparr>server_shutdown := 0\<rparr>"

definition good_net :: net where
  "good_net = \<lparr>reply = (\<lambda>c. case c of Socket \<Rightarrow> 4 | InetPton _ \<Rightarrow> 1 | _ \<Rightarrow> 0), pton_addr = (\<lambda>_. [0, 0, 0, 0]),
     calls = []\<rparr>"

lemma cold_server_cold: "cold cold_server"
  unfolding cold_def cold_server_def
  by (auto simp: heap_fresh_def env_ok_def memory_available_def clock_works_def server0_def os0_def os.defs NAME_MAX_def
      intro: exI [of _ "0 :: nat"])

theorem server_main_safe_witness:
  "ok (server_main 0 3 0 good_net [WaitReady [(4, EPOLLIN)], WaitErr] cold_server) (\<lambda>(r, w').
     r = None \<and> server_inv w' \<or> r = Some 0 \<or> r = Some 1)"
  by (rule server_main_safe [OF cold_server_cold]) (simp add: good_net_def)

definition setup_calls :: "fd \<Rightarrow> sockaddr_in \<Rightarrow> (net_call \<times> int) list" where
  "setup_calls sfd a = [(Socket, -1), (SetNonblock sfd, -1), (InetPton ''0.0.0.0'', -2), (SetReuseaddr sfd, -1),
     (Bind sfd a, -3), (Listen sfd 256, -4)]"

definition call_fails :: "net \<Rightarrow> net_call \<Rightarrow> bool" where
  "call_fails n c = (case c of InetPton _ \<Rightarrow> reply n c \<noteq> 1 | _ \<Rightarrow> reply n c = -1)"

fun first_failure :: "net \<Rightarrow> (net_call \<times> int) list \<Rightarrow> net_call list \<times> int" where
  "first_failure n [] = ([], 0)"
| "first_failure n ((c, e) # cs) =
     (if call_fails n c then ([c], e) else (let (ds, s) = first_failure n cs in (c # ds, s)))"

lemma htons_PORT: "htons PORT = 0x401F"
  by (simp add: htons_def PORT_def)

text \<open>
  Set-up stops at the first call that fails and reports which one it was. The calls made are the
  six set-up calls in order up to the first failure, and the status is 0 only when none failed.
\<close>

theorem init_server_first_failure:
  "first_failure n (setup_calls (reply n Socket)
       \<lparr>sin_family = 2, sin_port = 0x401F, sin_addr = pton_addr n ''0.0.0.0''\<rparr>) = (cs, e) \<Longrightarrow>
   \<exists>n1. init_server n = ((e, reply n Socket), n1) \<and> calls n1 = calls n @ cs"
  by (auto simp: init_server_def create_inet_socket_def setup_address_def bind_and_listen_def ask_def error_codes
      setup_calls_def call_fails_def AF_INET_def htons_PORT LISTEN_ADDR_def LISTEN_BACKLOG_def Let_def
      split: if_splits)

theorem init_server_first_failure_witness:
  "\<exists>n1. init_server (good_net\<lparr>reply := (reply good_net)(Bind 4 \<lparr>sin_family = 2, sin_port = 0x401F, sin_addr = [0, 0, 0, 0]\<rparr> := -1)\<rparr>)
       = ((-3, 4), n1) \<and> length (calls n1) = 5"
  using init_server_first_failure [of "good_net\<lparr>reply := (reply good_net)(Bind 4 \<lparr>sin_family = 2, sin_port = 0x401F, sin_addr = [0, 0, 0, 0]\<rparr> := -1)\<rparr>"]
  by (auto simp: setup_calls_def call_fails_def good_net_def)

lemma init_server_status:
  assumes "\<not> call_fails n Socket" "sfd = reply n Socket" "\<not> call_fails n (SetNonblock sfd)"
    "\<not> call_fails n (SetReuseaddr sfd)"
    and "a = \<lparr>sin_family = 2, sin_port = 0x401F, sin_addr = pton_addr n ''0.0.0.0''\<rparr>"
  shows "fst (init_server n) = (if call_fails n (InetPton ''0.0.0.0'') then -2 else if call_fails n (Bind sfd a) then -3
           else if call_fails n (Listen sfd 256) then -4 else 0, sfd)"
  using assms
  by (simp add: init_server_def create_inet_socket_def setup_address_def bind_and_listen_def ask_def error_codes
      call_fails_def AF_INET_def htons_PORT LISTEN_ADDR_def LISTEN_BACKLOG_def Let_def split: prod.split)

text \<open>
  Claim C40. The server does not notice that it could not bind or listen. Take a run in which every set-up call
  succeeds, and one with the same socket in which \<open>inet_pton\<close>, \<open>bind\<close> or \<open>listen\<close> fails: set-up reports -2, -3 or -4
  according to the first that did, and \<open>main\<close> goes on exactly as in the first run.
\<close>

theorem main_ignores_bind_failure:
  assumes "\<forall>c. \<not> call_fails n c" "reply n' Socket = reply n Socket" "sfd = reply n Socket"
    and "\<not> call_fails n' (SetNonblock sfd)" "\<not> call_fails n' (SetReuseaddr sfd)"
    and "a = \<lparr>sin_family = 2, sin_port = 0x401F, sin_addr = pton_addr n' ''0.0.0.0''\<rparr>"
  shows "fst (init_server n') = (if call_fails n' (InetPton ''0.0.0.0'') then -2 else if call_fails n' (Bind sfd a) then -3
           else if call_fails n' (Listen sfd 256) then -4 else 0, sfd) \<and>
     server_main mi e md n' as w = server_main mi e md n as w"
proof -
  have "call_fails n' Socket = call_fails n Socket" using assms(2) by (simp add: call_fails_def)
  then have st': "fst (init_server n') = (if call_fails n' (InetPton ''0.0.0.0'') then -2 else if call_fails n' (Bind sfd a) then -3
           else if call_fails n' (Listen sfd 256) then -4 else 0, sfd)"
    using assms by (intro init_server_status) simp_all
  have st: "fst (init_server n) = (0, sfd)"
    using init_server_status [of n sfd "\<lparr>sin_family = 2, sin_port = 0x401F, sin_addr = pton_addr n ''0.0.0.0''\<rparr>"]
      assms(1,3) by simp
  obtain s1 d1 n1 s1' d1' n1' where s: "init_server n = ((s1, d1), n1)" "init_server n' = ((s1', d1'), n1')"
    by (metis surj_pair)
  have "s1 = 0" "d1 = sfd" "d1' = sfd" "s1' \<noteq> -1" using st st' s by (auto split: if_splits)
  then have "server_main mi e md n' as w = server_main mi e md n as w"
    using s by (simp add: server_main_def split: prod.split)
  then show ?thesis using st' by simp
qed

theorem main_ignores_bind_failure_witness:
  "server_main 0 3 0 (good_net\<lparr>reply := (reply good_net)(Bind 4 \<lparr>sin_family = 2, sin_port = 0x401F, sin_addr = [0, 0, 0, 0]\<rparr> := -1)\<rparr>)
       [WaitReady [(4, EPOLLIN)], WaitErr] cold_server
     = server_main 0 3 0 good_net [WaitReady [(4, EPOLLIN)], WaitErr] cold_server \<and>
   server_main 0 3 0 (good_net\<lparr>reply := (reply good_net)(Listen 4 256 := -1)\<rparr>) [WaitErr] cold_server
     = server_main 0 3 0 good_net [WaitErr] cold_server \<and>
   server_main 0 3 0 (good_net\<lparr>reply := (reply good_net)(InetPton ''0.0.0.0'' := 0)\<rparr>) [WaitErr] cold_server
     = server_main 0 3 0 good_net [WaitErr] cold_server"
proof -
  have g: "\<forall>c. \<not> call_fails good_net c" by (auto simp: call_fails_def good_net_def split: net_call.splits)
  have 1: "n' = good_net\<lparr>reply := (reply good_net)(c := r)\<rparr> \<Longrightarrow>
      c \<noteq> Socket \<Longrightarrow> c \<noteq> SetNonblock 4 \<Longrightarrow> c \<noteq> SetReuseaddr 4 \<Longrightarrow>
      server_main 0 3 0 n' as cold_server = server_main 0 3 0 good_net as cold_server" for n' c r as
    by (rule conjunct2 [OF main_ignores_bind_failure [OF g _ refl _ _ refl]])
       (simp_all add: good_net_def call_fails_def)
  show ?thesis by (intro conjI) (rule 1 [OF refl]; simp)+
qed

end
