(* ===== verification/Chat_Client.thy ===== *)
theory Chat_Client
  imports Chat_Setup
begin

text \<open>
  The client program: its commands (src/client/client_handle_command.c), the thread that prints what
  the server sends (src/client/client_listen.c) and \<open>main\<close> (src/client/client.c). The two threads share
  the flag \<open>client_shutdown\<close> (src/client/client_control.c) and the block \<open>listen_info\<close>; a run is an explicit
  sequence of turns, each one iteration of one of the two loops.
\<close>

section \<open>State\<close>

text \<open>
  \<open>info_live\<close> says that the block that holds the descriptor for the listening thread is allocated;
  \<open>listen_header\<close> is the memory of that thread's header. Descriptor 0 is the standard input, 1 the output.
\<close>

record client = os +
  sfd :: fd
  info_live :: bool
  client_shutdown :: int
  buf :: "byte list"
  last_chunk_filled :: bool
  disconnecting :: int
  listening :: bool
  listen_header :: "byte list"

text \<open>What an iteration of \<open>main\<close> leads to.\<close>

datatype flow = Continue | Break | Exit int

definition free_info :: "client \<Rightarrow> client option" where
  "free_info w = (if info_live w then Some (w\<lparr>info_live := False\<rparr>) else None)"

section \<open>Commands\<close>

definition handle_quit :: "fd \<Rightarrow> 'a os_scheme \<Rightarrow> cmd_res \<times> 'a os_scheme" where
  "handle_quit d w = (let (r, w1) = sys_close d w in (if r = -1 then CMD_WARNING else CMD_DISCONNECT, w1))"

definition client_handle_unknown :: cmd_res where
  "client_handle_unknown = CMD_OK"

definition client_handle_command ::
  "fd \<Rightarrow> byte list \<Rightarrow> 'a os_scheme \<Rightarrow> (cmd_res \<times> 'a os_scheme) option" where
  "client_handle_command d cmd w = do {
     command \<leftarrow> find_command cmd;
     case command of
       CMD_QUIT \<Rightarrow> Some (handle_quit d w)
     | CMD_SHUTDOWN \<Rightarrow> Some (CMD_DISCONNECT, w)
     | _ \<Rightarrow> Some (client_handle_unknown, w)
   }"

section \<open>The main loop\<close>

text \<open>
  A chunk that starts with a slash. The copy is as long as the chunk and its last byte is replaced by
  a NUL; when nothing is left of it the tokenizer returns NULL, on which \<open>strlen\<close> has no outcome.
\<close>

definition main_command :: "nat \<Rightarrow> client \<Rightarrow> client option" where
  "main_command n w = do {
     let (p, w1) = malloc_buf n w;
     block \<leftarrow> p;
     src \<leftarrow> slice (buf w1) 0 n;
     copy \<leftarrow> memcpy_at block 0 src;
     buf_copy \<leftarrow> memcpy_at copy (n - 1) [0];
     (tok, _) \<leftarrow> strtok_r buf_copy;
     cmd \<leftarrow> tok;
     cmd_len \<leftarrow> strlen_c (cmd @ [0]);
     lower \<leftarrow> make_lowercase (cmd @ [0]) cmd_len;
     (command_result, w2) \<leftarrow> client_handle_command (sfd w1) lower w1;
     let w3 = free_buf p w2;
     Some (if command_result = CMD_ERROR \<or> command_result = CMD_DISCONNECT then w3\<lparr>disconnecting := 1\<rparr> else w3)
   }"

text \<open>The sending part: \<open>memchr\<close> looks at the whole buffer, not only at the bytes just read.\<close>

definition main_send :: "nat \<Rightarrow> client \<Rightarrow> (flow \<times> client) option" where
  "main_send n w = do {
     (bytes_read, fin, w1) \<leftarrow>
       (if 10 \<in> set (take BUF_SIZE (buf w)) then do {
          b \<leftarrow> memcpy_at (buf w) (n - 1) [0];
          Some (n - 1, True, w\<lparr>buf := b, last_chunk_filled := False\<rparr>)
        } else Some (n, False, w\<lparr>last_chunk_filled := True\<rparr>));
     let header = \<lparr>hdr_len = htonl (of_nat bytes_read), hdr_type = MSG_TYPE_NORMAL,
                   hdr_done = (if fin then 1 else 0)\<rparr>;
     (r1, w2) \<leftarrow> write_header (sfd w1) header w1;
     if r1 = -1 then Some (Exit EXIT_FAILURE, w2)
     else do {
       (r2, w3) \<leftarrow> write_payload (sfd w2) (buf w2) bytes_read w2;
       if r2 = -1 then Some (Exit EXIT_FAILURE, w3)
       else if disconnecting w3 = 1 then do { w4 \<leftarrow> free_info w3; Some (Break, w4) }
       else Some (Continue, w3)
     }
   }"

text \<open>One iteration; \<open>ready\<close> is what \<open>select\<close> says of the standard input.\<close>

definition main_step :: "bool \<Rightarrow> client \<Rightarrow> (flow \<times> client) option" where
  "main_step ready w =
     (if client_shutdown w = 1 then Some (Break, w)
      else if \<not> ready then Some (Continue, w)
      else (case sys_read 0 BUF_SIZE w of
        (Inl _, w1) \<Rightarrow> Some (Break, w1)
      | (Inr bs, w1) \<Rightarrow>
          if bs = [] then Some (Break, w1)
          else do {
            b \<leftarrow> memcpy_at (buf w1) 0 bs;
            let w2 = w1\<lparr>buf := b\<rparr>;
            first \<leftarrow> slice (buf w2) 0 1;
            w3 \<leftarrow> (if first = [47] then main_command (length bs) w2 else Some w2);
            if length bs = 1 \<and> \<not> last_chunk_filled w3 then Some (Continue, w3)
            else main_send (length bs) w3
          }))"

section \<open>The listening thread\<close>

text \<open>
  One iteration of \<open>client_listen\<close>; the result says whether the loop goes on. A header that arrives
  only in part counts as read, and overwrites only a part of the old one.
\<close>

definition stop_listening :: "client \<Rightarrow> (bool \<times> client) option" where
  "stop_listening w = Some (False, w\<lparr>listening := False\<rparr>)"

definition listen_step :: "client \<Rightarrow> (bool \<times> client) option" where
  "listen_step w =
     (if \<not> info_live w then None
      else do {
        ((r, bs), w1) \<leftarrow> read_header (sfd w) w;
        hdr \<leftarrow> memcpy_at (listen_header w1) 0 bs;
        let w2 = w1\<lparr>listen_header := hdr\<rparr>;
        if r \<le> 0 then stop_listening w2
        else do {
          h \<leftarrow> header_of_image hdr;
          ((r2, p), w3) \<leftarrow> read_payload (sfd w2) (unat (ntohl (hdr_len h))) w2;
          if r2 \<le> 0 then do { w4 \<leftarrow> free_info (free_buf p w3); stop_listening w4 }
          else do {
            msg_payload \<leftarrow> p;
            bye \<leftarrow> strcmp_eq msg_payload shutdown_message;
            if bye then do {
              w4 \<leftarrow> free_info (free_buf p (w3\<lparr>client_shutdown := 1\<rparr>));
              stop_listening w4
            } else do {
              (r3, w4) \<leftarrow> write_payload 1 msg_payload (nat r2) w3;
              if r3 = -1 then do {
                w5 \<leftarrow> free_info (free_buf p w4);
                stop_listening (w5\<lparr>client_shutdown := 1\<rparr>)
              } else Some (True, free_buf p w4)
            }
          }
        }
      })"

section \<open>Runs\<close>

text \<open>
  A run of the two threads. When \<open>main\<close> has left its loop it waits for the listening thread; the exit
  status is there when the process has ended. A call of \<open>handle_error\<close> ends both threads.
\<close>

datatype turn = MainTurn bool | ListenTurn

fun client_run :: "turn list \<Rightarrow> bool \<Rightarrow> client \<Rightarrow> (int option \<times> client) option" where
  "client_run [] looping w = Some (if \<not> looping \<and> \<not> listening w then Some 0 else None, w)"
| "client_run (ListenTurn # ts) looping w =
     (if listening w then do { (_, w1) \<leftarrow> listen_step w; client_run ts looping w1 }
      else client_run ts looping w)"
| "client_run (MainTurn ready # ts) looping w =
     (if looping then do {
        (f, w1) \<leftarrow> main_step ready w;
        case f of Continue \<Rightarrow> client_run ts True w1 | Break \<Rightarrow> client_run ts False w1
                | Exit s \<Rightarrow> Some (Some s, w1)
      } else client_run ts False w)"

text \<open>\<open>main\<close> up to its loop; only the status -1 of \<open>init_client\<close> is an error to it.\<close>

definition client_main :: "net \<Rightarrow> int \<Rightarrow> turn list \<Rightarrow> client \<Rightarrow> (int option \<times> client) option" where
  "client_main n thread_created ts w =
     (let ((r, d), _) = init_client n;
          w0 = w\<lparr>sfd := d, opened := (if d = -1 then opened w else (opened w)(d := True)),
                 last_chunk_filled := False, disconnecting := 0\<rparr>
      in if r = -1 then handle_error w0
         else (let (b, w1) = malloc_ok 4 w0
               in if \<not> b then None
                  else (let w2 = w1\<lparr>info_live := True\<rparr>
                        in if thread_created \<noteq> 0 then handle_error w2
                           else client_run ts True (w2\<lparr>listening := True\<rparr>))))"

section \<open>What an iteration sends\<close>

text \<open>\<open>sent_on w w' s\<close>: the client transmitted \<open>s\<close> on its socket; of the rest only its own variables moved.\<close>

definition sent_on :: "client \<Rightarrow> client \<Rightarrow> byte list \<Rightarrow> bool" where
  "sent_on w w' s \<longleftrightarrow> sfd w' = sfd w \<and> opened w' = opened w \<and> inq w' = inq w \<and>
     client_shutdown w' = client_shutdown w \<and> listening w' = listening w \<and> mallocs w' = mallocs w \<and>
     set (outq w' (sfd w)) \<subseteq> set (outq w (sfd w)) \<and> sent w' (sfd w) = sent w (sfd w) @ s"

lemma write_exact:
  fixes w :: "'a os_scheme"
  assumes "opened w d" "WrAccept 0 \<notin> set (outq w d)"
  shows "ok (write_all d a w) (\<lambda>(r, w'). if r = -1 then absorb (length a) (outq w d) = None
     else \<exists>oq. set oq \<subseteq> set (outq w d) \<and> absorb (length a) (outq w d) = Some oq \<and>
       w' = w\<lparr>outq := (outq w)(d := oq), sent := (sent w)(d := sent w d @ a)\<rparr>)"
proof (rule ok_weaken [OF write_all_spec [OF assms(1), of a]], goal_cases)
  case (1 x)
  obtain r w' where x: "x = (r, w')" by fastforce
  have W: "wrote d a 0 w r w'" using 1 by (simp add: x)
  have ab: "absorb (length a) (outq w d) = (if r = int (length a) then Some (outq w' d) else None)"
    using W unfolding wrote_def by simp
  show ?case
  proof (cases "r = -1")
    case False
    then have r: "r = int (length a)" using W assms(2) by (auto simp: wrote_def)
    then have "w' = w\<lparr>outq := (outq w)(d := outq w' d), sent := (sent w)(d := sent w d @ a)\<rparr>"
      and "set (outq w' d) \<subseteq> set (outq w d)"
      using W unfolding wrote_def by auto
    then show ?thesis using False r ab unfolding x by auto
  qed (use ab x in simp)
qed

lemma write_two:
  fixes w :: "'a os_scheme"
  assumes "opened w d" "WrAccept 0 \<notin> set (outq w d)"
  shows "ok (write_all d a w) (\<lambda>(r1, w1). if r1 = -1 then absorbs [length a, length b] (outq w d) = None
     else ok (write_all d b w1) (\<lambda>(r2, w2). if r2 = -1 then absorbs [length a, length b] (outq w d) = None
     else \<exists>oq. set oq \<subseteq> set (outq w d) \<and> absorbs [length a, length b] (outq w d) = Some oq \<and>
       w2 = w\<lparr>outq := (outq w)(d := oq), sent := (sent w)(d := sent w d @ a @ b)\<rparr>))"
proof (rule ok_weaken [OF write_exact [OF assms, of a]], goal_cases)
  case (1 x)
  obtain r1 w1 where x: "x = (r1, w1)" by fastforce
  show ?case
  proof (cases "r1 = -1")
    case True
    then show ?thesis using 1 by (simp add: x)
  next
    case False
    then obtain o1 where o1: "set o1 \<subseteq> set (outq w d)" "absorb (length a) (outq w d) = Some o1"
      and w1: "w1 = w\<lparr>outq := (outq w)(d := o1), sent := (sent w)(d := sent w d @ a)\<rparr>"
      using 1 by (auto simp: x)
    have "opened w1 d" "WrAccept 0 \<notin> set (outq w1 d)" using assms o1(1) by (auto simp: w1)
    from write_exact [OF this, of b] show ?thesis
      unfolding x prod.case using False o1
      by (auto simp: w1 elim!: ok_weaken split: if_splits)
  qed
qed

lemma main_send_spec:
  assumes "length (buf w) = BUF_SIZE" "0 < n" "n \<le> BUF_SIZE" "opened w (sfd w)" "WrAccept 0 \<notin> set (outq w (sfd w))"
    and "disconnecting w = 1 \<longrightarrow> info_live w"
  defines "fin \<equiv> 10 \<in> set (buf w)"
  shows "ok (main_send n w) (\<lambda>(f, w').
     if absorbs [HEADER_SIZE, if fin then n - 1 else n] (outq w (sfd w)) = None then f = Exit 1
     else f = (if disconnecting w = 1 then Break else Continue) \<and>
     info_live w' = (info_live w \<and> disconnecting w \<noteq> 1) \<and> disconnecting w' = disconnecting w \<and>
     buf w' = (if fin then (buf w)[n - 1 := 0] else buf w) \<and> last_chunk_filled w' = (\<not> fin) \<and>
     absorbs [HEADER_SIZE, if fin then n - 1 else n] (outq w (sfd w)) = Some (outq w' (sfd w)) \<and>
     sent_on w w' (wire (take (if fin then n - 1 else n) (buf w), MSG_TYPE_NORMAL, fin)))"
proof -
  let ?m = "if fin then n - 1 else n"
  let ?b = "if fin then (buf w)[n - 1 := 0] else buf w"
  let ?w1 = "w\<lparr>buf := ?b, last_chunk_filled := \<not> fin\<rparr>"
  let ?p = "take ?m (buf w)" and ?ab = "absorbs [HEADER_SIZE, ?m] (outq w (sfd w))"
  have n: "n - 1 < length (buf w)" "?m \<le> length (buf w)" "length ?p = ?m" using assms(1-3) by auto
  have mc: "memcpy_at (buf w) (n - 1) [0] = Some ((buf w)[n - 1 := 0])"
    using n(1) by (simp add: memcpy_at_def upd_conv_take_nth_drop)
  have tk: "take BUF_SIZE (buf w) = buf w" using assms(1) by simp
  have first: "(if 10 \<in> set (take BUF_SIZE (buf w)) then do {
          b \<leftarrow> memcpy_at (buf w) (n - 1) [0];
          Some (n - 1, True, w\<lparr>buf := b, last_chunk_filled := False\<rparr>)
        } else Some (n, False, w\<lparr>last_chunk_filled := True\<rparr>)) = Some (?m, fin, ?w1)"
    unfolding tk using mc by (auto simp: fin_def)
  have sl: "slice ?b 0 ?m = Some ?p" using n by (auto simp: slice_def)
  let ?h = "\<lparr>hdr_len = htonl (of_nat ?m), hdr_type = MSG_TYPE_NORMAL, hdr_done = (if fin then 1 else 0)\<rparr>"
  have h: "header_image ?h @ ?p = wire (?p, MSG_TYPE_NORMAL, fin)"
    using n(3) by (simp add: wire_def mk_header_def)
  have sel: "outq ?w1 = outq w" "sent ?w1 = sent w" by simp_all
  have "opened ?w1 (sfd w)" "WrAccept 0 \<notin> set (outq ?w1 (sfd w))" using assms(4,5) by simp_all
  from write_two [OF this, of "header_image ?h" ?p]
  obtain x where x: "write_all (sfd w) (header_image ?h) ?w1 = Some x"
    and X: "case x of (r1, w1) \<Rightarrow> if r1 = -1 then ?ab = None
     else ok (write_all (sfd w) ?p w1) (\<lambda>(r2, w2). if r2 = -1 then ?ab = None
     else \<exists>oq. set oq \<subseteq> set (outq w (sfd w)) \<and> ?ab = Some oq \<and>
       w2 = ?w1\<lparr>outq := (outq w)(sfd w := oq), sent := (sent w)(sfd w := sent w (sfd w) @ header_image ?h @ ?p)\<rparr>)"
    unfolding n(3) length_header_image sel by (rule okE)
  obtain r1 w2 where x2: "x = (r1, w2)" by fastforce
  note W = X [unfolded x2 prod.case]
  show ?thesis
  proof (cases "r1 = -1")
    case True
    then have "main_send n w = Some (Exit EXIT_FAILURE, w2)"
      unfolding main_send_def first using x x2 by (simp add: write_header_def)
    then show ?thesis using W True by (simp add: EXIT_FAILURE_def)
  next
    case False
    from W [unfolded if_not_P [OF False]] obtain y where y: "write_all (sfd w) ?p w2 = Some y"
      and Y: "case y of (r2, w2) \<Rightarrow> if r2 = -1 then ?ab = None
     else \<exists>oq. set oq \<subseteq> set (outq w (sfd w)) \<and> ?ab = Some oq \<and>
       w2 = ?w1\<lparr>outq := (outq w)(sfd w := oq), sent := (sent w)(sfd w := sent w (sfd w) @ header_image ?h @ ?p)\<rparr>"
      by (rule okE)
    obtain r2 w3 where y2: "y = (r2, w3)" by fastforce
    have "wrote (sfd w) (header_image ?h) 0 ?w1 r1 w2"
      using write_all_spec [of ?w1 "sfd w" "header_image ?h"] assms(4) x x2 by (simp add: ok_conv)
    then obtain o2 s2 where "w2 = ?w1\<lparr>outq := o2, sent := s2\<rparr>" unfolding wrote_def by blast
    then have w2: "sfd w2 = sfd w" "buf w2 = ?b" by simp_all
    have wp: "write_payload (sfd w2) (buf w2) ?m w2 = Some (r2, w3)"
      unfolding write_payload_def w2 sl using y y2 by simp
    have run: "main_send n w = (if r2 = -1 then Some (Exit EXIT_FAILURE, w3)
        else if disconnecting w3 = 1 then do { w4 \<leftarrow> free_info w3; Some (Break, w4) } else Some (Continue, w3))"
      unfolding main_send_def first using x x2 False wp by (simp add: write_header_def)
    show ?thesis
    proof (cases "r2 = -1")
      case True
      then show ?thesis using Y unfolding run y2 by (simp add: EXIT_FAILURE_def)
    next
      case False
      then obtain oq where oq: "set oq \<subseteq> set (outq w (sfd w))" "?ab = Some oq"
        "w3 = ?w1\<lparr>outq := (outq w)(sfd w := oq), sent := (sent w)(sfd w := sent w (sfd w) @ header_image ?h @ ?p)\<rparr>"
        using Y unfolding y2 by auto
      show ?thesis
        unfolding run oq(2) using False assms(6) oq(1) h
        by (simp add: oq(3) free_info_def sent_on_def)
    qed
  qed
qed

text \<open>Sending on a closed socket ends the client.\<close>

lemma main_send_closed:
  assumes "length (buf w) = BUF_SIZE" "0 < n" "n \<le> BUF_SIZE" "\<not> opened w (sfd w)"
  shows "ok (main_send n w) (\<lambda>(f, w'). f = Exit 1 \<and> sent w' = sent w \<and> \<not> opened w' (sfd w))"
proof -
  have "n - 1 < length (buf w)" using assms(1-3) by simp
  then have mc: "memcpy_at (buf w) (n - 1) [0] = Some ((buf w)[n - 1 := 0])"
    by (simp add: memcpy_at_def upd_conv_take_nth_drop)
  have "length (header_image h) = HEADER_SIZE" for h by simp
  then have wa: "write_all d (header_image h) v = Some (-1, v)" if "\<not> opened v d" for h d and v :: client
    using that by (simp add: write_all_def write_all_from.simps [of d] sys_write_def HEADER_SIZE_def)
  show ?thesis
    using assms(4) mc [simplified] by (auto simp: main_send_def write_header_def wa EXIT_FAILURE_def)
qed

section \<open>Typed lines\<close>

text \<open>
  What a terminal in line mode hands over: a chunk with at most one newline, at its end. \<open>typed filled cs\<close>
  excludes what the client treats differently: chunks that start with a slash, and a single byte at
  the start of a line, which it drops.
\<close>

definition tty_chunk :: "byte list \<Rightarrow> bool" where
  "tty_chunk c \<longleftrightarrow> c \<noteq> [] \<and> length c \<le> BUF_SIZE \<and> hd c \<noteq> 47 \<and> 10 \<notin> set (butlast c)"

fun typed :: "bool \<Rightarrow> byte list list \<Rightarrow> bool" where
  "typed filled [] = True"
| "typed filled (c # cs) = (tty_chunk c \<and> (filled \<or> length c \<noteq> 1) \<and> typed (last c \<noteq> 10) cs)"

definition client_frame :: "byte list \<Rightarrow> wire_msg" where
  "client_frame c = (if last c = 10 then (butlast c, MSG_TYPE_NORMAL, True) else (c, MSG_TYPE_NORMAL, False))"

definition client_idle :: "client \<Rightarrow> bool" where
  "client_idle w \<longleftrightarrow> length (buf w) = BUF_SIZE \<and> 10 \<notin> set (buf w) \<and> client_shutdown w \<noteq> 1 \<and> disconnecting w \<noteq> 1 \<and>
     opened w 0 \<and> opened w (sfd w) \<and> WrAccept 0 \<notin> set (outq w (sfd w))"

text \<open>The sizes of the writes these chunks make: a header and a payload each.\<close>

definition frame_sizes :: "byte list list \<Rightarrow> nat list" where
  "frame_sizes cs = concat (map (\<lambda>c. [HEADER_SIZE, length (fst (client_frame c))]) cs)"

lemma frame_sizes_Cons: "frame_sizes (c # cs) = frame_sizes [c] @ frame_sizes cs"
  by (simp add: frame_sizes_def)

lemma main_step_line:
  assumes idle: "client_idle w" and c: "inq w 0 = RdData c # evs" "tty_chunk c" "last_chunk_filled w \<or> length c \<noteq> 1"
  shows "ok (main_step True w) (\<lambda>(f, w').
     if absorbs (frame_sizes [c]) (outq w (sfd w)) = None then f = Exit 1
     else f = Continue \<and> client_idle w' \<and> absorbs (frame_sizes [c]) (outq w (sfd w)) = Some (outq w' (sfd w)) \<and>
     last_chunk_filled w' = (last c \<noteq> 10) \<and> inq w' 0 = evs \<and> sfd w' = sfd w \<and>
     sent w' (sfd w) = sent w (sfd w) @ wire (client_frame c))"
proof -
  let ?n = "length c"
  have n: "0 < ?n" "?n \<le> BUF_SIZE" "hd c \<noteq> 47" "10 \<notin> set (butlast c)" "c \<noteq> []"
    using c(2) by (auto simp: tty_chunk_def)
  have i: "length (buf w) = BUF_SIZE" "10 \<notin> set (buf w)" "client_shutdown w \<noteq> 1" "disconnecting w \<noteq> 1"
    "opened w 0" "opened w (sfd w)" "WrAccept 0 \<notin> set (outq w (sfd w))"
    using idle by (simp_all add: client_idle_def)
  let ?w1 = "w\<lparr>inq := (inq w)(0 := evs)\<rparr>" and ?b = "c @ drop ?n (buf w)"
  let ?w2 = "?w1\<lparr>buf := ?b\<rparr>"
  have rd: "sys_read 0 BUF_SIZE w = (Inr c, ?w1)"
    using i(5) c(1) n(2) by (simp add: sys_read_def BUF_SIZE_def)
  have mc: "memcpy_at (buf w) 0 c = Some ?b" using i(1) n(2) by (simp add: memcpy_at_def)
  have sl: "slice ?b 0 1 = Some [hd c]" using n(5) by (cases c) (simp_all add: slice_def)
  have run: "main_step True w = main_send ?n ?w2"
    using i(3) rd n mc sl c(3) by (auto simp: main_step_def)
  have cl: "c = butlast c @ [last c]" using n(5) by simp
  have dr: "10 \<notin> set (drop ?n (buf w))" using i(2) by (meson in_set_dropD)
  have fin: "10 \<in> set ?b \<longleftrightarrow> last c = 10"
    using dr n(4) by (subst cl) auto
  have lb: "length ?b = BUF_SIZE" using i(1) n(2) by simp
  have tk: "take (if last c = 10 then ?n - 1 else ?n) ?b = fst (client_frame c)"
    using n(1) by (simp add: client_frame_def butlast_conv_take)
  have nb: "10 \<notin> set (if last c = 10 then ?b[?n - 1 := 0] else ?b)"
  proof (cases "last c = 10")
    case True
    have "?b[?n - 1 := 0] = butlast c @ [0] @ drop ?n (buf w)"
      using n(5) by (cases c rule: rev_exhaust) (simp_all add: list_update_append)
    then show ?thesis using True n(4) dr by simp
  qed (use fin in simp)
  have sel: "buf ?w2 = ?b" "disconnecting ?w2 = disconnecting w" "sfd ?w2 = sfd w" "outq ?w2 = outq w" by simp_all
  have sz: "frame_sizes [c] = [HEADER_SIZE, if last c = 10 then ?n - 1 else ?n]"
    by (simp add: frame_sizes_def client_frame_def)
  have "length (buf ?w2) = BUF_SIZE" "opened ?w2 (sfd ?w2)" "WrAccept 0 \<notin> set (outq ?w2 (sfd ?w2))"
    "disconnecting ?w2 = 1 \<longrightarrow> info_live ?w2"
    using lb i by simp_all
  from main_send_spec [OF this(1) n(1,2) this(2-4), unfolded sel fin, folded sz] show ?thesis
    unfolding run
  proof (rule ok_weaken, goal_cases)
    case (1 x)
    obtain f w' where x: "x = (f, w')" by fastforce
    have fr: "client_frame c = (fst (client_frame c), MSG_TYPE_NORMAL, last c = 10)" by (simp add: client_frame_def)
    have lu: "length (if last c = 10 then ?b[?n - 1 := 0] else ?b) = BUF_SIZE" using lb by simp
    show ?case
      using 1 nb lu i unfolding x prod.case tk
      by (auto simp: sent_on_def client_idle_def fr [symmetric] simp del: length_append drop_append set_append)
  qed
qed

text \<open>The lines of a byte string: the complete ones and the unfinished rest.\<close>

fun lines :: "byte list \<Rightarrow> byte list \<Rightarrow> byte list list \<times> byte list" where
  "lines acc [] = ([], acc)"
| "lines acc (b # bs) = (if b = 10 then (let (ls, r) = lines [] bs in (acc # ls, r)) else lines (acc @ [b]) bs)"

definition raw :: "wire_msg \<Rightarrow> raw_frame" where
  "raw m = (case m of (p, ty, fin) \<Rightarrow> (p, ty, if fin then 1 else 0))"

lemma lines_append: "10 \<notin> set bs \<Longrightarrow> lines acc (bs @ r) = lines (acc @ bs) r"
  by (induction bs arbitrary: acc) auto

lemma lines_chunk:
  assumes "tty_chunk c"
  shows "lines acc (c @ r) = (if last c = 10 then (let (ls, t) = lines [] r in ((acc @ butlast c) # ls, t))
                              else lines (acc @ c) r)"
proof -
  have c: "c = butlast c @ [last c]" "10 \<notin> set (butlast c)" using assms by (simp_all add: tty_chunk_def)
  have "lines acc (c @ r) = lines acc (butlast c @ last c # r)" by (subst c(1)) simp
  also have "\<dots> = lines (acc @ butlast c) (last c # r)" using c(2) by (rule lines_append)
  also have "\<dots> = (if last c = 10 then (let (ls, t) = lines [] r in ((acc @ butlast c) # ls, t))
                  else lines (acc @ c) r)"
    using c(1) by simp
  finally show ?thesis .
qed

lemma assemble_lines:
  "typed filled cs \<Longrightarrow> assemble acc (map raw (map client_frame cs)) = lines acc (concat cs)"
proof (induction cs arbitrary: filled acc)
  case (Cons c cs)
  then have "lines acc (c @ concat cs) = (if last c = 10
      then (let (ls, t) = lines [] (concat cs) in ((acc @ butlast c) # ls, t)) else lines (acc @ c) (concat cs))"
    by (intro lines_chunk) simp
  then show ?case using Cons by (auto simp: client_frame_def raw_def)
qed simp

lemma main_lines:
  assumes "client_idle w" "inq w 0 = map RdData cs @ evs" "typed (last_chunk_filled w) cs"
  shows "ok (client_run (replicate (length cs) (MainTurn True)) True w) (\<lambda>(r, w').
     if absorbs (frame_sizes cs) (outq w (sfd w)) = None then r = Some 1
     else r = None \<and> client_idle w' \<and> inq w' 0 = evs \<and>
     sent w' (sfd w) = sent w (sfd w) @ concat (map wire (map client_frame cs)))"
  using assms
proof (induction cs arbitrary: w)
  case Nil
  then show ?case by (simp add: frame_sizes_def)
next
  case (Cons c cs)
  have pre: "inq w 0 = RdData c # map RdData cs @ evs" "tty_chunk c" "last_chunk_filled w \<or> length c \<noteq> 1"
    using Cons.prems by simp_all
  obtain x where x: "main_step True w = Some x"
    and X: "case x of (f, w') \<Rightarrow> if absorbs (frame_sizes [c]) (outq w (sfd w)) = None then f = Exit 1
     else f = Continue \<and> client_idle w' \<and> absorbs (frame_sizes [c]) (outq w (sfd w)) = Some (outq w' (sfd w)) \<and>
     last_chunk_filled w' = (last c \<noteq> 10) \<and> inq w' 0 = map RdData cs @ evs \<and> sfd w' = sfd w \<and>
     sent w' (sfd w) = sent w (sfd w) @ wire (client_frame c)"
    using main_step_line [OF Cons.prems(1) pre] by (rule okE)
  obtain f w1 where x2: "x = (f, w1)" by fastforce
  note W = X [unfolded x2 prod.case]
  note split = absorbs_append [of "frame_sizes [c]" "frame_sizes cs", folded frame_sizes_Cons]
  show ?case
  proof (cases "absorbs (frame_sizes [c]) (outq w (sfd w))")
    case None
    then show ?thesis using x x2 W by (simp add: split)
  next
    case (Some oq)
    then have w1: "f = Continue" "client_idle w1" "last_chunk_filled w1 = (last c \<noteq> 10)" "oq = outq w1 (sfd w)"
      "inq w1 0 = map RdData cs @ evs" "sfd w1 = sfd w" "sent w1 (sfd w) = sent w (sfd w) @ wire (client_frame c)"
      using W by simp_all
    have ab: "absorbs (frame_sizes (c # cs)) (outq w (sfd w)) = absorbs (frame_sizes cs) (outq w1 (sfd w1))"
      using Some w1(4,6) by (simp add: split)
    have "typed (last_chunk_filled w1) cs" using Cons.prems(3) w1(3) by simp
    from Cons.IH [OF w1(2,5) this] show ?thesis
      unfolding ab using x x2 w1 by (auto elim!: ok_weaken split: if_splits)
  qed
qed

section \<open>The listening thread\<close>

definition listener_ready :: "client \<Rightarrow> bool" where
  "listener_ready w \<longleftrightarrow> info_live w \<and> listening w \<and> opened w (sfd w) \<and> opened w 1 \<and> sfd w \<noteq> 1 \<and> memory_available w \<and>
     length (listen_header w) = HEADER_SIZE \<and> WrAccept 0 \<notin> set (outq w 1)"

text \<open>A frame that is there arrives whole, its payload in a buffer of its own.\<close>

lemma listen_reads:
  assumes w: "listener_ready w" and f: "avail (inq w (sfd w)) = wire (p, ty, fin) @ rest" "wf_msg (p, ty, fin)"
  obtains w2 w3 where
    "read_header (sfd w) w = Some ((int HEADER_SIZE, header_image (mk_header (length p) ty fin)), w2)"
    "read_payload (sfd w) (length p) (w2\<lparr>listen_header := header_image (mk_header (length p) ty fin)\<rparr>)
       = Some ((int (length p), Some (p @ [0])), w3)"
    "avail (inq w3 (sfd w)) = rest"
    "w3 = w\<lparr>listen_header := header_image (mk_header (length p) ty fin),
        inq := (inq w)(sfd w := inq w3 (sfd w)), mallocs := tl (mallocs w), live_bufs := live_bufs w + 1\<rparr>"
    "sfd w2 = sfd w" "listen_header w2 = listen_header w"
proof -
  let ?h = "mk_header (length p) ty fin" and ?d = "sfd w"
  have r: "opened w ?d" "memory_available w" using w by (simp_all add: listener_ready_def)
  have len: "length p < 2 ^ 32" using f(2) by (simp add: wf_msg_def)
  have "ok (read_header ?d w) (\<lambda>((r, out), w').
          r = int HEADER_SIZE \<and> out = header_image ?h \<and> avail (inq w' ?d) = p @ rest \<and>
          w' = w\<lparr>inq := (inq w)(?d := inq w' ?d)\<rparr>)"
    unfolding read_header_def
    by (rule ok_weaken [OF read_all_spec]) (use r f in \<open>auto simp: wire_def\<close>)
  then obtain w2 where rh: "read_header ?d w = Some ((int HEADER_SIZE, header_image ?h), w2)"
    "avail (inq w2 ?d) = p @ rest" and "w2 = w\<lparr>inq := (inq w)(?d := inq w2 ?d)\<rparr>"
    by (auto simp: ok_conv)
  then obtain q where w2: "w2 = w\<lparr>inq := (inq w)(?d := q)\<rparr>" by blast
  let ?w2 = "w2\<lparr>listen_header := header_image ?h\<rparr>"
  have "opened ?w2 ?d" "memory_available ?w2" "length p \<le> length (avail (inq ?w2 ?d))"
    using r rh(2) by (simp_all add: w2 memory_available_def)
  from read_payload_spec [OF this(1,2) len this(3)]
  obtain w3 where rp: "read_payload ?d (length p) ?w2 = Some ((int (length p), Some (p @ [0])), w3)"
    "avail (inq w3 ?d) = rest"
    and "w3 = ?w2\<lparr>inq := (inq ?w2)(?d := inq w3 ?d), mallocs := tl (mallocs ?w2), live_bufs := live_bufs ?w2 + 1\<rparr>"
    using rh(2) by (auto simp: ok_conv)
  then obtain q3 where w3: "w3 = ?w2\<lparr>inq := (inq ?w2)(?d := q3), mallocs := tl (mallocs ?w2), live_bufs := live_bufs ?w2 + 1\<rparr>"
    "q3 = inq w3 ?d" by blast
  have "w3 = w\<lparr>listen_header := header_image ?h,
        inq := (inq w)(?d := inq w3 ?d), mallocs := tl (mallocs w), live_bufs := live_bufs w + 1\<rparr>"
    unfolding w3(2) [symmetric] unfolding w3(1) by (simp add: w2)
  then show ?thesis using that [OF rh(1) rp] w2 by simp
qed

lemma cstr_shutdown: "cstr shutdown_message = shutdown_text"
  by (simp add: shutdown_message_def shutdown_text_def cstr_bytes_of)

text \<open>The outcomes of an iteration that meets a whole frame: no payload, the announcement, and the rest.\<close>

definition listened :: "byte list \<Rightarrow> client \<Rightarrow> bool \<Rightarrow> client \<Rightarrow> bool" where
  "listened p w go w' \<longleftrightarrow> sfd w' = sfd w \<and> live_bufs w' = live_bufs w \<and>
     (if p = [] then \<not> go \<and> \<not> listening w' \<and> \<not> info_live w' \<and> client_shutdown w' = client_shutdown w \<and> sent w' = sent w
      else if cstr (p @ [0]) = shutdown_text
      then \<not> go \<and> \<not> listening w' \<and> \<not> info_live w' \<and> client_shutdown w' = 1 \<and> sent w' = sent w
      else if absorb (length p) (outq w 1) = None then \<not> go \<and> \<not> listening w' \<and> client_shutdown w' = 1
      else go \<and> listener_ready w' \<and> client_shutdown w' = client_shutdown w \<and> sent w' 1 = sent w 1 @ p \<and>
        absorb (length p) (outq w 1) = Some (outq w' 1))"

lemma listen_step_frame:
  assumes w: "listener_ready w" and f: "avail (inq w (sfd w)) = wire (p, ty, fin) @ rest" "wf_msg (p, ty, fin)"
  shows "ok (listen_step w) (\<lambda>(go, w'). listened p w go w' \<and> avail (inq w' (sfd w)) = rest)"
proof -
  let ?h = "mk_header (length p) ty fin"
  obtain w2 w3 where rh: "read_header (sfd w) w = Some ((int HEADER_SIZE, header_image ?h), w2)"
    and rp: "read_payload (sfd w) (length p) (w2\<lparr>listen_header := header_image ?h\<rparr>)
       = Some ((int (length p), Some (p @ [0])), w3)"
    and av: "avail (inq w3 (sfd w)) = rest"
    and w3: "w3 = w\<lparr>listen_header := header_image ?h,
        inq := (inq w)(sfd w := inq w3 (sfd w)), mallocs := tl (mallocs w), live_bufs := live_bufs w + 1\<rparr>"
    and w2: "sfd w2 = sfd w" "listen_header w2 = listen_header w"
    using listen_reads [OF w f] .
  obtain q where w3: "w3 = w\<lparr>listen_header := header_image ?h,
        inq := (inq w)(sfd w := q), mallocs := tl (mallocs w), live_bufs := live_bufs w + 1\<rparr>"
    using w3 by blast
  have r: "info_live w" "listening w" "opened w 1" "sfd w \<noteq> 1" "length (listen_header w) = HEADER_SIZE"
    "WrAccept 0 \<notin> set (outq w 1)" "opened w (sfd w)" "memory_available w"
    using w by (simp_all add: listener_ready_def)
  have mc: "memcpy_at (listen_header w2) 0 (header_image ?h) = Some (header_image ?h)"
    using r(5) w2(2) by (simp add: memcpy_at_def)
  have n: "unat (ntohl (hdr_len ?h)) = length p" using f(2) by (simp add: wf_msg_def)
  let ?rest = "(if length p = 0 then do { w4 \<leftarrow> free_info (free_buf (Some (p @ [0])) w3); stop_listening w4 }
          else do {
            bye \<leftarrow> strcmp_eq (p @ [0]) shutdown_message;
            if bye then do {
              w4 \<leftarrow> free_info (free_buf (Some (p @ [0])) (w3\<lparr>client_shutdown := 1\<rparr>));
              stop_listening w4
            } else do {
              (r3, w4) \<leftarrow> write_payload 1 (p @ [0]) (nat (int (length p))) w3;
              if r3 = -1 then do {
                w5 \<leftarrow> free_info (free_buf (Some (p @ [0])) w4);
                stop_listening (w5\<lparr>client_shutdown := 1\<rparr>)
              } else Some (True, free_buf (Some (p @ [0])) w4)
            }
          })"
  have run: "listen_step w = ?rest"
    using r(1) rh mc rp w2 n by (simp add: listen_step_def HEADER_SIZE_def)
  have sc: "strcmp_eq (p @ [0]) shutdown_message = Some (cstr (p @ [0]) = shutdown_text)"
  proof -
    have z: "0 \<in> set (p @ [0])" "0 \<in> set shutdown_message" by (simp_all add: shutdown_message_def)
    show ?thesis using strcmp_eq_terminated [OF z] by (simp only: cstr_shutdown)
  qed
  have av3: "avail q = rest" using av by (simp add: w3)
  show ?thesis
  proof (cases "p = [] \<or> cstr (p @ [0]) = shutdown_text")
    case True
    then show ?thesis
      unfolding run sc using r av3
      by (auto simp: w3 free_info_def free_buf_def stop_listening_def listened_def)
  next
    case False
    have sl: "slice (p @ [0]) 0 (length p) = Some p" by (simp add: slice_def)
    have "opened w3 1" using r(3) by (simp add: w3)
    moreover have "WrAccept 0 \<notin> set (outq w3 1)" using r(6) by (simp add: w3)
    ultimately obtain r3 w4 where wr: "write_all 1 p w3 = Some (r3, w4)"
      and W: "if r3 = -1 then absorb (length p) (outq w3 1) = None
        else \<exists>oq. set oq \<subseteq> set (outq w3 1) \<and> absorb (length p) (outq w3 1) = Some oq \<and>
          w4 = w3\<lparr>outq := (outq w3)(1 := oq), sent := (sent w3)(1 := sent w3 1 @ p)\<rparr>"
      using write_exact [of w3 1 p] by (auto elim!: okE)
    have "wrote 1 p 0 w3 r3 w4" using write_all_spec [OF \<open>opened w3 1\<close>, of p] wr by simp
    then have "w4 = w3\<lparr>outq := (outq w3)(1 := outq w4 1), sent := (sent w3)(1 := sent w4 1)\<rparr>"
      by (simp add: wrote_def)
    then obtain o4 s4 where w4: "w4 = w3\<lparr>outq := (outq w3)(1 := o4), sent := (sent w3)(1 := s4)\<rparr>" by blast
    have out: "if r3 = -1 then absorb (length p) (outq w 1) = None
        else set o4 \<subseteq> set (outq w 1) \<and> absorb (length p) (outq w 1) = Some o4 \<and> s4 = sent w 1 @ p"
    proof (cases "r3 = -1")
      case False
      then obtain oq where oq: "set oq \<subseteq> set (outq w 1)" "absorb (length p) (outq w 1) = Some oq"
        "w4 = w3\<lparr>outq := (outq w3)(1 := oq), sent := (sent w3)(1 := sent w3 1 @ p)\<rparr>"
        using W by (auto simp: w3)
      have "outq w4 1 = oq" "sent w4 1 = sent w 1 @ p" unfolding oq(3) by (simp_all add: w3)
      then show ?thesis using False oq(1,2) by (simp add: w4)
    qed (use W in \<open>simp add: w3\<close>)
    have run2: "listen_step w = (if r3 = -1 then do {
                w5 \<leftarrow> free_info (free_buf (Some (p @ [0])) w4);
                stop_listening (w5\<lparr>client_shutdown := 1\<rparr>)
              } else Some (True, free_buf (Some (p @ [0])) w4))"
      unfolding run sc using False wr sl by (simp add: write_payload_def)
    show ?thesis
    proof (cases "r3 = -1")
      case True
      then have "absorb (length p) (outq w 1) = None" using out by simp
      then show ?thesis
        unfolding run2 using False r av3 True
        by (simp add: w4 w3 free_info_def free_buf_def stop_listening_def listened_def)
    next
      case ne: False
      then have "absorb (length p) (outq w 1) = Some o4" "WrAccept 0 \<notin> set o4" "s4 = sent w 1 @ p"
        using out r(6) by auto
      moreover have "memory_available (w\<lparr>mallocs := tl (mallocs w)\<rparr>)" using r(8) by simp
      ultimately show ?thesis
        unfolding run2 using False r av3 ne
        by (simp add: w4 w3 free_buf_def listened_def listener_ready_def memory_available_def)
    qed
  qed
qed

section \<open>Properties\<close>


definition client0 :: client where
  "client0 = os.extend (os0\<lparr>opened := (\<lambda>d. d \<in> {0, 1, 3}), outq := (\<lambda>_. [WrAccept 100, WrAccept 100])\<rparr>)
     \<lparr>sfd = 3, info_live = True, client_shutdown = 0, buf = replicate BUF_SIZE 0, last_chunk_filled = False,
      disconnecting = 0, listening = True, listen_header = replicate HEADER_SIZE 0\<rparr>"

lemma client0_sel [simp]:
  "sfd client0 = 3" "info_live client0" "client_shutdown client0 = 0" "buf client0 = replicate BUF_SIZE 0"
  "\<not> last_chunk_filled client0" "disconnecting client0 = 0" "listening client0"
  "listen_header client0 = replicate HEADER_SIZE 0" "opened client0 d = (d \<in> {0, 1, 3})"
  "outq client0 d = [WrAccept 100, WrAccept 100]" "sent client0 d = []" "inq client0 d = []" "mallocs client0 = []"
  by (simp_all add: client0_def os.defs os0_def)


text \<open>The listening thread over a stream of frames; \<open>ts\<close> is what happens afterwards.\<close>

lemma listener_prints:
  assumes "listener_ready w" "avail (inq w (sfd w)) = concat (map wire ms) @ rest"
    and "\<forall>m \<in> set ms. wf_msg m \<and> fst m \<noteq> [] \<and> cstr (fst m @ [0]) \<noteq> shutdown_text"
  shows "\<exists>w'. (\<forall>ts. client_run (replicate (length ms) ListenTurn @ ts) True w = client_run ts True w') \<and>
     sfd w' = sfd w \<and> live_bufs w' = live_bufs w \<and>
     (if absorbs (map (\<lambda>m. length (fst m)) ms) (outq w 1) = None then client_shutdown w' = 1 \<and> \<not> listening w'
      else client_shutdown w' = client_shutdown w \<and> sent w' 1 = sent w 1 @ concat (map fst ms) \<and>
        avail (inq w' (sfd w)) = rest \<and> listener_ready w' \<and>
        absorbs (map (\<lambda>m. length (fst m)) ms) (outq w 1) = Some (outq w' 1))"
  using assms
proof (induction ms arbitrary: w)
  case Nil
  then show ?case by (intro exI [of _ w]) simp
next
  case (Cons m ms)
  obtain p ty fin where m: "m = (p, ty, fin)" by (cases m)
  have li: "listening w" using Cons.prems(1) by (simp add: listener_ready_def)
  have f: "avail (inq w (sfd w)) = wire (p, ty, fin) @ concat (map wire ms) @ rest" "wf_msg (p, ty, fin)"
    "p \<noteq> []" "cstr (p @ [0]) \<noteq> shutdown_text"
    using Cons.prems(2,3) m by simp_all
  obtain x where x: "listen_step w = Some x"
    and X: "case x of (go, w') \<Rightarrow> listened p w go w' \<and> avail (inq w' (sfd w)) = concat (map wire ms) @ rest"
    using listen_step_frame [OF Cons.prems(1) f(1,2)] by (rule okE)
  obtain go w1 where x2: "x = (go, w1)" by fastforce
  have L: "sfd w1 = sfd w" "live_bufs w1 = live_bufs w" "avail (inq w1 (sfd w)) = concat (map wire ms) @ rest"
    "if absorb (length p) (outq w 1) = None then \<not> go \<and> \<not> listening w1 \<and> client_shutdown w1 = 1
      else go \<and> listener_ready w1 \<and> client_shutdown w1 = client_shutdown w \<and> sent w1 1 = sent w 1 @ p \<and>
        absorb (length p) (outq w 1) = Some (outq w1 1)"
    using X f(3,4) by (simp_all add: x2 listened_def)
  have run: "client_run (replicate (length (m # ms)) ListenTurn @ ts) True w
      = client_run (replicate (length ms) ListenTurn @ ts) True w1" for ts
    using li x x2 by simp
  show ?case
  proof (cases "absorb (length p) (outq w 1)")
    case None
    then have off: "\<not> listening w1" "client_shutdown w1 = 1" using L(4) by simp_all
    then have "client_run (replicate k ListenTurn @ ts) True w1 = client_run ts True w1" for k ts
      by (induction k) simp_all
    then show ?thesis
      unfolding run using None off L m by (intro exI [of _ w1]) simp
  next
    case (Some oq)
    then have w1: "listener_ready w1" "sent w1 1 = sent w 1 @ p" "client_shutdown w1 = client_shutdown w" "oq = outq w1 1"
      using L(4) by simp_all
    have ab: "absorbs (map (\<lambda>m. length (fst m)) (m # ms)) (outq w 1) = absorbs (map (\<lambda>m. length (fst m)) ms) (outq w1 1)"
      using Some w1(4) m by simp
    obtain w' where "\<And>ts. client_run (replicate (length ms) ListenTurn @ ts) True w1 = client_run ts True w'"
      "sfd w' = sfd w1" "live_bufs w' = live_bufs w1"
      "if absorbs (map (\<lambda>m. length (fst m)) ms) (outq w1 1) = None then client_shutdown w' = 1 \<and> \<not> listening w'
      else client_shutdown w' = client_shutdown w1 \<and> sent w' 1 = sent w1 1 @ concat (map fst ms) \<and>
        avail (inq w' (sfd w1)) = rest \<and> listener_ready w' \<and>
        absorbs (map (\<lambda>m. length (fst m)) ms) (outq w1 1) = Some (outq w' 1)"
      using Cons.IH [of w1] Cons.prems(3) L(1,3) w1(1) by auto
    then show ?thesis
      unfolding run ab using w1 L(1,2) m by (intro exI [of _ w']) (simp split: if_splits)
  qed
qed


lemma client0_listener:
  "listener_ready (client0\<lparr>inq := q\<rparr>)"
  by (simp add: listener_ready_def memory_available_def)


text \<open>
  Claim C35. The announcement of the server ends the client. When the next frame is the shutdown
  announcement, the listening thread stops and frees its block, \<open>main\<close> leaves its loop on its next turn
  without reading its input, and the process ends with status 0.
\<close>

theorem announcement_ends_client:
  assumes "listener_ready w" "avail (inq w (sfd w)) = normal_frame shutdown_text @ rest"
  shows "ok (client_run [ListenTurn, MainTurn ready] True w) (\<lambda>(r, w'). r = Some 0 \<and> sent w' = sent w \<and>
     \<not> info_live w' \<and> live_bufs w' = live_bufs w)"
proof -
  have li: "listening w" using assms(1) by (simp add: listener_ready_def)
  have f: "avail (inq w (sfd w)) = wire (shutdown_text, MSG_TYPE_NORMAL, True) @ rest"
    "wf_msg (shutdown_text, MSG_TYPE_NORMAL, True)" "shutdown_text \<noteq> []" "cstr (shutdown_text @ [0]) = shutdown_text"
    using assms(2) cstr_shutdown
    by (simp_all add: normal_frame_def wf_msg_def shutdown_text_def bytes_of_def cstr_def)
  obtain x where x: "listen_step w = Some x"
    and X: "case x of (go, w') \<Rightarrow> listened shutdown_text w go w' \<and> avail (inq w' (sfd w)) = rest"
    using listen_step_frame [OF assms(1) f(1,2)] by (rule okE)
  obtain go w1 where x2: "x = (go, w1)" by fastforce
  have "\<not> listening w1" "client_shutdown w1 = 1" "sent w1 = sent w" "\<not> info_live w1" "live_bufs w1 = live_bufs w"
    using X f(3,4) by (simp_all add: x2 listened_def)
  then show ?thesis using li x x2 by (simp add: main_step_def)
qed

theorem announcement_ends_client_witness:
  "ok (client_run [ListenTurn, MainTurn True] True (client0\<lparr>inq := (\<lambda>_. [RdData (normal_frame shutdown_text)])\<rparr>))
     (\<lambda>(r, w'). r = Some 0)"
  using announcement_ends_client [OF client0_listener, of "\<lambda>_. [RdData (normal_frame shutdown_text)]" "[]" True]
  by (auto elim!: ok_weaken simp: normal_frame_def wire_def)

text \<open>
  Claim C37. A frame without payload silences the client. The server sends one for every unnamed client in
  a listing; the listening thread takes the length 0 for an error, stops and frees its block, but the
  flag is not raised, so that \<open>main\<close> goes on with nobody printing what arrives.
\<close>

theorem empty_frame_stops_listener:
  assumes "listener_ready w" "client_shutdown w \<noteq> 1" "avail (inq w (sfd w)) = wire ([], ty, fin) @ rest"
  shows "ok (client_run (ListenTurn # ListenTurn # [MainTurn False]) True w) (\<lambda>(r, w'). r = None \<and> \<not> listening w' \<and>
     client_shutdown w' \<noteq> 1 \<and> avail (inq w' (sfd w)) = rest \<and> sent w' = sent w)"
proof -
  have li: "listening w" using assms(1) by (simp add: listener_ready_def)
  have "wf_msg ([], ty, fin)" by (simp add: wf_msg_def)
  then obtain x where x: "listen_step w = Some x"
    and X: "case x of (go, w') \<Rightarrow> listened [] w go w' \<and> avail (inq w' (sfd w)) = rest"
    using listen_step_frame [OF assms(1,3)] by (blast elim: okE)
  obtain go w1 where x2: "x = (go, w1)" by fastforce
  have "\<not> listening w1" "client_shutdown w1 = client_shutdown w" "sent w1 = sent w" "avail (inq w1 (sfd w)) = rest"
    using X by (simp_all add: x2 listened_def)
  then show ?thesis using li x x2 assms(2) by (simp add: main_step_def)
qed

theorem empty_frame_stops_listener_witness:
  "ok (client_run [ListenTurn, ListenTurn, MainTurn False] True (client0\<lparr>inq := (\<lambda>_. [RdData (wire ([], 1, True) @ wire ([72], 0, True))])\<rparr>))
     (\<lambda>(r, w'). r = None \<and> sent w' 1 = [])"
  using empty_frame_stops_listener [OF client0_listener, of "\<lambda>_. [RdData (wire ([], 1, True) @ wire ([72], 0, True))]" 1 True "wire ([72], 0, True)"]
  by (auto elim!: ok_weaken simp: wire_def)

text \<open>A chunk that starts with a slash reaches the command code.\<close>

lemma main_step_command:
  assumes "client_shutdown w \<noteq> 1" "opened w 0" "length (buf w) = BUF_SIZE" "inq w 0 = RdData (47 # c) # evs"
    and "length c < BUF_SIZE"
  defines "w1 \<equiv> w\<lparr>inq := (inq w)(0 := evs), buf := (47 # c) @ drop (Suc (length c)) (buf w)\<rparr>"
  shows "main_step True w = do {
     w2 \<leftarrow> main_command (Suc (length c)) w1;
     if c = [] \<and> \<not> last_chunk_filled w2 then Some (Continue, w2) else main_send (Suc (length c)) w2 }"
proof -
  have "sys_read 0 BUF_SIZE w = (Inr (47 # c), w\<lparr>inq := (inq w)(0 := evs)\<rparr>)"
    using assms(2,4,5) by (simp add: sys_read_def BUF_SIZE_def)
  moreover have "memcpy_at (buf w) 0 (47 # c) = Some ((47 # c) @ drop (Suc (length c)) (buf w))"
    using assms(3,5) by (simp add: memcpy_at_def)
  ultimately show ?thesis
    using assms(1) by (simp add: main_step_def slice_def w1_def cong: if_cong)
qed

text \<open>The command code on a line: the copy, its token in lower case, and the command it names.\<close>

lemma main_command_line:
  assumes "memory_available w" "Suc (length c) \<le> length (buf w)" "Suc (length c) \<le> BUF_SIZE"
    and "take (Suc (length c)) (buf w) = c @ [10]" "0 \<notin> set c" "32 \<notin> set c" "c \<noteq> []" "find_command (map lower_byte c @ [0]) = Some k"
  defines "w1 \<equiv> w\<lparr>mallocs := tl (mallocs w), live_bufs := live_bufs w + 1\<rparr>"
  shows "main_command (Suc (length c)) w = (case
      (case k of CMD_QUIT \<Rightarrow> handle_quit (sfd w) w1 | CMD_SHUTDOWN \<Rightarrow> (CMD_DISCONNECT, w1) | _ \<Rightarrow> (CMD_OK, w1)) of
      (res, w2) \<Rightarrow> (let w3 = w2\<lparr>live_bufs := live_bufs w2 - 1\<rparr>
        in Some (if res = CMD_ERROR \<or> res = CMD_DISCONNECT then w3\<lparr>disconnecting := 1\<rparr> else w3)))"
proof -
  let ?n = "Suc (length c)"
  have m: "malloc_buf ?n w = (Some (map (junk w) [0..<?n]), w1)"
    using assms(1,3) unfolding w1_def
    by (intro malloc_buf_available) (simp_all add: BUF_SIZE_def PTRDIFF_MAX_def)
  have sl: "slice (buf w1) 0 ?n = Some (c @ [10])" using assms(2,4) by (simp add: slice_def w1_def)
  have mc: "memcpy_at (map (junk w) [0..<?n]) 0 (c @ [10]) = Some (c @ [10])"
    by (simp add: memcpy_at_def del: upt_Suc)
  have mc2: "memcpy_at (c @ [10]) (length c) [0] = Some (c @ [0])" by (simp add: memcpy_at_def)
  have dw: "dropWhile (\<lambda>b. b = 32) (c @ [0]) = c @ [0]" using assms(6,7) by (cases c) auto
  have tw: "takeWhile (\<lambda>b. b \<noteq> 32 \<and> b \<noteq> 0) (c @ [0]) = c"
    using assms(5,6) by (induction c) auto
  have "strtok_r (c @ [0]) = Some (Some c, [0])"
    using dw tw assms(5,6,7) by (cases c) (simp_all add: strtok_r_def)
  moreover have "strlen_c (c @ [0]) = Some (length c)"
    using assms(5) cstr_append_NUL [of c "[]"] by (simp add: strlen_c_eq)
  moreover have "make_lowercase (c @ [0]) (length c) = Some (map lower_byte c @ [0])"
    by (simp add: make_lowercase_def)
  moreover have "sfd w1 = sfd w" by (simp add: w1_def)
  ultimately show ?thesis
    unfolding main_command_def m
    using sl mc mc2 assms(8)
    by (cases k) (simp_all add: client_handle_command_def client_handle_unknown_def free_buf_def del: upt_Suc
        split: prod.splits)
qed

lemma lower_byte_slash: "lower_byte b = 47 \<Longrightarrow> b = 47"
proof (cases "65 \<le> b \<and> b \<le> 90")
  case True
  assume "lower_byte b = 47"
  then have "b + 32 = 47" using True by (simp add: lower_byte_def)
  then have "b = 47 - 32" by (metis add_diff_cancel_right')
  then show ?thesis using True by simp
qed (simp add: lower_byte_def split: if_splits)

lemma command_bytes:
  assumes "map lower_byte c = bytes_of s" "0 \<notin> set (bytes_of s)" "32 \<notin> set (bytes_of s)" "bytes_of s = 47 # r"
  shows "0 \<notin> set c" "32 \<notin> set c" "\<exists>c'. c = 47 # c'"
proof -
  have "lower_byte 0 = 0" "lower_byte 32 = 32" by (simp_all add: lower_byte_def)
  then show "0 \<notin> set c" "32 \<notin> set c"
    using assms(1-3) imageI [of 0 "set c" lower_byte] imageI [of 32 "set c" lower_byte]
    by (metis list.set_map)+
  show "\<exists>c'. c = 47 # c'" using assms(1,4) lower_byte_slash by (cases c) auto
qed

text \<open>What an iteration does on a line that is a command: the command, then the line itself.\<close>

lemma main_step_typed:
  assumes "client_idle w" "memory_available w" "inq w 0 = RdData (c @ [10]) # evs" "Suc (length c) \<le> BUF_SIZE"
    and c: "0 \<notin> set c" "32 \<notin> set c" "\<exists>c'. c = 47 # c'" "find_command (map lower_byte c @ [0]) = Some k"
  defines "v \<equiv> w\<lparr>inq := (inq w)(0 := evs), buf := c @ 10 # drop (Suc (length c)) (buf w),
      mallocs := tl (mallocs w), live_bufs := live_bufs w + 1\<rparr>"
  shows "main_step True w = (case
      (case k of CMD_QUIT \<Rightarrow> handle_quit (sfd w) v | CMD_SHUTDOWN \<Rightarrow> (CMD_DISCONNECT, v) | _ \<Rightarrow> (CMD_OK, v)) of
      (res, w2) \<Rightarrow> (let w3 = w2\<lparr>live_bufs := live_bufs w2 - 1\<rparr>
        in main_send (Suc (length c)) (if res = CMD_ERROR \<or> res = CMD_DISCONNECT then w3\<lparr>disconnecting := 1\<rparr> else w3)))"
proof -
  obtain c' where c': "c = 47 # c'" using c(3) ..
  have i: "length (buf w) = BUF_SIZE" "client_shutdown w \<noteq> 1" "opened w 0"
    using assms(1) by (simp_all add: client_idle_def)
  define w1 where "w1 = w\<lparr>inq := (inq w)(0 := evs), buf := c @ 10 # drop (Suc (length c)) (buf w)\<rparr>"
  have w1: "memory_available w1" "length (buf w1) = BUF_SIZE" "sfd w1 = sfd w"
    "v = w1\<lparr>mallocs := tl (mallocs w1), live_bufs := live_bufs w1 + 1\<rparr>"
    using assms(2,4) i(1) by (simp_all add: w1_def v_def memory_available_def)
  have "main_step True w = do { w2 \<leftarrow> main_command (Suc (length (c' @ [10]))) w1;
      if c' @ [10] = [] \<and> \<not> last_chunk_filled w2 then Some (Continue, w2)
      else main_send (Suc (length (c' @ [10]))) w2 }"
    using main_step_command [of w "c' @ [10]" evs] i assms(3,4) c' by (simp add: w1_def)
  then have step: "main_step True w = do { w2 \<leftarrow> main_command (Suc (length c)) w1; main_send (Suc (length c)) w2 }"
    using c' by simp
  have "main_command (Suc (length c)) w1 = (case (case k of CMD_QUIT \<Rightarrow> handle_quit (sfd w1) v
        | CMD_SHUTDOWN \<Rightarrow> (CMD_DISCONNECT, v) | _ \<Rightarrow> (CMD_OK, v)) of
      (res, w2) \<Rightarrow> (let w3 = w2\<lparr>live_bufs := live_bufs w2 - 1\<rparr>
        in Some (if res = CMD_ERROR \<or> res = CMD_DISCONNECT then w3\<lparr>disconnecting := 1\<rparr> else w3)))"
    unfolding w1(4)
  proof (rule main_command_line)
    show "Suc (length c) \<le> length (buf w1)" using w1(2) assms(4) by simp
    show "take (Suc (length c)) (buf w1) = c @ [10]" by (simp add: w1_def)
    show "c \<noteq> []" using c' by simp
  qed (fact w1(1) assms(4) c)+
  then show ?thesis unfolding step w1(3) by (simp add: Let_def split: prod.split)
qed

text \<open>
  Claim C38. Quitting ends in an error. On \<open>/quit\<close>, in any case, the client closes its socket and then tries
  to send the line on it; the write fails and the client exits with status 1, having sent nothing.
\<close>

theorem quit_exits_with_failure:
  assumes "client_idle w" "memory_available w" "map lower_byte c = bytes_of ''/quit''"
    and "inq w 0 = RdData (c @ [10]) # evs"
  shows "ok (main_step True w) (\<lambda>(f, w'). f = Exit 1 \<and> sent w' = sent w \<and> \<not> opened w' (sfd w))"
proof -
  have c: "0 \<notin> set c" "32 \<notin> set c" "\<exists>c'. c = 47 # c'"
    using command_bytes [OF assms(3)] by (simp_all add: bytes_of_def)
  have len: "length c = 5" using arg_cong [OF assms(3), of length] by (simp add: bytes_of_def)
  have i: "length (buf w) = BUF_SIZE" "opened w (sfd w)" using assms(1) by (simp_all add: client_idle_def)
  define v where "v = w\<lparr>inq := (inq w)(0 := evs), buf := c @ 10 # drop 6 (buf w),
      mallocs := tl (mallocs w), live_bufs := live_bufs w + 1\<rparr>"
  obtain res v2 where hq: "handle_quit (sfd w) v = (res, v2)" by fastforce
  define w4 where "w4 = (if res = CMD_ERROR \<or> res = CMD_DISCONNECT
    then v2\<lparr>live_bufs := live_bufs v2 - 1, disconnecting := 1\<rparr> else v2\<lparr>live_bufs := live_bufs v2 - 1\<rparr>)"
  have "length (buf v) = BUF_SIZE" using i len by (simp add: v_def BUF_SIZE_def)
  then have w4: "\<not> opened w4 (sfd w4)" "sent w4 = sent w" "sfd w4 = sfd w" "length (buf w4) = BUF_SIZE"
    using hq i by (auto simp: handle_quit_def sys_close_def Let_def v_def w4_def split: prod.splits if_splits)
  have "find_command (map lower_byte c @ [0]) = Some CMD_QUIT" using assms(3) by (simp add: find_command_eq)
  from main_step_typed [OF assms(1,2,4) _ c this] have "main_step True w = main_send 6 w4"
    using len hq by (simp add: BUF_SIZE_def v_def [symmetric] w4_def Let_def)
  moreover have "ok (main_send 6 w4) (\<lambda>(f, w'). f = Exit 1 \<and> sent w' = sent w4 \<and> \<not> opened w' (sfd w4))"
    using w4(1,4) by (intro main_send_closed) (simp_all add: BUF_SIZE_def)
  ultimately show ?thesis using w4(2,3) by simp
qed

theorem quit_exits_with_failure_witness:
  "ok (main_step True (client0\<lparr>inq := (\<lambda>_. [RdData [47, 81, 117, 105, 116, 10]])\<rparr>))
     (\<lambda>(f, w'). f = Exit 1 \<and> sent w' 3 = [])"
proof -
  let ?w = "client0\<lparr>inq := (\<lambda>_. [RdData [47, 81, 117, 105, 116, 10]])\<rparr>"
  have "client_idle ?w" "memory_available ?w" by (simp_all add: client_idle_def BUF_SIZE_def memory_available_def)
  moreover have "map lower_byte [47, 81, 117, 105, 116] = bytes_of ''/quit''"
    by (simp add: lower_byte_def bytes_of_def)
  moreover have "inq ?w 0 = RdData ([47, 81, 117, 105, 116] @ [10]) # []" by simp
  ultimately show ?thesis
    using quit_exits_with_failure [of ?w "[47, 81, 117, 105, 116]" "[]"] by (auto elim!: ok_weaken)
qed

text \<open>
  A slash alone, without its newline, stops the client: the only byte of its copy is replaced by
  the terminator, so that the tokenizer has nothing to return, and the length of what it returned is
  asked for all the same.
\<close>

theorem lone_slash_has_no_outcome:
  assumes "client_idle w" "memory_available w" "inq w 0 = RdData [47] # evs"
  shows "main_step True w = None"
proof -
  define w1 where "w1 = w\<lparr>inq := (inq w)(0 := evs), buf := (47 # []) @ drop (Suc (length ([] :: byte list))) (buf w)\<rparr>"
  have "main_step True w = do { w2 \<leftarrow> main_command (Suc (length ([] :: byte list))) w1;
      if ([] :: byte list) = [] \<and> \<not> last_chunk_filled w2 then Some (Continue, w2)
      else main_send (Suc (length ([] :: byte list))) w2 }"
    unfolding w1_def by (rule main_step_command) (use assms in \<open>simp_all add: client_idle_def BUF_SIZE_def\<close>)
  moreover have "memory_available w1" using assms(2) by (simp add: w1_def memory_available_def)
  then have "malloc_buf 1 w1 = (Some (map (junk w1) [0..<1]), w1\<lparr>mallocs := tl (mallocs w1), live_bufs := live_bufs w1 + 1\<rparr>)"
    by (intro malloc_buf_available) (simp_all add: PTRDIFF_MAX_def)
  then have "main_command 1 w1 = None"
    by (simp add: main_command_def slice_def memcpy_at_def strtok_r_def w1_def)
  ultimately show ?thesis by simp
qed

theorem lone_slash_has_no_outcome_witness:
  "main_step True (client0\<lparr>inq := (\<lambda>_. [RdData [47]])\<rparr>) = None"
  by (rule lone_slash_has_no_outcome [where evs = "[]"])
     (simp_all add: client_idle_def BUF_SIZE_def memory_available_def)



end
