(* ===== verification/Chat_Session.thy ===== *)
theory Chat_Session
  imports Chat_Client
begin

text \<open>
  The two programs together: what a user types into the client (src/client/client.c) against what
  the reader of the server (src/server/handle_client_read.c) hands to the message code.
\<close>

section \<open>Frames on the wire\<close>

lemma wire_raw: "wire m = raw_bytes (raw m)"
  by (cases m) (simp add: wire_def raw_bytes_def raw_def mk_header_def raw_header_def)

lemma raw_length: "fst (raw m) = fst m"
  by (cases m) (simp add: raw_def)

lemma raw_frames_prefix:
  assumes "concat (map raw_bytes fs) @ x = concat (map raw_bytes gs)"
    and "\<forall>f \<in> set fs. length (fst f) < 2 ^ 32" "\<forall>g \<in> set gs. length (fst g) < 2 ^ 32"
  shows "\<exists>hs. gs = fs @ hs \<and> x = concat (map raw_bytes hs)"
  using assms
proof (induction fs arbitrary: gs)
  case (Cons f fs)
  then obtain g gs' where gs: "gs = g # gs'" by (cases gs) auto
  have "raw_bytes f @ (concat (map raw_bytes fs) @ x) = raw_bytes g @ concat (map raw_bytes gs')"
    using Cons.prems(1) by (simp add: gs)
  then have "f = g" "concat (map raw_bytes fs) @ x = concat (map raw_bytes gs')"
    using raw_bytes_unique [of f _ g] Cons.prems(2,3) by (auto simp: gs)
  then show ?case using Cons.IH [of gs'] Cons.prems(2,3) by (auto simp: gs)
qed simp

lemma assemble_append:
  "assemble acc (fs @ gs) = (let (ms, r) = assemble acc fs; (ns, r') = assemble r gs in (ms @ ns, r'))"
  by (induction acc fs rule: assemble.induct) (auto simp: Let_def split: prod.splits)

text \<open>Frames cut off a stream of frames are the first of them, and give the first of its messages.\<close>

lemma cut_frames_assemble:
  assumes "concat (map raw_bytes fs) @ x = concat (map raw_bytes gs)" "\<forall>f \<in> set fs. length (fst f) \<le> BUF_SIZE"
    and "\<forall>g \<in> set gs. length (fst g) < 2 ^ 32" "assemble acc fs = (ms, r)"
  shows "(\<exists>ls. fst (assemble acc gs) = ms @ ls) \<and> (x = [] \<longrightarrow> assemble acc gs = (ms, r))"
proof -
  obtain hs where hs: "gs = fs @ hs" "x = concat (map raw_bytes hs)"
    using raw_frames_prefix [OF assms(1) _ assms(3)] assms(2) by (fastforce simp: BUF_SIZE_def)
  have l: "assemble acc gs = (let (ns, r') = assemble r hs in (ms @ ns, r'))"
    unfolding hs(1) assemble_append using assms(4) by simp
  then have "\<exists>ls. fst (assemble acc gs) = ms @ ls" by (simp split: prod.splits)
  moreover have "assemble acc gs = (ms, r)" if "x = []"
    using l that hs(2) by (cases hs) simp_all
  ultimately show ?thesis by blast
qed

text \<open>What a client sends for typed chunks is a stream of frames that gives the typed lines.\<close>

lemma typed_frames:
  assumes client: "client_idle u" "\<not> last_chunk_filled u" "inq u 0 = map RdData cs @ evs" "typed False cs"
      "sent u (sfd u) = []" "client_run (replicate (length cs) (MainTurn True)) True u = Some (None, u')"
  obtains gs where "sent u' (sfd u) = concat (map raw_bytes gs)" "\<forall>g \<in> set gs. length (fst g) < 2 ^ 32"
    "assemble [] gs = lines [] (concat cs)"
proof
  have sz: "length (fst (client_frame k)) < 2 ^ 32" if "k \<in> set ks" "typed b ks" for k ks b
    using that by (induction b ks rule: typed.induct) (auto simp: client_frame_def tty_chunk_def BUF_SIZE_def)
  have "typed (last_chunk_filled u) cs" using client(2,4) by simp
  from main_lines [OF client(1,3) this] client(5,6)
  show "sent u' (sfd u) = concat (map raw_bytes (map raw (map client_frame cs)))"
    by (simp add: ok_conv wire_raw [abs_def] comp_def split: if_splits)
  show "\<forall>g \<in> set (map raw (map client_frame cs)). length (fst g) < 2 ^ 32"
    using sz [OF _ client(4)] by (auto simp: raw_length)
  show "assemble [] (map raw (map client_frame cs)) = lines [] (concat cs)" by (rule assemble_lines [OF client(4)])
qed

section \<open>Property\<close>


text \<open>A write the socket takes at once.\<close>

lemma write_all_at_once:
  assumes "opened w d" "outq w d = WrAccept n # ws" "length data \<le> n" "data \<noteq> []"
  shows "write_all d data w = Some (int (length data), w\<lparr>outq := (outq w)(d := ws), sent := (sent w)(d := sent w d @ data)\<rparr>)"
  using assms
  by (simp add: write_all_def write_all_from.simps [of d data 0] write_all_from.simps [of d data "length data"]
      sys_write_def Let_def)

lemma client0_types_hi:
  defines "u \<equiv> client0\<lparr>inq := (\<lambda>_. [RdData [72, 105, 10]])\<rparr>"
  shows "\<exists>u'. client_run [MainTurn True] True u = Some (None, u') \<and> sent u' 3 = wire ([72, 105], MSG_TYPE_NORMAL, True)"
proof -
  have b: "replicate BUF_SIZE (0 :: byte) = [0, 0, 0] @ replicate (BUF_SIZE - 3) 0"
    by (simp add: BUF_SIZE_def numeral_eq_Suc)
  have sr: "sys_read 0 BUF_SIZE u = (Inr [72, 105, 10], u\<lparr>inq := (inq u)(0 := [])\<rparr>)"
    by (simp add: u_def sys_read_def BUF_SIZE_def)
  show ?thesis
    by (simp add: main_step_def sr [unfolded u_def BUF_SIZE_def] u_def memcpy_at_def slice_def BUF_SIZE_def main_send_def
        write_header_def write_payload_def write_all_at_once [where n = 100] wire_def mk_header_def HEADER_SIZE_def)
qed

lemma payload_in_bytes: "f \<in> set fs \<Longrightarrow> length (fst f) \<le> length (concat (map raw_bytes fs))"
  by (induction fs) (auto simp: raw_bytes_def split: prod.splits)


end
