(* ===== verification/Chat_Bounds.thy ===== *)
theory Chat_Bounds
  imports Chat_Session
begin

text \<open>
  Sizes: how far the message buffer of a client grows (append_to_client_buffer in
  src/server/client_utils.c), what happens when it cannot grow (src/server/handle_client_read.c), and
  that the arrays of the client program (src/client/client.c, src/client/client_listen.c) are never
  left.
\<close>

section \<open>The doubling loop\<close>

lemma grow_cap_bounds:
  assumes "0 < cap" "needed \<le> 2 ^ 63"
  shows "\<exists>k. grow_cap needed cap = Some (cap * 2 ^ k) \<and> needed \<le> cap * 2 ^ k \<and> (k = 0 \<or> cap * 2 ^ k < 2 * needed)"
  using assms
proof (induction "needed - cap" arbitrary: cap rule: less_induct)
  case less
  show ?case
  proof (cases "cap < needed")
    case False
    then show ?thesis by (auto simp: grow_cap_enough intro!: exI [of _ 0])
  next
    case True
    then have sm: "sz_mul cap 2 = cap * 2" using less.prems(2) by (intro sz_mul_small) (simp add: SIZE_MOD_def)
    have step: "grow_cap needed cap = grow_cap needed (cap * 2)"
      using True sm by (subst grow_cap.simps) simp
    have "needed - cap * 2 < needed - cap" "0 < cap * 2" using True less.prems(1) by simp_all
    from less.hyps [OF this less.prems(2)] obtain k where
      k: "grow_cap needed (cap * 2) = Some (cap * 2 * 2 ^ k)" "needed \<le> cap * 2 * 2 ^ k"
        "k = 0 \<or> cap * 2 * 2 ^ k < 2 * needed" by blast
    have "cap * 2 ^ Suc k < 2 * needed" using k(3) True by auto
    then show ?thesis using k step by (intro exI [of _ "Suc k"]) (simp add: mult_ac)
  qed
qed

lemma grow_cap_diverges:
  assumes "grow_cap needed cap = Some r" "2 ^ 63 < needed" "cap = 0 \<or> (\<exists>j \<le> 63. cap = 2 ^ j)"
  shows False
proof -
  have "2 ^ 63 < needed \<longrightarrow> (cap = 0 \<or> (\<exists>j \<le> 63. cap = 2 ^ j)) \<longrightarrow> False"
  proof (rule grow_cap.raw_induct [OF _ assms(1)], goal_cases)
    case (1 f needed cap y)
    show ?case
    proof (intro impI)
      assume n: "2 ^ 63 < needed" and c: "cap = 0 \<or> (\<exists>j \<le> 63. cap = 2 ^ j)"
      have le: "cap \<le> 2 ^ 63"
      proof (cases "cap = 0")
        case False
        then obtain j where "j \<le> 63" "cap = 2 ^ j" using c by blast
        then show ?thesis using power_increasing [of j 63 "2 :: nat"] by simp
      qed simp
      have "f needed (sz_mul cap 2) = Some y" using 1(2) n le by simp
      moreover have "sz_mul cap 2 = 0 \<or> (\<exists>j \<le> 63. sz_mul cap 2 = 2 ^ j)"
      proof (cases "cap = 0")
        case True
        then show ?thesis by (simp add: sz_mul_def)
      next
        case False
        then obtain j where j: "j \<le> 63" "cap = 2 ^ j" using c by blast
        show ?thesis
        proof (cases "j = 63")
          case True
          then show ?thesis by (simp add: sz_mul_def j(2) SIZE_MOD_def)
        next
          case False
          then have "(2 :: nat) ^ Suc j \<le> 2 ^ 63" using j(1) by (intro power_increasing) simp_all
          then have "sz_mul cap 2 = 2 ^ Suc j" by (simp add: sz_mul_def j(2) SIZE_MOD_def mult_ac)
          moreover have "Suc j \<le> 63" using j(1) False by simp
          ultimately show ?thesis by blast
        qed
      qed
      ultimately show False using 1(1) n by blast
    qed
  qed
  then show ?thesis using assms(2,3) by blast
qed

text \<open>
  Claim C29. The capacity loop ends exactly when the need fits in half the address space. From the initial
  capacity it then returns a power-of-two multiple of it that covers the need and, when it doubled at
  all, is less than twice the need; for a larger need the capacity wraps to 0 and the loop never ends.
\<close>

theorem buffer_growth_terminates:
  "case grow_cap needed BUF_SIZE of
     None \<Rightarrow> 2 ^ 63 < needed
   | Some cap \<Rightarrow> needed \<le> 2 ^ 63 \<and> needed \<le> cap \<and> (\<exists>k. cap = BUF_SIZE * 2 ^ k) \<and>
       (cap = BUF_SIZE \<or> cap < 2 * needed)"
proof (cases "needed \<le> 2 ^ 63")
  case True
  then show ?thesis using grow_cap_bounds [of BUF_SIZE needed] by (fastforce simp: BUF_SIZE_def)
next
  case False
  have "BUF_SIZE = 2 ^ 12" by (simp add: BUF_SIZE_def)
  then have "grow_cap needed BUF_SIZE = None"
    using grow_cap_diverges [of needed BUF_SIZE] False
    by (cases "grow_cap needed BUF_SIZE") (fastforce intro!: exI [of _ 12])+
  then show ?thesis using False by simp
qed

section \<open>The message buffer\<close>

text \<open>
  Claim C31. Appending stays inside the buffer. It never faults, the capacity counter never exceeds the
  block it describes, and after a growth the capacity is less than twice the length of the message, so
  that a client that sent \<open>n\<close> bytes costs at most \<open>2 n\<close> bytes or the initial 4096.
\<close>

theorem append_within_bounds:
  assumes "clients w c = Some ci" "client_wf ci" "memory_available w" "payload_bytes_read ci \<le> BUF_SIZE"
    and "partial_len ci + payload_bytes_read ci \<le> INPUT_MAX"
  shows "ok (append_to_client_buffer c w) (\<lambda>(r, w'). r = 0 \<and>
     (\<exists>ci' buf. clients w' c = Some ci' \<and> partial_msg ci' = Some buf \<and>
        partial_len ci' = partial_len ci + payload_bytes_read ci \<and>
        partial_len ci' \<le> partial_cap ci' \<and> partial_cap ci' \<le> length buf \<and>
        (partial_cap ci' = partial_cap ci \<or> partial_cap ci' < 2 * partial_len ci')))"
  by (rule ok_weaken [OF append_spec [OF assms]]) (auto simp: client_wf_def)

definition long_message :: "nat \<Rightarrow> bool list \<Rightarrow> server" where
  "long_message n ms = set_client 16 ((plain_client 7 [65] (replicate n 67))\<lparr>payload_bytes_read := 5, msg_done := 1\<rparr>) server0
     \<lparr>mallocs := ms\<rparr>"

lemma long_message_sel [simp]:
  "clients (long_message n ms) 16 = Some ((plain_client 7 [65] (replicate n 67))\<lparr>payload_bytes_read := 5, msg_done := 1\<rparr>)"
  "mallocs (long_message n ms) = ms"
  by (simp_all add: long_message_def)

lemma long_message_wf:
  "n \<le> BUF_SIZE \<Longrightarrow> client_wf ((plain_client 7 [65] (replicate n 67))\<lparr>payload_bytes_read := 5, msg_done := 1\<rparr>)"
proof -
  assume "n \<le> BUF_SIZE"
  then have "client_wf (plain_client 7 [65] (replicate n 67))"
    by (intro client_wf_plain) (simp_all add: NAME_MAX_def)
  then show ?thesis by (simp add: client_wf_def)
qed

theorem append_within_bounds_witness:
  "ok (append_to_client_buffer 16 (long_message 4095 [])) (\<lambda>(r, w'). r = 0 \<and>
     (\<exists>ci' buf. clients w' 16 = Some ci' \<and> partial_msg ci' = Some buf \<and> partial_len ci' = 4100 \<and> partial_cap ci' \<le> length buf))"
  by (rule ok_weaken [OF append_within_bounds [of _ _ "(plain_client 7 [65] (replicate 4095 67))\<lparr>payload_bytes_read := 5, msg_done := 1\<rparr>"]])
     (auto simp: long_message_wf memory_available_def BUF_SIZE_def INPUT_MAX_def)

text \<open>
  Claim C32. A buffer that cannot grow is lost. When the allocator refuses the larger block, appending
  reports an error, the old block is no longer reachable and not freed either; the reader goes on
  regardless, and with the message complete it copies from the NULL pointer, which has no outcome.
\<close>

theorem failed_growth_faults:
  assumes "clients w c = Some ci" "client_wf ci" "mallocs w = False # ms" "\<forall>b \<in> set ms. b"
    and "partial_len ci + payload_bytes_read ci \<le> INPUT_MAX" "partial_cap ci < partial_len ci + payload_bytes_read ci"
    and "msg_done ci \<noteq> 0"
  shows "(\<exists>w' ci'. append_to_client_buffer c w = Some (-1, w') \<and> live_bufs w' = live_bufs w \<and>
     clients w' c = Some ci' \<and> partial_msg ci' = None) \<and> finish_payload c w = None"
proof -
  let ?need = "partial_len ci + payload_bytes_read ci"
  have need: "sz_add (partial_len ci) (payload_bytes_read ci) = ?need" "?need \<le> 2 ^ 63" "0 < partial_cap ci"
    using assms(2,5) by (auto simp: sz_add_small INPUT_MAX_def SIZE_MOD_def client_wf_def BUF_SIZE_def)
  obtain buf where buf: "partial_msg ci = Some buf" "partial_len ci \<le> INPUT_MAX"
    using assms(2,5) by (auto simp: client_wf_def)
  obtain cap where cap: "grow_cap ?need (partial_cap ci) = Some cap"
    using grow_cap_bounds [OF need(3,2)] by blast
  let ?ci = "ci\<lparr>partial_cap := cap, partial_msg := None\<rparr>" and ?w = "w\<lparr>mallocs := ms\<rparr>"
  have "realloc_buf (partial_msg ci) cap w = (None, ?w)"
    using assms(3) buf by (simp add: realloc_buf_def malloc_ok_def)
  then have ap: "append_to_client_buffer c w = Some (-1, set_client c ?ci ?w)"
    using assms(1,6) need(1) cap by (simp add: append_to_client_buffer_def)
  have "sz_add (partial_len ci) 1 \<le> PTRDIFF_MAX"
    using buf(2) by (simp add: sz_add_def INPUT_MAX_def SIZE_MOD_def PTRDIFF_MAX_def)
  moreover have "memory_available (set_client c ?ci ?w)" using assms(4) by (simp add: memory_available_def)
  ultimately have "copy_buffer None (partial_len ci) (set_client c ?ci ?w) = None"
    by (simp add: copy_buffer_def malloc_buf_available)
  then have "finish_payload c w = None"
    using ap assms(7) by (simp add: finish_payload_def)
  then show ?thesis using ap by simp
qed

theorem failed_growth_faults_witness:
  "finish_payload 16 (long_message 4095 [False]) = None"
  using failed_growth_faults [of "long_message 4095 [False]" 16
      "(plain_client 7 [65] (replicate 4095 67))\<lparr>payload_bytes_read := 5, msg_done := 1\<rparr>" "[]"]
  by (simp add: long_message_wf BUF_SIZE_def INPUT_MAX_def)

section \<open>The arrays of the client program\<close>

text \<open>System calls leave the program's own memory alone.\<close>

lemma sys_read_more: "sys_read d n w = (r, w') \<Longrightarrow> os.more w' = os.more w"
  by (auto simp: sys_read_def split: if_splits list.splits rd_ev.splits)

lemma sys_write_more: "sys_write d data w = (r, w') \<Longrightarrow> os.more w' = os.more w"
  by (auto simp: sys_write_def Let_def split: if_splits list.splits wr_ev.splits)

lemma read_all_from_more:
  assumes "read_all_from d n acc w = Some x"
  shows "os.more (snd x) = os.more w"
proof (rule read_all_from.raw_induct [of "\<lambda>d n acc w x. os.more (snd x) = os.more w", OF _ assms], goal_cases)
  case (1 f d n acc w x)
  obtain r w1 where r: "sys_read d (n - length acc) w = (r, w1)" by fastforce
  show ?case
  proof (cases r)
    case (Inl e)
    then show ?thesis
      using 1(2) r sys_read_more [OF r] 1(1) [of d n acc w1 x] by (auto split: if_splits)
  next
    case (Inr bs)
    then show ?thesis
      using 1(2) r sys_read_more [OF r] 1(1) [of d n "acc @ bs" w1 x] by (auto split: if_splits)
  qed
qed

lemma write_all_from_more:
  assumes "write_all_from d data n w = Some x"
  shows "os.more (snd x) = os.more w"
proof (rule write_all_from.raw_induct [of "\<lambda>d data n w x. os.more (snd x) = os.more w", OF _ assms], goal_cases)
  case (1 f d data n w x)
  obtain r w1 where r: "sys_write d (drop n data) w = (r, w1)" by fastforce
  show ?case
  proof (cases r)
    case (Inl e)
    then show ?thesis
      using 1(2) r sys_write_more [OF r] 1(1) [of d data n w1 x] by (auto split: if_splits)
  next
    case (Inr k)
    then show ?thesis
      using 1(2) r sys_write_more [OF r] 1(1) [of d data "n + k" w1 x] by (auto split: if_splits)
  qed
qed

lemma transfer_more:
  "read_all d n w = Some ((r, bs), w') \<Longrightarrow> os.more w' = os.more w"
  "write_all d data w = Some (s, w') \<Longrightarrow> os.more w' = os.more w"
  using read_all_from_more [of d n "[]" w "((r, bs), w')"] write_all_from_more [of d data 0 w "(s, w')"]
  by (simp_all add: read_all_def write_all_def)

lemma client_more:
  fixes w w' :: client
  shows "os.more w' = os.more w \<longleftrightarrow> sfd w' = sfd w \<and> info_live w' = info_live w \<and> client_shutdown w' = client_shutdown w \<and>
     buf w' = buf w \<and> last_chunk_filled w' = last_chunk_filled w \<and> disconnecting w' = disconnecting w \<and>
     listening w' = listening w \<and> listen_header w' = listen_header w"
  by (cases w, cases w') (auto)

definition sized :: "client \<Rightarrow> bool" where
  "sized w \<longleftrightarrow> length (buf w) = BUF_SIZE \<and> length (listen_header w) = HEADER_SIZE"

lemma sized_more: "os.more w' = os.more w \<Longrightarrow> sized w' = sized w" for w :: client
  by (simp add: client_more sized_def)

lemma small_calls_more:
  "malloc_buf n w = (p, w') \<Longrightarrow> os.more w' = os.more w"
  "handle_quit d w = (r, w') \<Longrightarrow> os.more w' = os.more w"
  "os.more (free_buf q w) = os.more w"
  by (auto simp: malloc_buf_def malloc_ok_def handle_quit_def sys_close_def free_buf_def Let_def split: if_splits prod.splits)

lemma packets_sized:
  "read_header d w = Some ((r, bs), w') \<Longrightarrow> sized w' = sized w"
  "write_header d h w = Some (s, w') \<Longrightarrow> sized w' = sized w"
  "write_payload d p n w = Some (s, w') \<Longrightarrow> sized w' = sized w"
  "read_payload d n w = Some ((r, q), w') \<Longrightarrow> sized w' = sized w"
proof -
  show "sized w' = sized w" if "read_header d w = Some ((r, bs), w')"
    using that unfolding read_header_def by (intro sized_more transfer_more(1))
  show "sized w' = sized w" if "write_header d h w = Some (s, w')"
    using that unfolding write_header_def by (intro sized_more transfer_more(2))
  show "sized w' = sized w" if w: "write_payload d p n w = Some (s, w')"
  proof -
    obtain data where "write_all d data w = Some (s, w')"
      using w by (auto simp: write_payload_def split: bind_splits)
    then show ?thesis by (intro sized_more transfer_more(2))
  qed
  show "sized w' = sized w" if r: "read_payload d n w = Some ((r, q), w')"
  proof -
    obtain b w1 where m: "malloc_buf (sz_add n 1) w = (b, w1)" by fastforce
    have "w' = w1 \<or> (\<exists>k bs. read_all d n w1 = Some ((k, bs), w'))"
      using r m by (cases b) (auto simp: read_payload_def split: bind_splits)
    then have "os.more w' = os.more w1" using transfer_more(1) by auto
    then show ?thesis using small_calls_more(1) [OF m] by (intro sized_more) simp
  qed
qed

lemma client_handle_command_more:
  "client_handle_command d k w = Some (r, w') \<Longrightarrow> os.more w' = os.more w"
  by (auto simp: client_handle_command_def client_handle_unknown_def small_calls_more split: bind_splits cmd.splits)

lemma free_info_sized: "free_info w = Some w' \<Longrightarrow> sized w' = sized w"
  by (auto simp: free_info_def sized_def split: if_splits)

lemma main_command_sized:
  assumes "main_command n w = Some w'"
  shows "sized w' = sized w"
proof -
  obtain p w1 where m: "malloc_buf n w = (p, w1)" by fastforce
  have h: "sized w3 = sized w1" if "client_handle_command d k w1 = Some (r, w3)" for d k r w3
    using that by (intro sized_more client_handle_command_more)
  have f: "sized (free_buf p w3) = sized w3" for w3 by (intro sized_more small_calls_more(3))
  have d: "sized (w3\<lparr>disconnecting := 1\<rparr>) = sized w3" for w3 by (simp add: sized_def)
  show ?thesis
    using assms m h f d sized_more [OF small_calls_more(1) [OF m]]
    by (auto simp: main_command_def Let_def split: bind_splits if_splits)
qed

lemma main_send_sized:
  assumes "main_send n w = Some (f, w')" "sized w"
  shows "sized w'"
proof -
  let ?first = "if 10 \<in> set (take BUF_SIZE (buf w)) then do {
          b \<leftarrow> memcpy_at (buf w) (n - 1) [0];
          Some (n - 1, True, w\<lparr>buf := b, last_chunk_filled := False\<rparr>)
        } else Some (n, False, w\<lparr>last_chunk_filled := True\<rparr>)"
  obtain m fin w1 where 1: "?first = Some (m, fin, w1)"
    using assms(1) unfolding main_send_def by (cases ?first) auto
  then have s1: "sized w1"
    using assms(2) by (auto simp: sized_def dest: memcpy_at_length split: if_splits bind_splits)
  define h where "h = \<lparr>hdr_len = htonl (of_nat m), hdr_type = MSG_TYPE_NORMAL, hdr_done = (if fin then 1 else 0 :: byte)\<rparr>"
  have run: "main_send n w = do {
     (r1, w2) \<leftarrow> write_header (sfd w1) h w1;
     if r1 = -1 then Some (Exit EXIT_FAILURE, w2)
     else do {
       (r2, w3) \<leftarrow> write_payload (sfd w2) (buf w2) m w2;
       if r2 = -1 then Some (Exit EXIT_FAILURE, w3)
       else if disconnecting w3 = 1 then do { w4 \<leftarrow> free_info w3; Some (Break, w4) }
       else Some (Continue, w3)
     }}"
    unfolding main_send_def 1 h_def by simp
  obtain r1 w2 where 2: "write_header (sfd w1) h w1 = Some (r1, w2)"
    using assms(1) unfolding run by (cases "write_header (sfd w1) h w1") auto
  then have s2: "sized w2" using s1 packets_sized(2) by simp
  show ?thesis
  proof (cases "r1 = -1")
    case True
    then show ?thesis using assms(1) 2 s2 unfolding run by simp
  next
    case False
    then obtain r2 w3 where 3: "write_payload (sfd w2) (buf w2) m w2 = Some (r2, w3)"
      using assms(1) 2 unfolding run by (cases "write_payload (sfd w2) (buf w2) m w2") auto
    then have s3: "sized w3" using s2 packets_sized(3) by simp
    then show ?thesis
      using assms(1) 2 3 False unfolding run by (auto split: if_splits bind_splits simp: free_info_sized)
  qed
qed

lemma main_step_sized:
  assumes "main_step ready w = Some (f, w')" "sized w"
  shows "sized w'"
proof -
  obtain r w1 where r: "sys_read 0 BUF_SIZE w = (r, w1)" by fastforce
  have s1: "sized w1" using sized_more [OF sys_read_more [OF r]] assms(2) by simp
  have b: "sized (w1\<lparr>buf := b\<rparr>)" if "memcpy_at (buf w1) 0 bs = Some b" for b bs
    using s1 memcpy_at_length [OF that] by (simp add: sized_def)
  show ?thesis
  proof (cases r)
    case (Inl e)
    then show ?thesis using assms r s1 by (auto simp: main_step_def split: if_splits)
  next
    case (Inr bs)
    then show ?thesis
      using assms r s1 b main_command_sized main_send_sized
      by (auto simp: main_step_def Let_def split: if_splits bind_splits)
  qed
qed

lemma listen_step_sized:
  assumes "listen_step w = Some (go, w')" "sized w"
  shows "sized w'"
proof -
  have n: "info_live w" using assms(1) by (auto simp: listen_step_def split: if_splits)
  obtain r bs w1 where 1: "read_header (sfd w) w = Some ((r, bs), w1)"
    using assms(1) n by (cases "read_header (sfd w) w") (auto simp: listen_step_def)
  then have s1: "sized w1" using assms(2) packets_sized(1) by simp
  obtain hdr where h: "memcpy_at (listen_header w1) 0 bs = Some hdr"
    using assms(1) n 1 by (cases "memcpy_at (listen_header w1) 0 bs") (auto simp: listen_step_def)
  let ?w2 = "w1\<lparr>listen_header := hdr\<rparr>"
  have s2: "sized ?w2" using s1 memcpy_at_length [OF h] by (simp add: sized_def)
  have st: "sized w4" if "stop_listening w3 = Some (g, w4)" "sized w3" for g w3 w4
    using that by (auto simp: stop_listening_def sized_def)
  have up: "sized (w3\<lparr>client_shutdown := 1\<rparr>) = sized w3" for w3 by (simp add: sized_def)
  have fb: "sized (free_buf p w3) = sized w3" for p w3 by (intro sized_more small_calls_more(3))
  have fi: "sized w4" if "free_info w3 = Some w4" "sized w3" for w3 w4 using that free_info_sized by simp
  have rp: "sized w4" if "read_payload d k w3 = Some (x, w4)" "sized w3" for d k x w3 w4
    using that packets_sized(4) by (cases x) simp
  have wr: "sized w4" if "write_payload d p k w3 = Some (s, w4)" "sized w3" for d p k s w3 w4
    using that packets_sized(3) by simp
  show ?thesis
  proof (cases "r \<le> 0")
    case True
    then show ?thesis using assms(1) n 1 h by (auto simp: listen_step_def intro: st [OF _ s2])
  next
    case False
    obtain hd r2 p w3 where 2: "header_of_image hdr = Some hd"
      "read_payload (sfd ?w2) (unat (ntohl (hdr_len hd))) ?w2 = Some ((r2, p), w3)"
      using assms(1) n 1 h False by (auto simp: listen_step_def split: bind_splits)
    have s3: "sized w3" by (rule rp [OF 2(2) s2])
    have s4: "sized (free_buf p w3)" "sized (free_buf p (w3\<lparr>client_shutdown := 1\<rparr>))" using s3 by (simp_all add: fb up)
    show ?thesis
    proof (cases "r2 \<le> 0")
      case True
      then show ?thesis
        using assms(1) n 1 h False 2 by (auto simp: listen_step_def split: bind_splits intro: st [OF _ fi [OF _ s4(1)]])
    next
      case r2: False
      then obtain msg bye where 3: "p = Some msg" "strcmp_eq msg shutdown_message = Some bye"
        using assms(1) n 1 h False 2 by (auto simp: listen_step_def split: bind_splits)
      show ?thesis
      proof (cases bye)
        case True
        then show ?thesis
          using assms(1) n 1 h False 2 r2 3
          by (auto simp: listen_step_def split: bind_splits intro: st [OF _ fi [OF _ s4(2)]])
      next
        case nb: False
        obtain r3 w4 where 4: "write_payload 1 msg (nat r2) w3 = Some (r3, w4)"
          using assms(1) n 1 h False 2 r2 3 nb by (auto simp: listen_step_def split: bind_splits)
        have s5: "sized w4" "sized (free_buf p w4)" using wr [OF 4 s3] by (simp_all add: fb)
        have "sized (w5\<lparr>client_shutdown := 1\<rparr>)" if "free_info (free_buf p w4) = Some w5" for w5
          using fi [OF that s5(2)] by (simp add: up)
        then show ?thesis
          using assms(1) n 1 h False 2 r2 3 nb 4 s5(2)
          by (auto simp: listen_step_def split: bind_splits if_splits intro: st)
      qed
    qed
  qed
qed

section \<open>The client's iterations make no fault\<close>

text \<open>On any descriptor, open or not, the transfer loops end; what is read fits.\<close>

lemma read_all_bounded:
  fixes w :: "'a os_scheme"
  shows "ok (read_all d n w) (\<lambda>((r, bs), w'). length bs \<le> n \<and> r \<le> int (length bs) \<and> mallocs w' = mallocs w \<and>
     os.more w' = os.more w)"
proof (cases "opened w d")
  case True
  show ?thesis
  proof (rule ok_weaken [OF read_all_spec [OF True]], goal_cases)
    case (1 x)
    obtain r bs w' where x: "x = ((r, bs), w')" by (metis surj_pair)
    have out: "bs = take n (avail (inq w d))" "r = -1 \<or> r = int (length bs)"
      and "w' = w\<lparr>inq := (inq w)(d := inq w' d)\<rparr>"
      using 1 unfolding x prod.case by blast+
    then obtain q where "w' = w\<lparr>inq := q\<rparr>" by blast
    then show ?case using out by (auto simp: x)
  qed
next
  case False
  then show ?thesis
    by (simp add: read_all_def read_all_from.simps [of d n "[]"] sys_read_def)
qed

lemma write_all_total: "\<exists>r w'. write_all d data w = Some (r, w') \<and> os.more w' = os.more w"
proof (cases "opened w d")
  case True
  then obtain r w' where "write_all d data w = Some (r, w')" using write_all_spec [OF True, of data] by (auto simp: ok_conv)
  then show ?thesis using transfer_more(2) by blast
next
  case False
  then show ?thesis by (simp add: write_all_def write_all_from.simps [of d data 0] sys_write_def)
qed

lemma main_send_total:
  assumes "length (buf w) = BUF_SIZE" "0 < n" "n \<le> BUF_SIZE" "info_live w"
  shows "main_send n w \<noteq> None"
proof -
  define fin where "fin \<longleftrightarrow> 10 \<in> set (buf w)"
  define m where "m = (if fin then n - 1 else n)"
  define w1 where "w1 = w\<lparr>buf := if fin then (buf w)[n - 1 := 0] else buf w, last_chunk_filled := \<not> fin\<rparr>"
  define h where "h = \<lparr>hdr_len = htonl (of_nat m), hdr_type = MSG_TYPE_NORMAL, hdr_done = (if fin then 1 else 0 :: byte)\<rparr>"
  have "n - 1 < length (buf w)" using assms(1-3) by simp
  then have mc: "memcpy_at (buf w) (n - 1) [0] = Some ((buf w)[n - 1 := 0])"
    by (simp add: memcpy_at_def upd_conv_take_nth_drop)
  have tk: "take BUF_SIZE (buf w) = buf w" using assms(1) by simp
  have first: "(if 10 \<in> set (take BUF_SIZE (buf w)) then do {
          b \<leftarrow> memcpy_at (buf w) (n - 1) [0];
          Some (n - 1, True, w\<lparr>buf := b, last_chunk_filled := False\<rparr>)
        } else Some (n, False, w\<lparr>last_chunk_filled := True\<rparr>)) = Some (m, fin, w1)"
    unfolding tk using mc by (auto simp: fin_def m_def w1_def)
  obtain r1 w2 where 2: "write_header (sfd w1) h w1 = Some (r1, w2)" "os.more w2 = os.more w1"
    using write_all_total unfolding write_header_def by metis
  have b2: "buf w2 = buf w1" "info_live w2 = info_live w" using 2(2) by (simp_all add: client_more w1_def)
  have "length (buf w1) = BUF_SIZE" "m \<le> BUF_SIZE" using assms(1,3) by (auto simp: w1_def m_def)
  then have sl: "slice (buf w2) 0 m = Some (take m (buf w2))" by (simp add: slice_def b2)
  obtain r2 w3 where 3: "write_payload (sfd w2) (buf w2) m w2 = Some (r2, w3)" "os.more w3 = os.more w2"
    using write_all_total unfolding write_payload_def sl bind.bind_lunit by metis
  have "info_live w3" using 3(2) b2 assms(4) by (simp add: client_more)
  then show ?thesis
    unfolding main_send_def first using 2(1) 3(1) by (simp add: h_def free_info_def)
qed

lemma main_command_total:
  assumes "memory_available w" "length (buf w) = BUF_SIZE" "0 < n" "n \<le> BUF_SIZE" "take 1 (buf w) = [47]"
  shows "main_command n w = None \<longleftrightarrow> n = 1"
    "main_command n w = Some w' \<Longrightarrow> length (buf w') = BUF_SIZE \<and> info_live w' = info_live w"
proof -
  define w1 where "w1 = w\<lparr>mallocs := tl (mallocs w), live_bufs := live_bufs w + 1\<rparr>"
  define src where "src = take n (buf w)"
  have n1: "buf w1 = buf w" "info_live w1 = info_live w" by (simp_all add: w1_def)
  have ls: "length src = n" using assms(2,4) by (simp add: src_def)
  have m: "malloc_buf n w = (Some (map (junk w) [0..<n]), w1)"
    unfolding w1_def using assms(1,4) by (intro malloc_buf_available) (simp_all add: BUF_SIZE_def PTRDIFF_MAX_def)
  have sl: "slice (buf w1) 0 n = Some src" using assms(2,4) by (simp add: slice_def src_def n1)
  have mc: "memcpy_at (map (junk w) [0..<n]) 0 src = Some src" by (simp add: memcpy_at_def ls)
  define cp where "cp = take (n - 1) src @ [0]"
  have mc2: "memcpy_at src (n - 1) [0] = Some cp" using ls assms(3) by (simp add: memcpy_at_def cp_def)
  have z: "0 \<in> set cp" by (simp add: cp_def)
  obtain tok rest where tok: "strtok_r cp = Some (tok, rest)"
    "case tok of None \<Rightarrow> cstr rest = [] | Some t \<Rightarrow> t \<noteq> [] \<and> 0 \<notin> set t \<and> 32 \<notin> set t"
    using strtok_r_terminated [OF z] by (auto elim!: okE)
  have tn: "tok = None \<longleftrightarrow> n = 1"
  proof (cases "n = 1")
    case True
    then have "cp = [0]" by (simp add: cp_def)
    then show ?thesis using tok(1) True by (simp add: strtok_r_def)
  next
    case False
    then obtain k where k: "n = Suc (Suc k)" using assms(3) by (cases n; cases "n - 1") auto
    obtain b where "buf w = 47 # b" using assms(5) by (cases "buf w") auto
    then have "cp = 47 # take k b @ [0]" by (simp add: cp_def src_def k)
    then show ?thesis using tok(1) False by (auto simp: strtok_r_def Let_def split: if_splits list.splits)
  qed
  have run: "main_command n w = do {
     cmd \<leftarrow> tok;
     cmd_len \<leftarrow> strlen_c (cmd @ [0]);
     lower \<leftarrow> make_lowercase (cmd @ [0]) cmd_len;
     (command_result, w2) \<leftarrow> client_handle_command (sfd w1) lower w1;
     let w3 = free_buf (Some (map (junk w) [0..<n])) w2;
     Some (if command_result = CMD_ERROR \<or> command_result = CMD_DISCONNECT then w3\<lparr>disconnecting := 1\<rparr> else w3) }"
    unfolding main_command_def m using sl mc mc2 tok(1) by (simp del: upt_Suc)
  have "\<exists>w'. main_command n w = Some w' \<and> length (buf w') = BUF_SIZE \<and> info_live w' = info_live w" if "tok = Some t" for t
  proof -
    have t: "0 \<notin> set t" using tok(2) that by simp
    have sn: "strlen_c (t @ [0]) = Some (length t)"
      using t cstr_append_NUL [of t "[]"] by (simp add: strlen_c_eq)
    have lw: "make_lowercase (t @ [0]) (length t) = Some (map lower_byte t @ [0])"
      by (simp add: make_lowercase_def)
    obtain k where k: "find_command (map lower_byte t @ [0]) = Some k"
      using find_command_total [of "map lower_byte t @ [0]"] by auto
    obtain res w2 where c: "client_handle_command (sfd w1) (map lower_byte t @ [0]) w1 = Some (res, w2)"
      using k by (cases k; cases "handle_quit (sfd w1) w1") (simp_all add: client_handle_command_def)
    have "buf w2 = buf w" "info_live w2 = info_live w"
      using client_handle_command_more [OF c] n1 by (simp_all add: client_more)
    then show ?thesis
      unfolding run that using sn lw c assms(2) by (simp add: Let_def free_buf_def del: upt_Suc)
  qed
  moreover have "main_command n w = None" if "tok = None" unfolding run that by simp
  ultimately show "main_command n w = None \<longleftrightarrow> n = 1"
    "main_command n w = Some w' \<Longrightarrow> length (buf w') = BUF_SIZE \<and> info_live w' = info_live w"
    using tn by (cases tok; auto)+
qed

lemma main_step_faults:
  assumes "sized w" "memory_available w" "info_live w"
  shows "main_step ready w = None \<longleftrightarrow> client_shutdown w \<noteq> 1 \<and> ready \<and> (\<exists>w1. sys_read 0 BUF_SIZE w = (Inr [47], w1))"
proof -
  obtain r w1 where r: "sys_read 0 BUF_SIZE w = (r, w1)" by fastforce
  have m1: "os.more w1 = os.more w" by (rule sys_read_more [OF r])
  have w1: "length (buf w1) = BUF_SIZE" "info_live w1" "memory_available w1"
    using m1 assms by (simp_all add: client_more sized_def) (use sys_read_frame [OF r] assms(2) in \<open>metis memory_available_def os.simps(26) os.ext_inject os.surjective os.update_convs(1)\<close>)
  show ?thesis
  proof (cases r)
    case (Inl e)
    then show ?thesis using r by (simp add: main_step_def)
  next
    case (Inr bs)
    have lb: "length bs \<le> BUF_SIZE" using sys_read_length r Inr by blast
    show ?thesis
    proof (cases bs)
      case Nil
      then show ?thesis using r Inr by (simp add: main_step_def)
    next
      case (Cons b cs)
      define w2 where "w2 = w1\<lparr>buf := bs @ drop (length bs) (buf w1)\<rparr>"
      have mc: "memcpy_at (buf w1) 0 bs = Some (bs @ drop (length bs) (buf w1))" using lb w1(1) by (simp add: memcpy_at_def)
      have w2: "length (buf w2) = BUF_SIZE" "info_live w2" "memory_available w2" "take 1 (buf w2) = [b]"
        using lb w1 by (simp_all add: w2_def memory_available_def Cons)
      have n: "0 < length bs" by (simp add: Cons)
      have ne: "bs \<noteq> []" by (simp add: Cons)
      have sl: "slice (bs @ drop (length bs) (buf w1)) 0 1 = Some [b]" by (simp add: slice_def Cons)
      have run: "main_step ready w = (if client_shutdown w = 1 then Some (Break, w) else if \<not> ready then Some (Continue, w)
          else do { w3 \<leftarrow> (if [b] = [47] then main_command (length bs) w2 else Some w2);
            if length bs = 1 \<and> \<not> last_chunk_filled w3 then Some (Continue, w3) else main_send (length bs) w3 })"
        unfolding main_step_def r Inr prod.case sum.case if_not_P [OF ne]
        using mc sl by (simp add: Let_def w2_def del: One_nat_def cong: if_cong)
      have send: "main_send (length bs) w3 \<noteq> None" if "length (buf w3) = BUF_SIZE" "info_live w3" for w3
        by (rule main_send_total [OF that(1) n lb that(2)])
      show ?thesis
      proof (cases "b = 47")
        case False
        then show ?thesis using run send [OF w2(1,2)] r Inr Cons by auto
      next
        case True
        note C = main_command_total [OF w2(3,1) n lb, unfolded w2(4) True, OF refl]
        have "(do { w3 \<leftarrow> main_command (length bs) w2;
            if length bs = 1 \<and> \<not> last_chunk_filled w3 then Some (Continue, w3) else main_send (length bs) w3 }) = None
          \<longleftrightarrow> length bs = 1"
        proof (cases "main_command (length bs) w2")
          case None
          then show ?thesis using C(1) by simp
        next
          case (Some w3)
          then have "length bs \<noteq> 1" using C(1) by simp
          then show ?thesis using Some send [of w3] C(2) [OF Some] w2(2) by auto
        qed
        then have "main_step ready w = None \<longleftrightarrow> client_shutdown w \<noteq> 1 \<and> ready \<and> cs = []"
          unfolding run using True by (simp add: Cons)
        then show ?thesis using r Inr Cons True by auto
      qed
    qed
  qed
qed

lemma read_payload_total:
  assumes "memory_available w" "n < 2 ^ 32"
  shows "\<exists>r b w'. read_payload d n w = Some ((r, Some b), w') \<and> length b = n + 1 \<and> 0 \<in> set b \<and> r \<le> int n \<and>
     os.more w' = os.more w"
proof -
  define w1 where "w1 = w\<lparr>mallocs := tl (mallocs w), live_bufs := live_bufs w + 1\<rparr>"
  define b1 where "b1 = map (junk w) [0..<n] @ [0]"
  have a: "sz_add n 1 = n + 1" using assms(2) by (simp add: sz_add_def SIZE_MOD_def)
  have m: "malloc_buf (n + 1) w = (Some (map (junk w) [0..<n + 1]), w1)"
    unfolding w1_def using assms by (intro malloc_buf_available) (simp_all add: PTRDIFF_MAX_def)
  have mc: "memcpy_at (map (junk w) [0..<n + 1]) n [0] = Some b1" by (simp add: memcpy_at_def b1_def)
  obtain r bs w2 where x: "read_all d n w1 = Some ((r, bs), w2)" and bs: "length bs \<le> n" "r \<le> int n" "os.more w2 = os.more w"
    using read_all_bounded [of d n w1] by (force simp: ok_conv w1_def)
  define b2 where "b2 = bs @ drop (length bs) b1"
  have mc2: "memcpy_at b1 0 bs = Some b2" using bs(1) by (simp add: memcpy_at_def b1_def b2_def)
  have "length b2 = n + 1" "0 \<in> set b2" using bs(1) by (simp_all add: b2_def b1_def)
  moreover have "read_payload d n w = Some ((r, Some b2), w2)"
    unfolding read_payload_def a m using mc mc2 x by (simp del: upt_Suc)
  ultimately show ?thesis using bs by blast
qed

lemma listen_step_total:
  assumes "sized w" "memory_available w" "info_live w"
  shows "listen_step w \<noteq> None"
proof -
  obtain r bs w1 where rh: "read_header (sfd w) w = Some ((r, bs), w1)"
    and x: "length bs \<le> HEADER_SIZE" "mallocs w1 = mallocs w" "os.more w1 = os.more w"
    using read_all_bounded [of "sfd w" HEADER_SIZE w] by (force simp: ok_conv read_header_def)
  have w1: "length bs \<le> HEADER_SIZE" "memory_available w1" "length (listen_header w1) = HEADER_SIZE" "info_live w1"
    using x assms by (simp_all add: memory_available_def client_more sized_def)
  define hdr where "hdr = bs @ drop (length bs) (listen_header w1)"
  have mc: "memcpy_at (listen_header w1) 0 bs = Some hdr" using w1(1,3) by (simp add: memcpy_at_def hdr_def)
  have "length hdr = HEADER_SIZE" using w1(1,3) by (simp add: hdr_def)
  then obtain h where h: "header_of_image hdr = Some h" using header_of_image_total by blast
  define w2 where "w2 = w1\<lparr>listen_header := hdr\<rparr>"
  define n where "n = unat (ntohl (hdr_len h))"
  have "n < 2 ^ 32" unfolding n_def using unsigned_less [of "ntohl (hdr_len h)"] by simp
  moreover have "memory_available w2" using w1(2) by (simp add: w2_def memory_available_def)
  ultimately obtain r2 b w3 where p: "read_payload (sfd w2) n w2 = Some ((r2, Some b), w3)" "length b = n + 1"
    "0 \<in> set b" "r2 \<le> int n" "os.more w3 = os.more w2"
    using read_payload_total by blast
  have l3: "info_live w3" using p(5) w1(4) by (simp add: client_more w2_def)
  have sc: "strcmp_eq b shutdown_message = Some (cstr b = cstr shutdown_message)"
    using p(3) by (intro strcmp_eq_terminated) (simp_all add: shutdown_message_def)
  have sl: "slice b 0 (nat r2) = Some (take (nat r2) b)" using p(2,4) by (simp add: slice_def)
  obtain r3 w4 where wr: "write_payload 1 b (nat r2) w3 = Some (r3, w4)" "os.more w4 = os.more w3"
    using write_all_total unfolding write_payload_def sl bind.bind_lunit by metis
  have l4: "info_live w4" using wr(2) l3 by (simp add: client_more)
  show ?thesis
    using assms(3) rh mc h p(1) sc wr(1) l3 l4
    by (simp add: listen_step_def w2_def [symmetric] n_def [symmetric] stop_listening_def free_info_def free_buf_def) blast
qed

text \<open>
  Claim C28. The client's iterations stay inside their arrays. With memory to allocate and the shared block not freed
  yet, whatever is typed and whatever the server sends, an iteration of the listening thread
  makes no fault, and one of \<open>main\<close> makes one exactly when the bytes it reads are a slash alone; and the
  input buffer stays 4096 bytes and the header buffer 6 bytes long. So no iteration reads or
  writes past the end of a buffer, its own arrays and the blocks it allocates alike.
\<close>

theorem client_iterations_stay_inside:
  assumes "length (buf w) = 4096" "length (listen_header w) = 6" "memory_available w" "info_live w"
  shows "(main_step ready w = None \<longleftrightarrow>
       client_shutdown w \<noteq> 1 \<and> ready \<and> (\<exists>w1. sys_read 0 4096 w = (Inr [47], w1))) \<and>
     listen_step w \<noteq> None \<and>
     (\<forall>f w'. main_step ready w = Some (f, w') \<longrightarrow> length (buf w') = 4096 \<and> length (listen_header w') = 6) \<and>
     (\<forall>go w'. listen_step w = Some (go, w') \<longrightarrow> length (buf w') = 4096 \<and> length (listen_header w') = 6)"
proof -
  have s: "sized w" using assms(1,2) by (simp add: sized_def BUF_SIZE_def HEADER_SIZE_def)
  have "length (buf w') = 4096 \<and> length (listen_header w') = 6" if "sized w'" for w'
    using that by (simp add: sized_def BUF_SIZE_def HEADER_SIZE_def)
  then show ?thesis
    using main_step_faults [OF s assms(3,4), unfolded BUF_SIZE_def] listen_step_total [OF s assms(3,4)]
      main_step_sized [OF _ s] listen_step_sized [OF _ s] by blast
qed

theorem client_iterations_stay_inside_witness:
  "main_step True (client0\<lparr>inq := (\<lambda>_. [RdData (replicate 5000 33)])\<rparr>) \<noteq> None \<and>
   main_step True (client0\<lparr>inq := (\<lambda>_. [RdData [47]])\<rparr>) = None \<and>
   listen_step (client0\<lparr>inq := (\<lambda>_. [RdData [0, 0, 255], RdEof])\<rparr>) \<noteq> None"
proof -
  have pre: "length (buf (client0\<lparr>inq := q\<rparr>)) = 4096" "length (listen_header (client0\<lparr>inq := q\<rparr>)) = 6"
    "memory_available (client0\<lparr>inq := q\<rparr>)" "info_live (client0\<lparr>inq := q\<rparr>)" for q
    by (simp_all add: memory_available_def BUF_SIZE_def HEADER_SIZE_def)
  have "take 4096 (replicate 5000 (33 :: byte)) \<noteq> [47]" by (simp add: numeral_eq_Suc)
  then show ?thesis
    using client_iterations_stay_inside [OF pre, of True] by (simp add: sys_read_def)
qed

end
