(* ===== verification/Chat_Listing.thy ===== *)
theory Chat_Listing
  imports Chat_Bounds
begin

text \<open>
  The command /list from end to end: the frames \<open>handle_list\<close> sends
  (src/server/server_handle_command.c) and what the listening thread of the client makes of them
  (src/client/client_listen.c).
\<close>

section \<open>What is sent\<close>

text \<open>\<open>takes k ws\<close>: by the script \<open>ws\<close> the socket takes the next \<open>k\<close> short writes whole.\<close>

fun takes :: "nat \<Rightarrow> wr_ev list \<Rightarrow> bool" where
  "takes 0 ws = True"
| "takes (Suc k) (WrAccept n # ws) = (NAME_MAX \<le> n \<and> takes k ws)"
| "takes (Suc k) ws = False"

lemma takesE:
  assumes "takes (Suc k) ws"
  obtains n ws' where "ws = WrAccept n # ws'" "NAME_MAX \<le> n" "takes k ws'"
  using assms by (cases "(Suc k, ws)" rule: takes.cases) auto

lemma takes_less: "takes k ws \<Longrightarrow> j \<le> k \<Longrightarrow> takes j ws"
proof (induction k ws arbitrary: j rule: takes.induct)
  case (2 k n ws)
  then show ?case by (cases j) auto
qed (auto simp: le_Suc_eq)

lemma write_all_taken:
  assumes "opened w d" "takes (Suc k) (outq w d)" "length data \<le> NAME_MAX"
  shows "\<exists>ws. takes k ws \<and> write_all d data w =
     Some (int (length data), w\<lparr>outq := (outq w)(d := ws), sent := (sent w)(d := sent w d @ data)\<rparr>)"
proof (cases "data = []")
  case True
  have "takes k (outq w d)" using takes_less [OF assms(2)] by simp
  moreover have "write_all d data w = Some (0, w)"
    using True by (simp add: write_all_def write_all_from.simps)
  ultimately show ?thesis using True by (intro exI [of _ "outq w d"]) simp
next
  case False
  obtain n ws where ws: "outq w d = WrAccept n # ws" "NAME_MAX \<le> n" "takes k ws"
    using assms(2) by (rule takesE)
  then show ?thesis using write_all_at_once [OF assms(1) ws(1) _ False] assms(3) by auto
qed

lemma send_direct_taken:
  assumes "opened w d" "takes (k + 2) (outq w d)" "n \<le> length msg" "n \<le> NAME_MAX"
  shows "\<exists>ws. takes k ws \<and> send_direct ty d msg n w = Some (0, w\<lparr>outq := (outq w)(d := ws),
     sent := (sent w)(d := sent w d @ wire (take n msg, ty, True))\<rparr>)"
proof -
  let ?h = "mk_header n ty True"
  have t: "takes (Suc (Suc k)) (outq w d)" using assms(2) by simp
  have "length (header_image ?h) \<le> NAME_MAX" by (simp add: HEADER_SIZE_def NAME_MAX_def)
  then obtain ws where ws: "takes (Suc k) ws" "write_all d (header_image ?h) w = Some (int (length (header_image ?h)),
      w\<lparr>outq := (outq w)(d := ws), sent := (sent w)(d := sent w d @ header_image ?h)\<rparr>)"
    using write_all_taken [OF assms(1) t] by blast
  let ?w1 = "w\<lparr>outq := (outq w)(d := ws), sent := (sent w)(d := sent w d @ header_image ?h)\<rparr>"
  have l: "length (take n msg) = n" using assms(3) by simp
  obtain vs where vs: "takes k vs" "write_all d (take n msg) ?w1 = Some (int n,
      ?w1\<lparr>outq := (outq ?w1)(d := vs), sent := (sent ?w1)(d := sent ?w1 d @ take n msg)\<rparr>)"
    using write_all_taken [of ?w1 d k "take n msg"] assms(1,4) ws(1) l by auto
  have "send_direct ty d msg n w = Some (0, ?w1\<lparr>outq := (outq ?w1)(d := vs), sent := (sent ?w1)(d := sent ?w1 d @ take n msg)\<rparr>)"
    using ws(2) vs(2) assms(3)
    by (simp add: send_direct_def create_header_eq write_header_def write_payload_def slice_def)
  then show ?thesis using vs(1) l by (intro exI [of _ vs]) (simp add: wire_def)
qed

lemma send_twice:
  assumes "opened w d" "takes (k + 4) (outq w d)" "n \<le> length msg" "n \<le> NAME_MAX" "m \<le> length msg'" "m \<le> NAME_MAX"
  shows "\<exists>ws w1. takes k ws \<and> server_send_message d msg n w = Some (0, w1) \<and>
     server_send_message d msg' m w1 = Some (0, w\<lparr>outq := (outq w)(d := ws),
       sent := (sent w)(d := sent w d @ wire (take n msg, MSG_TYPE_ADMIN, True) @ wire (take m msg', MSG_TYPE_ADMIN, True))\<rparr>)"
proof -
  have t: "takes (k + 2 + 2) (outq w d)" using assms(2) by (simp add: numeral_eq_Suc)
  obtain ws where ws: "takes (k + 2) ws" "server_send_message d msg n w = Some (0, w\<lparr>outq := (outq w)(d := ws),
     sent := (sent w)(d := sent w d @ wire (take n msg, MSG_TYPE_ADMIN, True))\<rparr>)"
    using send_direct_taken [OF assms(1) t assms(3,4)] unfolding server_send_message_def by blast
  let ?w1 = "w\<lparr>outq := (outq w)(d := ws), sent := (sent w)(d := sent w d @ wire (take n msg, MSG_TYPE_ADMIN, True))\<rparr>"
  have "opened ?w1 d" "takes (k + 2) (outq ?w1 d)" using assms(1) ws(1) by simp_all
  from send_direct_taken [OF this assms(5,6)]
  obtain vs where vs: "takes k vs" "server_send_message d msg' m ?w1 = Some (0, ?w1\<lparr>outq := (outq ?w1)(d := vs),
     sent := (sent ?w1)(d := sent ?w1 d @ wire (take m msg', MSG_TYPE_ADMIN, True))\<rparr>)"
    unfolding server_send_message_def by blast
  show ?thesis
    by (rule exI [of _ vs], rule exI [of _ ?w1]) (use ws(2) vs in simp)
qed

lemma handle_list_from_sends:
  fixes w :: server
  assumes "server_ok w" "user \<in> set (roster w)" "takes (4 * (client_count w - i)) (outq w (fd_of w user))"
  shows "\<exists>ws. handle_list_from user i w = Some (w\<lparr>outq := (outq w)(fd_of w user := ws),
     sent := (sent w)(fd_of w user := sent w (fd_of w user) @
       concat (map wire (concat (map (list_entry w user) (drop i (roster w))))))\<rparr>)"
  using assms
proof (induction "client_count w - i" arbitrary: i w)
  case 0
  then show ?case
    by (intro exI [of _ "outq w (fd_of w user)"]) (simp add: handle_list_from.simps roster_def)
next
  case (Suc m)
  let ?c = "client_list w i" and ?d = "fd_of w user"
  have i: "i < client_count w" using Suc.hyps(2) by simp
  note at = roster_index [OF Suc.prems(1) i]
  obtain ci where ci: "clients w ?c = Some ci" "client_wf ci"
    using client_okE [OF server_ok_client [OF Suc.prems(1) conjunct2 [OF at]]] .
  obtain u where u: "clients w user = Some u" "opened w (client_fd u)"
    using client_okE [OF server_ok_client [OF Suc.prems(1,2)]] .
  have d: "?d = client_fd u" using u(1) by (simp add: fd_of_def)
  have nl: "name_len ci \<le> length (name ci)" "name_len ci \<le> NAME_MAX" using ci(2) by (simp_all add: client_wf_def)
  let ?msg = "if ?c = user then you_indicator @ [0] else [10, 0]" and ?n = "if ?c = user then length you_indicator else 1"
  have yi: "length you_indicator = 9" by (simp add: you_indicator_def bytes_of_def)
  have mn: "?n \<le> length ?msg" "?n \<le> NAME_MAX" using yi by (simp_all add: NAME_MAX_def)
  have "takes (4 * m + 4) (outq w ?d)" using Suc.prems(3) Suc.hyps(2) by (simp add: add.commute flip: mult_Suc_right)
  then obtain ws w1 where w1: "takes (4 * m) ws" "server_send_message ?d (name ci) (name_len ci) w = Some (0, w1)"
    "server_send_message ?d ?msg ?n w1 = Some (0, w\<lparr>outq := (outq w)(?d := ws),
       sent := (sent w)(?d := sent w ?d @ wire (take (name_len ci) (name ci), MSG_TYPE_ADMIN, True) @
          wire (take ?n ?msg, MSG_TYPE_ADMIN, True))\<rparr>)"
    using send_twice [of w ?d "4 * m" "name_len ci" "name ci" ?n ?msg] u(2) d nl mn by auto
  let ?w2 = "w\<lparr>outq := (outq w)(?d := ws),
       sent := (sent w)(?d := sent w ?d @ wire (take (name_len ci) (name ci), MSG_TYPE_ADMIN, True) @
          wire (take ?n ?msg, MSG_TYPE_ADMIN, True))\<rparr>"
  have ind: "strlen_c (you_indicator @ [0]) = Some (length you_indicator)"
    by (simp add: strlen_c_eq cstr_def you_indicator_def bytes_of_def of_char_def)
  have step: "handle_list_from user i w = handle_list_from user (i + 1) ?w2"
    using i at ci(1) u(1) d w1 ind by (subst handle_list_from.simps) auto
  have sc: "same_core w ?w2" by (simp add: same_core_def)
  note k = same_core_keeps [OF Suc.prems(1) sc]
  have fd: "fd_of ?w2 user = ?d" "client_count ?w2 = client_count w" by (simp_all add: fd_of_def)
  have le: "list_entry ?w2 = list_entry w" by (intro ext) (simp add: list_entry_def)
  have rs: "roster ?w2 = roster w" by (simp add: roster_def)
  have mm: "client_count w - Suc i = m" using Suc.hyps(2) by simp
  then have "m = client_count ?w2 - (i + 1)" "user \<in> set (roster ?w2)"
    "takes (4 * (client_count ?w2 - (i + 1))) (outq ?w2 (fd_of ?w2 user))"
    using mm Suc.prems(2) rs fd w1(1) by simp_all
  from Suc.hyps(1) [OF this(1) k(1) this(2,3)]
  obtain vs where vs: "handle_list_from user (i + 1) ?w2 = Some (?w2\<lparr>outq := (outq ?w2)(?d := vs),
     sent := (sent ?w2)(?d := sent ?w2 ?d @ concat (map wire (concat (map (list_entry w user) (drop (i + 1) (roster w))))))\<rparr>)"
    unfolding fd(1) le rs by blast
  have "take ?n ?msg = (if ?c = user then you_indicator else [10])" by simp
  then have en: "concat (map wire (list_entry w user ?c)) = wire (take (name_len ci) (name ci), MSG_TYPE_ADMIN, True) @
          wire (take ?n ?msg, MSG_TYPE_ADMIN, True)"
    using ci(1) by (simp add: list_entry_def display_name_def)
  have "drop i (roster w) = ?c # drop (i + 1) (roster w)"
    unfolding roster_def drop_map drop_upt using i by (simp add: upt_conv_Cons)
  then show ?case
    unfolding step vs by (intro exI [of _ vs]) (simp add: en)
qed

section \<open>Properties\<close>

text \<open>
  Claim C33. A listing names everyone. On a socket that accepts each of these writes whole, /list sends the asking
  client, for every registered client in order, a frame with its name and a frame that ends the line
  or marks the asking client; nothing else of the server changes, and no other client receives anything.
\<close>

theorem listing_names_everyone:
  assumes "server_ok w" "user \<in> set (roster w)" "takes (4 * client_count w) (outq w (fd_of w user))"
  shows "\<exists>ws. handle_list user w = Some (CMD_OK, w\<lparr>outq := (outq w)(fd_of w user := ws),
     sent := (sent w)(fd_of w user := sent w (fd_of w user) @ concat (map wire (listing w user)))\<rparr>)"
  using handle_list_from_sends [OF assms(1,2), of 0] assms(3)
  by (auto simp: handle_list_def listing_def)

definition roomy_clients :: server where
  "roomy_clients = (two_clients [] [])\<lparr>outq := (\<lambda>_. replicate 8 (WrAccept 100))\<rparr>"

lemma roomy_clients_ok: "server_ok roomy_clients" "roster roomy_clients = [16, 32]"
  "clients roomy_clients = clients (two_clients [] [])" "fd_of roomy_clients 16 = 7" "sent roomy_clients = (\<lambda>_. [])"
proof -
  have sc: "same_core (two_clients [] []) roomy_clients" by (simp add: same_core_def roomy_clients_def)
  have "server_ok (two_clients [] [])" by (rule two_clients_ok) simp
  from same_core_keeps [OF this sc] show "server_ok roomy_clients" "roster roomy_clients = [16, 32]" by simp_all
qed (simp_all add: roomy_clients_def fd_of_def)

theorem listing_names_everyone_witness:
  "\<exists>w'. handle_list 16 roomy_clients = Some (CMD_OK, w') \<and> sent w' 7 =
     concat (map wire [([65], MSG_TYPE_ADMIN, True), (you_indicator, MSG_TYPE_ADMIN, True),
       ([66], MSG_TYPE_ADMIN, True), ([10], MSG_TYPE_ADMIN, True)])"
proof -
  have "takes (4 * client_count roomy_clients) (outq roomy_clients (fd_of roomy_clients 16))"
    by (simp add: roomy_clients_def NAME_MAX_def numeral_eq_Suc)
  from listing_names_everyone [OF roomy_clients_ok(1) _ this] show ?thesis
    by (auto simp: roomy_clients_ok listing_def list_entry_def display_name_def)
qed



end
