(* ===== verification/Chat_Refinement.thy ===== *)
theory Chat_Refinement
  imports Chat_Listing
begin

text \<open>
  The server loop implements the chat room: every run of src/server/server_loop.c is a run of the
  room of \<open>Chat_Room\<close>, and what a client is heard to say is what the bytes it sent assemble to.
\<close>

section \<open>Those who stay\<close>

text \<open>\<open>kept m m'\<close>: a name once given stays, what was received stays, and who is leaving leaves.\<close>

definition kept :: "member \<Rightarrow> member \<Rightarrow> bool" where
  "kept m m' \<longleftrightarrow> (leaving m \<longrightarrow> leaving m') \<and> prefix (got m) (got m') \<and>
     (known m \<longrightarrow> known m' \<and> nick m' = nick m \<and> label m' = label m)"

lemma kept_refl [simp]: "kept m m"
  by (simp add: kept_def)

lemma kept_trans: "kept m m1 \<Longrightarrow> kept m1 m2 \<Longrightarrow> kept m m2"
  unfolding kept_def by (auto intro: prefix_order.trans)

lemma served_kept: "served f m m' \<Longrightarrow> kept m m'"
  by (auto simp: served_def kept_def)

lemma said_kept:
  assumes "said c msg r r'" "a \<in> set (seats r)" "info r a = Some m"
  shows "seats r' = seats r \<and> (\<exists>m'. info r' a = Some m' \<and> kept m m')"
  using assms(1)
proof cases
  case (said_line n t)
  then show ?thesis using assms(2,3) served_kept by (fastforce simp: spread_def)
qed (use assms(3) in \<open>auto simp: kept_def\<close>)

lemma step_kept:
  assumes "room_step r e r'" "a \<in> set (seats r)" "info r a = Some m" "e \<noteq> Leave a"
  shows "a \<in> set (seats r') \<and> (\<exists>m'. info r' a = Some m' \<and> kept m m')"
  using assms(1)
proof cases
  case (step_leave i c n)
  have "a \<noteq> seats r ! i" using step_leave assms(4) by auto
  then have "a \<in># mset (swap_out i (seats r))"
    using mset_swap_out [OF step_leave(3)] assms(2) by (simp add: in_diff_count)
  then show ?thesis using step_leave assms(3,4) by auto
next
  case (step_say c msg)
  then show ?thesis using said_kept [OF _ assms(2,3)] assms(2) by metis
qed (use assms(2,3) served_kept in auto)

lemma run_kept:
  "room_run r es r' \<Longrightarrow> a \<in> set (seats r) \<Longrightarrow> info r a = Some m \<Longrightarrow> Leave a \<notin> set es \<Longrightarrow>
     a \<in> set (seats r') \<and> (\<exists>m'. info r' a = Some m' \<and> kept m m')"
proof (induction arbitrary: m rule: room_run.induct)
  case (run_step r e r1 es r')
  then obtain m1 where "a \<in> set (seats r1)" "info r1 a = Some m1" "kept m m1"
    using step_kept [OF run_step.hyps(1) run_step.prems(1,2)] by auto
  then show ?case using run_step.IH [of m1] run_step.prems kept_trans by fastforce
qed auto

section \<open>What was heard\<close>

fun heard :: "ptr \<Rightarrow> room_event list \<Rightarrow> byte list list" where
  "heard c [] = []"
| "heard c (Say a msg # es) = (if a = c then msg # heard c es else heard c es)"
| "heard c (_ # es) = heard c es"

lemma heard_append [simp]: "heard c (es @ es') = heard c es @ heard c es'"
  by (induction c es rule: heard.induct) auto

lemma heard_says [simp]: "heard c (map (Say a) ms) = (if a = c then ms else [])"
  by (induction ms) auto

lemma heard_joins [simp]: "heard c (map Join cs) = []"
  by (induction cs) auto

definition unsaid :: "server \<Rightarrow> ptr \<Rightarrow> byte list" where
  "unsaid w c = (case clients w c of None \<Rightarrow> [] | Some ci \<Rightarrow> message_of ci)"

text \<open>
  \<open>accounted es w w'\<close>: for everyone who stays, the messages heard and the bytes consumed agree.
  \<open>implements es w w'\<close>: the server did what the room does, and accounts for it.
\<close>

definition accounted :: "room_event list \<Rightarrow> server \<Rightarrow> server \<Rightarrow> bool" where
  "accounted es w w' \<longleftrightarrow> (\<forall>c \<in> set (roster w). Leave c \<notin> set es \<longrightarrow> \<not> is_closed w' c \<longrightarrow>
     (\<exists>fs. input_view c w = concat (map raw_bytes fs) @ input_view c w' \<and>
        (\<forall>f \<in> set fs. length (fst f) \<le> BUF_SIZE) \<and>
        assemble (unsaid w c) fs = (heard c es, unsaid w' c)))"

definition implements :: "room_event list \<Rightarrow> server \<Rightarrow> server \<Rightarrow> bool" where
  "implements es w w' \<longleftrightarrow> room_run (room_of w) es (room_of w') \<and> accounted es w w'"

lemma accountedI:
  assumes "\<And>c. c \<in> set (roster w) \<Longrightarrow> Leave c \<notin> set es \<Longrightarrow> \<not> is_closed w' c \<Longrightarrow>
     heard c es = [] \<and> input_view c w' = input_view c w \<and> unsaid w' c = unsaid w c"
  shows "accounted es w w'"
  using assms by (auto simp: accounted_def intro!: exI [of _ "[]"])

lemma implements_refl: "implements [] w w"
  by (simp add: implements_def accountedI)

lemma implements_trans:
  assumes "implements es w w1" "implements es' w1 w2" "server_ok w" "server_ok w1"
  shows "implements (es @ es') w w2"
proof -
  have run: "room_run (room_of w) es (room_of w1)" "room_run (room_of w1) es' (room_of w2)"
    using assms by (simp_all add: implements_def)
  have "\<exists>fs. input_view c w = concat (map raw_bytes fs) @ input_view c w2 \<and>
        (\<forall>f \<in> set fs. length (fst f) \<le> BUF_SIZE) \<and>
        assemble (unsaid w c) fs = (heard c (es @ es'), unsaid w2 c)"
    if c: "c \<in> set (roster w)" "Leave c \<notin> set (es @ es')" "\<not> is_closed w2 c" for c
  proof -
    obtain m where "info (room_of w) c = Some m" using seated_info [OF assms(3) c(1)] by metis
    then have c1: "c \<in> set (roster w1)" using run_kept [OF run(1), of c] c by simp
    obtain ci where ci: "clients w1 c = Some ci" "info (room_of w1) c = Some (member_of w1 c ci)"
      using seated_info [OF assms(4) c1] .
    obtain m' where m': "c \<in> set (roster w2)" "info (room_of w2) c = Some m'" "kept (member_of w1 c ci) m'"
      using run_kept [OF run(2) _ ci(2)] c c1 by auto
    then obtain c2 where "clients w2 c = Some c2" "m' = member_of w2 c c2" by (auto simp: room_of_def)
    then have "\<not> is_closed w1 c" using c(3) ci m'(3) by (auto simp: is_closed_def kept_def)
    then obtain fs where fs: "input_view c w = concat (map raw_bytes fs) @ input_view c w1"
      "\<forall>f \<in> set fs. length (fst f) \<le> BUF_SIZE" "assemble (unsaid w c) fs = (heard c es, unsaid w1 c)"
      using assms(1) c by (auto simp: implements_def accounted_def)
    obtain gs where gs: "input_view c w1 = concat (map raw_bytes gs) @ input_view c w2"
      "\<forall>f \<in> set gs. length (fst f) \<le> BUF_SIZE" "assemble (unsaid w1 c) gs = (heard c es', unsaid w2 c)"
      using assms(2) c c1 by (auto simp: implements_def accounted_def)
    show ?thesis
      by (rule exI [of _ "fs @ gs"]) (use fs gs in \<open>auto simp: assemble_append\<close>)
  qed
  then show ?thesis
    using room_run_append [OF run] by (simp add: implements_def accounted_def)
qed

section \<open>The steps of the server\<close>

lemma view_cong:
  assumes "clients w c = Some ci" "clients w' c = Some ci'" "out_fields ci ci'"
    "inq w' (client_fd ci) = inq w (client_fd ci)"
  shows "input_view c w' = input_view c w" "unsaid w' c = unsaid w c"
proof -
  note sel = out_fields_sel [OF assms(3)]
  then have "taken ci' = taken ci" by (simp add: taken_def split: read_state.split)
  then show "input_view c w' = input_view c w" using assms(1,2,4) sel by (simp add: input_view_def)
  show "unsaid w' c = unsaid w c" using assms(1,2) sel by (simp add: unsaid_def message_of_def split: option.split)
qed

lemma member_of_cong:
  assumes "clients w a = Some ca" "clients w' a = Some ca" "chan_sent a w' = chan_sent a w" "stream w' a = stream w a"
  shows "member_of w' a ca = member_of w a ca"
  using assms by (simp add: member_of_def stream_def chan_sent_def)

lemma delivered_views:
  assumes ok: "server_ok w" and c: "c \<in> set (roster w)" and d: "delivered c [] w w'" and a: "a \<in> set (roster w)"
  shows "input_view a w' = input_view a w" "unsaid w' a = unsaid w a"
proof -
  note ev = delivered_evolves [OF server_ok_client [OF ok c] d]
  obtain ca where ca: "clients w a = Some ca" using roster_alive [OF ok a] by blast
  have "\<exists>ca'. clients w' a = Some ca' \<and> out_fields ca ca'"
  proof (cases "a = c")
    case True
    then show ?thesis using ca d unfolding delivered_def by force
  next
    case False
    then show ?thesis using ca evolves_other(1) [OF ok c a False ev] by simp
  qed
  then obtain ca' where ca': "clients w' a = Some ca'" "out_fields ca ca'" by blast
  have "inq w' (client_fd ca) = inq w (client_fd ca)" using delivered_globals(4) [OF d] by simp
  from view_cong [OF ca ca' this]
  show "input_view a w' = input_view a w" "unsaid w' a = unsaid w a" .
qed

lemma tended_views:
  assumes "tended c w w'" "a \<in> set (roster w)" "a \<noteq> c"
  shows "input_view a w' = input_view a w" "unsaid w' a = unsaid w a"
proof -
  obtain ca ca' where "clients w a = Some ca" "clients w' a = Some ca'" "out_fields ca ca'"
    "inq w' (client_fd ca) = inq w (client_fd ca)"
    using assms unfolding tended_def by metis
  from view_cong [OF this] show "input_view a w' = input_view a w" "unsaid w' a = unsaid w a" .
qed

lemma delivered_implements:
  assumes ok: "server_ok w" and c: "c \<in> set (roster w)" and d: "delivered c [] w w'"
  shows "implements [Serve c] w w'"
proof -
  obtain ci ci' where ci: "clients w c = Some ci" "clients w' c = Some ci'" "out_fields ci ci'"
    "stream w' c = stream w c" "prefix (chan_sent c w) (chan_sent c w')"
    using d by (auto simp: delivered_def)
  have ev: "evolves c w w'" by (rule delivered_evolves [OF server_ok_client [OF ok c] d])
  note gl = delivered_globals [OF d] and other = evolves_other [OF ok c _ _ ev]
  note sel = out_fields_sel [OF ci(3)]
  have "closed ci = 1 \<longrightarrow> closed ci' = 1" using ci(3) by (auto simp: out_fields_def)
  then have s: "served [] (member_of w c ci) (member_of w' c ci')"
    using ci sel by (simp add: served_def stream_def chan_sent_def display_name_def)
  have "room_of w' = (room_of w)\<lparr>info := (info (room_of w))(c \<mapsto> member_of w' c ci')\<rparr>"
  proof (rule room_of_update)
    show "roster w' = roster w" using gl by (simp add: roster_def)
    show "clients w' a = Some ca \<and> member_of w' a ca = member_of w a ca"
      if "a \<in> set (roster w)" "a \<noteq> c" "clients w a = Some ca" for a ca
    proof -
      have "clients w' a = Some ca" using other(1) [OF that(1,2)] that(3) by simp
      then show ?thesis using member_of_cong [OF that(3) _ other(5,4) [OF that(1,2)]] by blast
    qed
    show "\<forall>a \<in> set (roster w). clients w a \<noteq> None" using roster_alive [OF ok] by auto
  qed (use c ci gl in simp_all)
  then have "room_step (room_of w) (Serve c) (room_of w')"
    using step_serve [of c "room_of w"] c ci(1) s by simp
  moreover have "accounted [Serve c] w w'"
    using delivered_views [OF ok c d] by (intro accountedI) simp
  ultimately show ?thesis by (simp add: implements_def room_run_one)
qed

text \<open>Joining, one newcomer after the other.\<close>

definition room_with :: "ptr list \<Rightarrow> server \<Rightarrow> room" where
  "room_with cs w = \<lparr>seats = cs,
     info = (\<lambda>c. if c \<in> set cs then map_option (member_of w c) (clients w c) else None),
     halting = (server_shutdown w = 1)\<rparr>"

lemma newcomers_join:
  "\<forall>c \<in> set new. newcomer w c \<and> client_ok w c \<Longrightarrow> distinct (cs @ new) \<Longrightarrow>
     room_run (room_with cs w) (map Join new) (room_with (cs @ new) w)"
proof (induction new arbitrary: cs)
  case (Cons c new)
  obtain ci where ci: "clients w c = Some ci" "closed ci = 0" "has_name ci = 0" "chan_pending c w = []"
    "sent w (client_fd ci) = []"
    using Cons.prems(1) by (auto simp: newcomer_def)
  have "client_wf ci" using Cons.prems(1) ci(1) by (simp add: client_ok_def)
  then have dn: "display_name ci = []" using ci(3) by (simp add: client_wf_def display_name_def)
  have "room_with (cs @ [c]) w = (room_with cs w)\<lparr>seats := cs @ [c],
      info := (info (room_with cs w))(c \<mapsto> member_of w c ci)\<rparr>"
    using ci(1) by (auto simp: room_with_def fun_eq_iff)
  moreover have "room_step (room_with cs w) (Join c) ((room_with cs w)\<lparr>seats := seats (room_with cs w) @ [c],
      info := (info (room_with cs w))(c \<mapsto> member_of w c ci)\<rparr>)"
    using Cons.prems(2) ci dn by (intro step_join) (simp_all add: room_with_def)
  ultimately have "room_step (room_with cs w) (Join c) (room_with (cs @ [c]) w)" by (simp add: room_with_def)
  moreover have "room_run (room_with (cs @ [c]) w) (map Join new) (room_with ((cs @ [c]) @ new) w)"
    using Cons.prems by (intro Cons.IH) simp_all
  ultimately show ?case by auto
qed simp

lemma grown_implements:
  assumes ok: "server_ok w" and g: "grown new w w'"
  shows "implements (map Join new) w w'"
proof -
  note G = g [unfolded grown_def]
  have same: "member_of w' a ca = member_of w a ca" if "a \<in> set (roster w)" "clients w a = Some ca" for a ca
    using grown_client [OF g ok that] by (simp add: member_of_def)
  have "(if a \<in> set (roster w) then map_option (member_of w' a) (clients w' a) else None) =
      (if a \<in> set (roster w) then map_option (member_of w a) (clients w a) else None)" for a
  proof (cases "a \<in> set (roster w)")
    case True
    then obtain ca where "clients w a = Some ca" using roster_alive [OF ok] by blast
    then show ?thesis using True same G by simp
  qed simp
  then have "room_with (roster w) w' = room_of w" using G by (simp add: room_with_def room_of_def)
  moreover have "room_with (roster w @ new) w' = room_of w'" using G by (simp add: room_with_def room_of_def)
  moreover have "distinct (roster w @ new)" using G server_ok_parts(5) [of w'] by simp
  ultimately have "room_run (room_of w) (map Join new) (room_of w')"
    using newcomers_join [of new w' "roster w"] G server_ok_client [of w'] by simp
  moreover have "accounted (map Join new) w w'"
  proof (rule accountedI)
    fix a
    assume a: "a \<in> set (roster w)"
    then obtain ca where ca: "clients w a = Some ca" using roster_alive [OF ok] by blast
    show "heard a (map Join new) = [] \<and> input_view a w' = input_view a w \<and> unsaid w' a = unsaid w a"
      using view_cong [OF ca _ out_fields_refl] grown_client [OF g ok a ca] by simp
  qed
  ultimately show ?thesis by (simp add: implements_def)
qed

lemma shrunk_implements:
  assumes ok: "server_ok w" and sh: "shrunk ps c w w'" and ps: "set ps = cells_of w c" and dead: "is_closed w c"
  shows "implements [Leave c] w w'"
proof -
  note ro = shrunk_roster [OF ok sh]
  have sw: "swept w w'" by (rule shrunk_swept [OF ok sh ps])
  obtain i ci where i: "i < client_count w" "client_list w i = c" "clients w c = Some ci"
    "roster w' = swap_out i (roster w)" "sent w' = sent w" "server_shutdown w' = server_shutdown w" "inq w' = inq w"
    using sh unfolding shrunk_def by blast
  have same: "clients w' a = clients w a" "\<And>ca. clients w a = Some ca \<Longrightarrow> member_of w' a ca = member_of w a ca"
    if "a \<in> set (roster w')" for a
  proof -
    have cl: "clients w' a = clients w a" "stream w' a = stream w a" using sw that by (simp_all add: swept_def)
    then show "clients w' a = clients w a" by simp
    show "member_of w' a ca = member_of w a ca" if "clients w a = Some ca" for ca
      by (rule member_of_cong [OF that]) (use cl i(5) that in \<open>simp_all add: chan_sent_def\<close>)
  qed
  have "info (room_of w') a = ((info (room_of w))(c := None)) a" for a
  proof (cases "a \<in> set (roster w')")
    case True
    then have a: "a \<in> set (roster w)" "a \<noteq> c" using ro by auto
    then obtain ca where ca: "clients w a = Some ca" using roster_alive [OF ok] by blast
    then have "clients w' a = Some ca" using same(1) [OF True] by simp
    then show ?thesis using same(2) [OF True ca] ca True a by simp
  next
    case False
    then have "a = c \<or> a \<notin> set (roster w)" using ro(2) by blast
    then show ?thesis using False by auto
  qed
  then have room: "room_of w' = (room_of w)\<lparr>seats := swap_out i (seats (room_of w)), info := (info (room_of w))(c := None)\<rparr>"
    using i by (intro room.equality ext) simp_all
  have "i < length (seats (room_of w))" "seats (room_of w) ! i = c" using i(1,2) by (simp_all add: roster_def)
  moreover have "info (room_of w) c = Some (member_of w c ci)" "leaving (member_of w c ci)"
    using ro(1) i(3) dead by (simp_all add: is_closed_def)
  ultimately have "room_step (room_of w) (Leave c) (room_of w')" unfolding room by (rule step_leave)
  moreover have "accounted [Leave c] w w'"
  proof (rule accountedI)
    fix a
    assume a: "a \<in> set (roster w)" "Leave a \<notin> set [Leave c]"
    then have "a \<in> set (roster w')" using ro(2) by simp
    from same(1) [OF this] obtain ca where ca: "clients w a = Some ca" "clients w' a = Some ca"
      using roster_alive [OF ok a(1)] by auto
    show "heard a [Leave c] = [] \<and> input_view a w' = input_view a w \<and> unsaid w' a = unsaid w a"
      using view_cong [OF ca out_fields_refl] i(7) by simp
  qed
  ultimately show ?thesis by (simp add: implements_def room_run_one)
qed

text \<open>The pass over the closed clients.\<close>

lemma reap_from_implements:
  assumes "server_ok w" "\<not> client_mutex w"
  shows "ok (reap_from i w) (\<lambda>w'. \<exists>es. implements es w w')"
  using assms
proof (induction "client_count w - i" arbitrary: i w rule: less_induct)
  case less
  note ok = less.prems
  show ?case
  proof (cases "i < client_count w")
    case False
    then show ?thesis using implements_refl by (subst reap_from.simps) auto
  next
    case True
    let ?c = "client_list w i"
    note at = roster_index [OF ok(1) True]
    obtain ci where ci: "clients w ?c = Some ci" using roster_alive [OF ok(1) conjunct2 [OF at]] by blast
    obtain w1 es where w1: "reap_client i w = Some w1" "server_ok w1" "\<not> client_mutex w1"
      "client_count w1 \<le> client_count w" "implements es w w1"
    proof (cases "closed ci = 1")
      case False
      then show ?thesis using that [of w "[]"] at ci ok implements_refl by (simp add: reap_client_def)
    next
      case closed: True
      have cells: "set (queue_cells w ci) = cells_of w ?c" using ci by (simp add: cells_of_def)
      have dead: "is_closed w ?c" using ci closed by (simp add: is_closed_def)
      obtain w1 where w1: "reap_client i w = Some w1" and sh: "shrunk (queue_cells w ci) ?c w w1"
        using reap_client_spec [OF ok True refl ci closed] by (auto elim!: okE)
      have "client_count w1 \<le> client_count w" "\<not> client_mutex w1" using sh by (auto simp: shrunk_def)
      then show ?thesis
        using that [OF w1 shrunk_keeps [OF ok(1) sh cells] _ _ shrunk_implements [OF ok(1) sh cells dead]] by blast
    qed
    have "ok (reap_from (Suc i) w1) (\<lambda>w'. \<exists>es'. implements es' w1 w')"
      using less.hyps [of w1 "Suc i"] w1(2-4) True by simp
    then have "ok (reap_from (Suc i) w1) (\<lambda>w'. \<exists>es'. implements es' w w')"
      by (rule ok_weaken) (use implements_trans [OF w1(5) _ ok(1) w1(2)] in blast)
    then show ?thesis using True w1(1) by (subst reap_from.simps) simp
  qed
qed

text \<open>Reading from a client; when the handler gives up on it, the caller closes it.\<close>

lemma read_implements:
  assumes ok: "server_ok w" "\<not> client_mutex w" "c \<in> set (roster w)" "clients w c = Some ci"
    "budget w ci \<le> INPUT_MAX"
  shows "ok (handle_client_read c w) (\<lambda>(r, w'). (r = 0 \<longrightarrow> (\<exists>es. implements es w w')) \<and>
     (\<forall>w2. delivered c [] w' w2 \<longrightarrow> is_closed w2 c \<longrightarrow> (\<exists>es. implements es w w2)))"
proof (rule ok_weaken [OF handle_client_read_spec [OF ok]], goal_cases)
  case (1 x)
  obtain r w' where x: "x = (r, w')" by fastforce
  have t: "tended c w w'" using 1 by (simp add: x)
  note g = tended_globals [OF t]
  obtain ms where ms: "talked c w ms w'" using 1 by (auto simp: x)
  have "\<exists>es. implements es w w'" if z: "r = 0"
  proof -
    obtain fs ns ci' where *: "reads c w fs ns w'" "talked c w ns w'" "clients w' c = Some ci'"
      "\<forall>f \<in> set fs. length (fst f) \<le> BUF_SIZE" "input_view c w = concat (map raw_bytes fs) @ input_view c w'"
      using 1 z by (auto simp: x)
    have as: "assemble (unsaid w c) fs = (ns, unsaid w' c)"
      using reads_assemble [OF *(1) ok(4)] *(3) ok(4) by (simp add: unsaid_def)
    have "\<exists>gs. input_view a w = concat (map raw_bytes gs) @ input_view a w' \<and>
        (\<forall>f \<in> set gs. length (fst f) \<le> BUF_SIZE) \<and>
        assemble (unsaid w a) gs = (heard a (map (Say c) ns), unsaid w' a)" if "a \<in> set (roster w)" for a
    proof (cases "a = c")
      case True
      show ?thesis by (rule exI [of _ fs]) (use *(4,5) as True in simp)
    next
      case False
      show ?thesis by (rule exI [of _ "[]"]) (use tended_views [OF t that False] False in simp)
    qed
    then have "implements (map (Say c) ns) w w'"
      using *(2) by (simp add: implements_def talked_def accounted_def)
    then show ?thesis by blast
  qed
  moreover have "\<exists>es. implements es w w2" if d: "delivered c [] w' w2" "is_closed w2 c" for w2
  proof -
    have w': "server_ok w'" "c \<in> set (roster w')" using g ok(3) by simp_all
    have "room_run (room_of w) (map (Say c) ms @ [Serve c]) (room_of w2)"
      using ms delivered_implements [OF w' d(1)] room_run_append by (auto simp: implements_def talked_def)
    moreover have "accounted (map (Say c) ms @ [Serve c]) w w2"
    proof (rule accountedI)
      fix a
      assume a: "a \<in> set (roster w)" "\<not> is_closed w2 a"
      then have "a \<noteq> c" "a \<in> set (roster w')" using d(2) g by auto
      then show "heard a (map (Say c) ms @ [Serve c]) = [] \<and> input_view a w2 = input_view a w \<and> unsaid w2 a = unsaid w a"
        using tended_views [OF t a(1)] delivered_views [OF w' d(1)] by simp
    qed
    ultimately show ?thesis by (auto simp: implements_def)
  qed
  ultimately show ?case by (simp add: x)
qed

text \<open>The events.\<close>

lemma dispatch_read_implements:
  assumes inv: "server_inv w" and c: "c \<in> set (roster w)" "clients w c = Some ci" "closed ci \<noteq> 1"
  shows "ok (dispatch_read m c w) (\<lambda>(_, w'). \<exists>es. implements es w w')"
proof (cases "m AND EPOLLIN = 0")
  case True
  then show ?thesis using implements_refl by (auto simp: dispatch_read_def)
next
  case False
  have ok: "server_ok w" "\<not> client_mutex w" and b: "budget w ci \<le> INPUT_MAX"
    using inv c by (auto simp: server_inv_def)
  obtain r w1 where h: "handle_client_read c w = Some (r, w1)" and r: "r = 0 \<longrightarrow> (\<exists>es. implements es w w1)"
    and gone: "\<forall>w2. delivered c [] w1 w2 \<longrightarrow> is_closed w2 c \<longrightarrow> (\<exists>es. implements es w w2)"
    using read_implements [OF ok c(1,2) b] by (auto elim!: okE)
  have rs: "r \<in> {0, -1}" "server_ok w1" "c \<in> set (roster w1)"
    using handle_client_read_spec [OF ok c(1,2) b] c(1) unfolding h by (auto dest: tended_globals)
  obtain w2 where w2: "close_client c w1 = Some w2" "delivered c [] w1 w2" "is_closed w2 c"
    using close_client_delivers [OF rs(2,3)] by (auto elim!: okE)
  show ?thesis
    using h False r rs(1) w2 gone by (auto simp: dispatch_read_def)
qed

lemma dispatch_event_implements:
  assumes inv: "server_inv w" and due: "event_due w ev"
  shows "ok (dispatch_event ev w) (\<lambda>w'. \<exists>es. implements es w w')"
proof -
  obtain m e where ev: "ev = (m, e)" by fastforce
  have ok: "server_ok w" "\<not> client_mutex w" using inv by (simp_all add: server_inv_def)
  show ?thesis
  proof (cases "e = DataFd (server_fd w)")
    case True
    have "ok (accept_new_clients w) (\<lambda>(_, w'). \<exists>es. implements es w w')"
      by (rule ok_weaken [OF accept_new_clients_spec [OF ok]]) (use grown_implements [OF ok(1)] in auto)
    moreover have "dispatch_event ev w = map_option snd (accept_new_clients w)"
      using True by (cases "accept_new_clients w") (simp_all add: dispatch_event_def ev data_fd_def split: prod.splits)
    ultimately show ?thesis by (auto simp: ok_map_snd split: prod.splits elim!: ok_weaken)
  next
    case False
    then obtain c where c: "c \<in> set (roster w)" "e = DataPtr c" using due by (auto simp: event_due_def ev)
    obtain ci where ci: "clients w c = Some ci" using roster_alive [OF ok(1) c(1)] by blast
    have "16 dvd c" using server_ok_client [OF ok(1) c(1)] by (simp add: client_ok_def)
    then have nfd: "data_fd e \<noteq> server_fd w"
      using data_fd_aligned [of c] ok(1) c(2) unfolding server_ok_def by metis
    have ptr: "data_ptr e = c" using c(2) by (simp add: data_ptr_def)
    show ?thesis
    proof (cases "closed ci = 1 \<or> m AND (EPOLLHUP OR EPOLLRDHUP OR EPOLLERR) \<noteq> 0")
      case True
      have "ok (close_client c w) (\<lambda>w'. \<exists>es. implements es w w')"
        by (rule ok_weaken [OF close_client_delivers [OF ok(1) c(1)]])
           (use delivered_implements [OF ok(1) c(1)] in blast)
      then show ?thesis using True nfd ptr ci implements_refl by (auto simp: dispatch_event_def ev)
    next
      case False
      then have op: "closed ci \<noteq> 1" by simp
      obtain g w1 es where r: "dispatch_read m c w = Some (g, w1)" "server_inv w1" "roster w1 = roster w"
        "implements es w w1"
        using ok_conj [OF dispatch_read_keeps [OF inv c(1) ci op, of m] dispatch_read_implements [OF inv c(1) ci op, of m]]
        by (auto elim!: okE)
      have ok1: "server_ok w1" "c \<in> set (roster w1)" using r(2,3) c(1) by (simp_all add: server_inv_def)
      have "ok (dispatch_write m c w1) (\<lambda>w'. \<exists>es. implements es w w')"
        by (rule ok_weaken [OF dispatch_write_delivers [OF ok1]])
           (use delivered_implements [OF ok1] implements_trans [OF r(4) _ ok(1) ok1(1)] in blast)
      then show ?thesis using False nfd ptr ci r(1,4) by (auto simp: dispatch_event_def ev)
    qed
  qed
qed

section \<open>The loop\<close>

text \<open>
  An event loop whose pass and handler stay within a relation \<open>run\<close>, as the runs of an abstract machine
  do: then so does every round.
\<close>

locale refining_loop = event_loop +
  fixes run :: "'s \<Rightarrow> 's \<Rightarrow> bool"
  assumes run_refl: "inv s \<Longrightarrow> run s s"
    and run_trans: "inv s \<Longrightarrow> inv s1 \<Longrightarrow> run s s1 \<Longrightarrow> run s1 s2 \<Longrightarrow> run s s2"
    and pass_runs: "inv s \<Longrightarrow> ok (pass s) (run s)"
    and handle_runs: "inv s \<Longrightarrow> due s e \<Longrightarrow> ok (handle e s) (run s)"
begin

lemma each_runs:
  "inv s \<Longrightarrow> \<forall>e \<in> set es. due s e \<Longrightarrow> ok (each handle es s) (\<lambda>s'. inv s' \<and> run s s')"
proof (induction es arbitrary: s)
  case (Cons e es)
  obtain s1 where s1: "handle e s = Some s1" "inv s1" "\<forall>e'. due s e' \<longrightarrow> due s1 e'" "run s s1"
    using ok_conj [OF handle_law [of s e] handle_runs [of s e]] Cons.prems by (auto elim!: okE)
  have "ok (each handle es s1) (\<lambda>s'. inv s' \<and> run s1 s')" using Cons s1 by simp
  then have "ok (each handle es s1) (\<lambda>s'. inv s' \<and> run s s')"
    by (rule ok_weaken) (use run_trans [OF Cons.prems(1) s1(2,4)] in blast)
  then show ?case using s1(1) by simp
qed (simp add: run_refl)

lemma round_runs:
  assumes "inv s"
  shows "ok (pass s) (\<lambda>s1. inv s1 \<and> run s s1 \<and>
     (\<forall>a es. wait a s1 = Some es \<longrightarrow> ok (each handle es s1) (\<lambda>s2. inv s2 \<and> run s s2)))"
proof (rule ok_weaken [OF ok_conj [OF pass_law pass_runs, OF assms assms]], intro conjI allI impI)
  fix s1 a es
  assume s1: "inv s1 \<and> run s s1" and w: "wait a s1 = Some es"
  then have "ok (each handle es s1) (\<lambda>s2. inv s2 \<and> run s1 s2)"
    using wait_law by (intro each_runs) blast+
  then show "ok (each handle es s1) (\<lambda>s2. inv s2 \<and> run s s2)"
    by (rule ok_weaken) (use run_trans [OF assms] s1 in blast)
qed auto

end

interpretation room_loop: refining_loop server_inv event_due "reap_from 0" "epoll_wait MAX_EVENTS" dispatch_event
  "\<lambda>w w'. \<exists>es. implements es w w'"
proof unfold_locales
  fix w w1 w2
  show "\<exists>es. implements es w w" using implements_refl by blast
  show "\<exists>es. implements es w w2"
    if "server_inv w" "server_inv w1" "\<exists>es. implements es w w1" "\<exists>es. implements es w1 w2"
    using that implements_trans unfolding server_inv_def by blast
  show "ok (reap_from 0 w) (\<lambda>w'. \<exists>es. implements es w w')" if "server_inv w"
    using that by (intro reap_from_implements) (simp_all add: server_inv_def)
  show "ok (dispatch_event e w) (\<lambda>w'. \<exists>es. implements es w w')" if "server_inv w" "event_due w e" for e
    using that by (rule dispatch_event_implements)
qed

lemma server_loop_from_implements:
  "server_inv w \<Longrightarrow> ok (server_loop_from as w) (\<lambda>(r, w'). \<exists>es w1. implements es w w1 \<and> server_inv w1 \<and>
     (if r = Some 0 then server_shutdown w1 = 1 \<and> stop_server w1 = Some (0, w') else w' = w1))"
proof (induction as arbitrary: w)
  case (Nil w)
  obtain r w' where st: "stop_server w = Some (r, w')" "r = 0"
    using stop_server_spec [of w] Nil by (auto simp: server_inv_def ok_conv)
  have "ok (reap_from 0 w) (\<lambda>w1. server_inv w1 \<and> (\<exists>es. implements es w w1))"
    by (rule ok_weaken [OF room_loop.round_runs [OF Nil]]) auto
  then show ?case
    using st Nil implements_refl [of w] by (auto simp: returned_def wp elim!: ok_weaken)
next
  case (Cons a as w)
  show ?case
  proof (cases "server_shutdown w = 1")
    case True
    obtain r w' where "stop_server w = Some (r, w')" "r = 0"
      using stop_server_spec [of w] Cons.prems by (auto simp: server_inv_def ok_conv)
    then show ?thesis using True Cons.prems implements_refl [of w] by (auto simp: returned_def)
  next
    case False
    obtain w1 es where w1: "reap_from 0 w = Some w1" "server_inv w1" "implements es w w1"
      "\<forall>a evs. epoll_wait MAX_EVENTS a w1 = Some evs \<longrightarrow>
         ok (each dispatch_event evs w1) (\<lambda>w2. server_inv w2 \<and> (\<exists>es. implements es w w2))"
      using room_loop.round_runs [OF Cons.prems] by (auto elim!: okE)
    show ?thesis
    proof (cases "epoll_wait MAX_EVENTS a w1")
      case None
      then show ?thesis using False w1(1-3) by auto
    next
      case (Some evs)
      then obtain w2 es2 where w2: "each dispatch_event evs w1 = Some w2" "server_inv w2" "implements es2 w w2"
        using w1(4) [rule_format, OF Some] by (auto elim: okE)
      have "ok (server_loop_from as w2) (\<lambda>(r, w'). \<exists>es w3. implements es w w3 \<and> server_inv w3 \<and>
         (if r = Some 0 then server_shutdown w3 = 1 \<and> stop_server w3 = Some (0, w') else w' = w3))"
      proof (rule ok_weaken [OF Cons.IH [OF w2(2)]], goal_cases)
        case (1 x)
        then obtain r w' es3 w3 where x: "x = (r, w')" "implements es3 w2 w3" "server_inv w3"
          "if r = Some 0 then server_shutdown w3 = 1 \<and> stop_server w3 = Some (0, w') else w' = w3"
          by (cases x) auto
        have "implements (es2 @ es3) w w3"
          using implements_trans [OF w2(3) x(2)] Cons.prems w2(2) by (simp add: server_inv_def)
        then show ?case unfolding x(1) prod.case using x(3,4) by blast
      qed
      then show ?thesis using False w1(1) Some w2(1) by simp
    qed
  qed
qed

lemma server_loop_implements:
  assumes inv: "server_inv w"
  shows "ok (server_loop as w) (\<lambda>(r, w'). \<exists>es w1. implements es w w1 \<and> server_inv w1 \<and>
     (if r = Some 0 then server_shutdown w1 = 1 \<and> stop_server w1 = Some (0, w') else w' = w1))"
proof -
  let ?ev = "(EPOLLIN, DataFd (server_fd w))"
  obtain r w0 where e: "epoll_ctl EPOLL_CTL_ADD (server_fd w) ?ev w = (r, w0)" by fastforce
  obtain es it where w0: "w0 = w\<lparr>epctls := es, interest := it\<rparr>"
    and it: "it \<in> {interest w, (interest w)(server_fd w \<mapsto> ?ev)}"
    using listening_registered [OF e] by blast
  have inv0: "server_inv w0" by (rule listening_keeps [OF inv w0]) (use it in auto)
  have cells: "queue_cells w0 = queue_cells w" by (intro ext) (simp add: w0 queue_cells_def)
  have same: "clients w0 = clients w" "packets w0 = packets w" "sent w0 = sent w"
    "server_shutdown w0 = server_shutdown w" "inq w0 = inq w" by (simp_all add: w0)
  have m: "member_of w0 = member_of w"
    by (intro ext) (simp add: member_of_def chan_pending_def cells same split: option.split)
  have ro: "roster w0 = roster w" by (simp add: roster_def w0)
  have room: "room_of w0 = room_of w" by (rule room_of_cong [OF ro]) (simp_all add: m same)
  have views: "input_view a w0 = input_view a w" "unsaid w0 a = unsaid w a" "is_closed w0 a = is_closed w a" for a
    by (simp_all add: input_view_def unsaid_def is_closed_def same split: option.split)
  have w: "implements es w w'" if "implements es w0 w'" for es w'
    using that by (simp add: implements_def accounted_def room ro views)
  have self: "implements [] w w0" using w [OF implements_refl] .
  show ?thesis
  proof (cases "r = -1")
    case True
    then have "server_loop as w = Some (Some (-1), w0)" using e by (simp add: server_loop_def)
    then show ?thesis using self inv0 by auto
  next
    case False
    then have run: "server_loop as w = server_loop_from as w0" using e by (simp add: server_loop_def)
    show ?thesis
      unfolding run
    proof (rule ok_weaken [OF server_loop_from_implements [OF inv0]], goal_cases)
      case (1 x)
      obtain r w' where x: "x = (r, w')" by fastforce
      show ?case using 1 unfolding x prod.case using w by blast
    qed
  qed
qed

text \<open>Of a connection that carries a stream of frames the room hears the first of its messages.\<close>

lemma frames_are_heard:
  assumes "server_inv w" "c \<in> set (roster w)" "input_view c w = concat (map raw_bytes gs)"
    and "\<forall>g \<in> set gs. length (fst g) < 2 ^ 32"
  shows "ok (server_loop as w) (\<lambda>(r, w'). \<exists>es w1. room_run (room_of w) es (room_of w1) \<and>
     (if r = Some 0 then halting (room_of w1) \<and> stop_server w1 = Some (0, w') else w' = w1) \<and>
     (Leave c \<notin> set es \<longrightarrow> \<not> is_closed w1 c \<longrightarrow>
        (\<exists>ls. fst (assemble (unsaid w c) gs) = heard c es @ ls) \<and>
        (input_view c w1 = [] \<longrightarrow> assemble (unsaid w c) gs = (heard c es, unsaid w1 c))))"
proof (rule ok_weaken [OF server_loop_implements [OF assms(1)]], goal_cases)
  case (1 x)
  then obtain r w' es w1 where x: "x = (r, w')" "implements es w w1"
    "if r = Some 0 then server_shutdown w1 = 1 \<and> stop_server w1 = Some (0, w') else w' = w1"
    by (cases x) auto
  have run: "room_run (room_of w) es (room_of w1)" using x(2) by (simp add: implements_def)
  have "(\<exists>ls. fst (assemble (unsaid w c) gs) = heard c es @ ls) \<and>
        (input_view c w1 = [] \<longrightarrow> assemble (unsaid w c) gs = (heard c es, unsaid w1 c))"
    if c: "Leave c \<notin> set es" "\<not> is_closed w1 c"
  proof -
    obtain fs where fs: "concat (map raw_bytes fs) @ input_view c w1 = concat (map raw_bytes gs)"
      "\<forall>f \<in> set fs. length (fst f) \<le> BUF_SIZE" "assemble (unsaid w c) fs = (heard c es, unsaid w1 c)"
      using x(2) c assms(2,3) by (auto simp: implements_def accounted_def)
    show ?thesis by (rule cut_frames_assemble [OF fs(1,2) assms(4) fs(3)])
  qed
  then show ?case unfolding x(1) prod.case using run x(3) by (intro exI [of _ es] exI [of _ w1]) simp
qed

section \<open>Properties\<close>

text \<open>
  Claim C2. The server implements the chat room. Whatever the answers of \<open>epoll_wait\<close> and whatever
  the sockets deliver and accept, a run of the loop is a run of the abstract room, in which people join,
  leave when they are marked to, are served what is due to them, and speak, each message having the effect
  the room prescribes on every member; and what is heard of a member who stays and is open is exactly
  what the frames cut off the bytes its connection delivered assemble to. The loop returns 0 only from a
  halting room, by way of the shutdown sequence.
\<close>

theorem server_refines_room:
  assumes "server_inv w"
  shows "ok (server_loop as w) (\<lambda>(r, w'). \<exists>es w1. room_run (room_of w) es (room_of w1) \<and>
     (if r = Some 0 then halting (room_of w1) \<and> stop_server w1 = Some (0, w') else w' = w1) \<and>
     (\<forall>c \<in> set (roster w). Leave c \<notin> set es \<longrightarrow> \<not> is_closed w1 c \<longrightarrow>
        (\<exists>fs. input_view c w = concat (map raw_bytes fs) @ input_view c w1 \<and>
           (\<forall>f \<in> set fs. length (fst f) \<le> 4096) \<and>
           assemble (unsaid w c) fs = (heard c es, unsaid w1 c))))"
proof (rule ok_weaken [OF server_loop_implements [OF assms]], goal_cases)
  case (1 x)
  then obtain r w' es w1 where x: "x = (r, w')" "implements es w w1"
    "if r = Some 0 then server_shutdown w1 = 1 \<and> stop_server w1 = Some (0, w') else w' = w1"
    by (cases x) auto
  have "room_run (room_of w) es (room_of w1)" using x(2) by (simp add: implements_def)
  moreover have "\<forall>c \<in> set (roster w). Leave c \<notin> set es \<longrightarrow> \<not> is_closed w1 c \<longrightarrow>
        (\<exists>fs. input_view c w = concat (map raw_bytes fs) @ input_view c w1 \<and>
           (\<forall>f \<in> set fs. length (fst f) \<le> 4096) \<and>
           assemble (unsaid w c) fs = (heard c es, unsaid w1 c))"
    using x(2) by (simp add: implements_def accounted_def BUF_SIZE_def)
  ultimately show ?case unfolding x(1) prod.case using x(3) by (intro exI [of _ es] exI [of _ w1]) simp
qed

theorem server_refines_room_witness:
  "ok (server_loop [WaitReady [(7, EPOLLIN), (8, EPOLLOUT)]] (two_clients [RdData hi_frame] [])) (\<lambda>(r, w').
     \<exists>es w1. room_run (room_of (two_clients [RdData hi_frame] [])) es (room_of w1) \<and>
       (r \<noteq> Some 0 \<longrightarrow> w' = w1))"
proof -
  have "server_inv (two_clients [RdData hi_frame] [])"
    by (rule two_clients_inv) (simp add: hi_frame_def raw_bytes_def HEADER_SIZE_def BUF_SIZE_def)
  from server_refines_room [OF this] show ?thesis
  proof (rule ok_weaken, goal_cases)
    case (1 x)
    obtain r w' where x: "x = (r, w')" by fastforce
    show ?case using 1 unfolding x prod.case by (metis (lifting))
  qed
qed



end
