(* ===== verification/Chat_Fuzz.thy ===== *)
theory Chat_Fuzz
  imports Chat_Refinement
begin

text \<open>
  The two load generators (tests/fuzzer_raw.c, tests/fuzzer_valid.c): many threads that each open a
  connection and send random bytes, or random frames of the server's format, and a \<open>main\<close> that
  creates the threads and joins them. The threads are interleaved by single sends. What they need of the system
  beyond \<open>os\<close> is the record \<open>fuzz\<close>: the outcomes of socket, connect and pthread_create, the
  random numbers, and whether SIGPIPE, which these programs do not ignore, has ended the process.
\<close>

section \<open>System calls\<close>

definition MAX_PAYLOAD :: nat where "MAX_PAYLOAD = 4096"

record fuzz_args =
  ip :: string
  port :: int
  messages :: int
  delay_us :: int

text \<open>
  A socket comes with the result that connecting it will have and with the script of its sends. The
  ghost component \<open>streams\<close> collects what each connection had transmitted when it was closed at the end.
\<close>

datatype sock_ev = SockFails | SockOpens fd int "wr_ev list"

record fuzz = os +
  sockets :: "sock_ev list"
  connects :: "fd \<Rightarrow> int"
  pton :: "string \<Rightarrow> byte list option"
  dialled :: "sockaddr_in list"
  randoms :: "nat \<Rightarrow> nat"
  drawn :: nat
  creates :: "int list"
  slept :: int
  killed :: bool
  streams :: "byte list list"

definition sys_socket :: "fuzz \<Rightarrow> int \<times> fuzz" where
  "sys_socket w =
     (case sockets w of
        [] \<Rightarrow> (-1, w)
      | SockFails # r \<Rightarrow> (-1, w\<lparr>sockets := r\<rparr>)
      | SockOpens d c ws # r \<Rightarrow>
          if d < 0 \<or> opened w d then (-1, w\<lparr>sockets := r\<rparr>)
          else (d, w\<lparr>sockets := r, opened := (opened w)(d := True), outq := (outq w)(d := ws),
                     sent := (sent w)(d := []), connects := (connects w)(d := c)\<rparr>))"

definition sys_connect :: "fd \<Rightarrow> sockaddr_in \<Rightarrow> fuzz \<Rightarrow> int \<times> fuzz" where
  "sys_connect d a w = (connects w d, w\<lparr>dialled := dialled w @ [a]\<rparr>)"

text \<open>\<open>rand\<close> lies between 0 and \<open>RAND_MAX\<close>, which is 2 to the 31 less one.\<close>

definition sys_rand :: "fuzz \<Rightarrow> int \<times> fuzz" where
  "sys_rand w = (int (randoms w (drawn w) mod 2 ^ 31), w\<lparr>drawn := drawn w + 1\<rparr>)"

text \<open>A send on a connection the peer has reset raises SIGPIPE, since no flag suppresses it.\<close>

definition sys_send :: "fd \<Rightarrow> byte list \<Rightarrow> fuzz \<Rightarrow> (errno + nat) \<times> fuzz" where
  "sys_send d data w =
     (let (r, w1) = sys_write d data w in (r, if r = Inl EPIPE then w1\<lparr>killed := True\<rparr> else w1))"

text \<open>An array on the stack is not initialised.\<close>

definition stack_array :: "nat \<Rightarrow> fuzz \<Rightarrow> byte list" where
  "stack_array n w = map (junk w) [0..<n]"

lemma length_stack_array [simp]: "length (stack_array n w) = n"
  by (simp add: stack_array_def)

section \<open>One message\<close>

text \<open>The loop \<open>buf[j] = rand() % 256\<close> from index \<open>j\<close> on, for the given number of rounds.\<close>

primrec fill_random :: "nat \<Rightarrow> nat \<Rightarrow> byte list \<Rightarrow> fuzz \<Rightarrow> (byte list \<times> fuzz) option" where
  "fill_random 0 j arr w = Some (arr, w)"
| "fill_random (Suc k) j arr w =
     (let (r, w1) = sys_rand w in do {
        arr1 \<leftarrow> memcpy_at arr j [word_of_int (r mod 256)];
        fill_random k (Suc j) arr1 w1
      })"

text \<open>What a round of the message loop draws: the data of the sends that it goes on to make, in order.\<close>

definition raw_draw :: "fuzz \<Rightarrow> (byte list list \<times> fuzz) option" where
  "raw_draw w =
     (let (r, w1) = sys_rand w; len = nat (r mod int MAX_PAYLOAD + 1) in do {
        (arr, w2) \<leftarrow> fill_random len 0 (stack_array MAX_PAYLOAD w1) w1;
        data \<leftarrow> slice arr 0 len;
        Some ([data], w2)
      })"

definition valid_draw :: "fuzz \<Rightarrow> (byte list list \<times> fuzz) option" where
  "valid_draw w =
     (let (r, w1) = sys_rand w; payload_len = (word_of_int (r mod int MAX_PAYLOAD) :: 32 word) in do {
        header \<leftarrow> memcpy_at (stack_array 6 w1) 0 (u32_image (htonl payload_len));
        let (r, w2) = sys_rand w1;
        header \<leftarrow> memcpy_at header 4 [word_of_int (r mod 3)];
        let (r, w3) = sys_rand w2;
        header \<leftarrow> memcpy_at header 5 [word_of_int (r mod 2)];
        (payload, w4) \<leftarrow> fill_random (unat payload_len) 0 (stack_array MAX_PAYLOAD w3) w3;
        data \<leftarrow> slice payload 0 (unat payload_len);
        Some (if 0 < payload_len then [header, data] else [header], w4)
      })"

section \<open>One thread\<close>

text \<open>
  \<open>Absent\<close> is a thread that was not created. \<open>Sending d i out\<close> is a connected thread in round \<open>i\<close> of its
  loop that still has to send \<open>out\<close>; with nothing to send it stands at the loop's test. The results of
  the sends are ignored, as in the code.
\<close>

datatype fuzz_thread = Absent | Starting | Sending fd nat "byte list list" | Finished

definition fuzz_connect :: "fuzz_args \<Rightarrow> fuzz \<Rightarrow> fuzz_thread \<times> fuzz" where
  "fuzz_connect fa w =
     (let (d, w1) = sys_socket w
      in if d < 0 then (Finished, w1)
         else (let a = \<lparr>sin_family = AF_INET, sin_port = htons (word_of_int (port fa)),
                        sin_addr = (case pton w1 (ip fa) of None \<Rightarrow> [0, 0, 0, 0] | Some b \<Rightarrow> b)\<rparr>;
                   (r, w2) = sys_connect d a w1
               in if r < 0 then (let (_, w3) = sys_close d w2 in (Finished, w3))
                  else (Sending d 0 [], w2)))"

definition fuzz_pause :: "fuzz_args \<Rightarrow> fuzz \<Rightarrow> fuzz" where
  "fuzz_pause fa w = (if delay_us fa > 0 then w\<lparr>slept := slept w + delay_us fa\<rparr> else w)"

definition fuzz_close :: "fd \<Rightarrow> fuzz \<Rightarrow> fuzz" where
  "fuzz_close d w = (let (_, w1) = sys_close d w in w1\<lparr>streams := streams w1 @ [sent w d]\<rparr>)"

text \<open>The next step of a thread; the option is for a fault.\<close>

fun fuzz_client ::
  "(fuzz \<Rightarrow> (byte list list \<times> fuzz) option) \<Rightarrow> fuzz_args \<Rightarrow> fuzz_thread \<Rightarrow> fuzz
     \<Rightarrow> (fuzz_thread \<times> fuzz) option" where
  "fuzz_client draw fa Starting w = Some (fuzz_connect fa w)"
| "fuzz_client draw fa (Sending d i []) w =
     (if int i < messages fa then do { (out, w1) \<leftarrow> draw w; Some (Sending d i out, w1) }
      else Some (Finished, fuzz_close d w))"
| "fuzz_client draw fa (Sending d i (data # out)) w =
     (let (_, w1) = sys_send d data w
      in Some (if out = [] then (Sending d (i + 1) [], fuzz_pause fa w1) else (Sending d i out, w1)))"
| "fuzz_client draw fa t w = Some (t, w)"

section \<open>The whole program\<close>

text \<open>
  \<open>main\<close> is at the creation or at the join of a thread, or it has returned. Joining a thread that was not
  created reads an element of \<open>threads\<close> that was never set, so the run has no meaning from there on.
\<close>

datatype main_at = Spawning nat | Joining nat | Exited int | Undefined

record crew =
  main_at :: main_at
  threads :: "fuzz_thread list"
  world :: fuzz

definition fuzz_main :: "nat \<Rightarrow> fuzz \<Rightarrow> crew" where
  "fuzz_main n w = \<lparr>main_at = Spawning 0, threads = replicate n Absent, world = w\<rparr>"

definition fuzz_main_step :: "crew \<Rightarrow> crew option" where
  "fuzz_main_step s =
     (case main_at s of
        Spawning i \<Rightarrow>
          if i < length (threads s) then
            (let (r, cs) = pop_default 0 (creates (world s))
             in Some (s\<lparr>main_at := Spawning (i + 1),
                        threads := (if r = 0 then (threads s)[i := Starting] else threads s),
                        world := (world s)\<lparr>creates := cs\<rparr>\<rparr>))
          else Some (s\<lparr>main_at := Joining 0\<rparr>)
      | Joining i \<Rightarrow>
          if i < length (threads s) then
            (case threads s ! i of
               Finished \<Rightarrow> Some (s\<lparr>main_at := Joining (i + 1)\<rparr>)
             | Absent \<Rightarrow> Some (s\<lparr>main_at := Undefined\<rparr>)
             | _ \<Rightarrow> None)
          else Some (s\<lparr>main_at := Exited 0\<rparr>)
      | _ \<Rightarrow> None)"

text \<open>The process runs until \<open>main\<close> returns, a signal kills it or a step has no meaning.\<close>

definition running :: "crew \<Rightarrow> bool" where
  "running s \<longleftrightarrow> \<not> killed (world s) \<and> (case main_at s of Exited _ \<Rightarrow> False | Undefined \<Rightarrow> False | _ \<Rightarrow> True)"

inductive fuzz_step ::
  "(fuzz \<Rightarrow> (byte list list \<times> fuzz) option) \<Rightarrow> fuzz_args \<Rightarrow> crew \<Rightarrow> crew \<Rightarrow> bool" for draw fa where
  main_moves: "running s \<Longrightarrow> fuzz_main_step s = Some s' \<Longrightarrow> fuzz_step draw fa s s'"
| thread_moves: "running s \<Longrightarrow> k < length (threads s) \<Longrightarrow> threads s ! k \<notin> {Absent, Finished} \<Longrightarrow>
     fuzz_client draw fa (threads s ! k) (world s) = Some (t, w) \<Longrightarrow>
     fuzz_step draw fa s (s\<lparr>threads := (threads s)[k := t], world := w\<rparr>)"
| thread_faults: "running s \<Longrightarrow> k < length (threads s) \<Longrightarrow>
     fuzz_client draw fa (threads s ! k) (world s) = None \<Longrightarrow>
     fuzz_step draw fa s (s\<lparr>main_at := Undefined\<rparr>)"

inductive_cases fuzz_stepE: "fuzz_step draw fa s s'"

text \<open>The two programs with their constants.\<close>

definition raw_args :: fuzz_args where
  "raw_args = \<lparr>ip = ''127.0.0.1'', port = 8000, messages = 50, delay_us = 1\<rparr>"

definition valid_args :: fuzz_args where
  "valid_args = \<lparr>ip = ''127.0.0.1'', port = 8000, messages = 500, delay_us = 0\<rparr>"

definition raw_fuzzer :: "fuzz \<Rightarrow> crew \<Rightarrow> bool" where
  "raw_fuzzer w = (fuzz_step raw_draw raw_args)\<^sup>*\<^sup>* (fuzz_main 10000 w)"

definition valid_fuzzer :: "fuzz \<Rightarrow> crew \<Rightarrow> bool" where
  "valid_fuzzer w = (fuzz_step valid_draw valid_args)\<^sup>*\<^sup>* (fuzz_main 1000 w)"

section \<open>What a round draws\<close>

lemma fill_random_ok:
  "j + k \<le> length bs \<Longrightarrow> ok (fill_random k j bs w) (\<lambda>(bs', w').
     length bs' = length bs \<and> w' = w\<lparr>drawn := drawn w + k\<rparr>)"
proof (induction k arbitrary: j bs w)
  case (Suc k)
  obtain r w1 where r: "sys_rand w = (r, w1)" and w1: "w1 = w\<lparr>drawn := drawn w + 1\<rparr>"
    by (simp add: sys_rand_def)
  obtain bs1 where bs1: "memcpy_at bs j [word_of_int (r mod 256)] = Some bs1" "length bs1 = length bs"
    using Suc.prems by (auto simp: memcpy_at_def)
  have "ok (fill_random k (Suc j) bs1 w1) (\<lambda>(bs', w'). length bs' = length bs1 \<and> w' = w1\<lparr>drawn := drawn w1 + k\<rparr>)"
    using Suc.IH [of "Suc j" bs1 w1] Suc.prems bs1(2) by simp
  then show ?case
    unfolding fill_random.simps r prod.case Let_def bs1(1) bind.simps
    by (rule ok_weaken) (auto simp: w1 bs1(2))
qed simp

lemma rand_mod:
  assumes "sys_rand w = (r, w1)" "0 < n"
  shows "0 \<le> r mod int n" "r mod int n < int n" "w1 = w\<lparr>drawn := drawn w + 1\<rparr>"
  using assms by (auto simp: sys_rand_def)

lemma raw_draw_ok:
  "ok (raw_draw w) (\<lambda>(out, w'). \<exists>u. out = [u] \<and> 1 \<le> length u \<and> length u \<le> MAX_PAYLOAD \<and>
     w' = w\<lparr>drawn := drawn w'\<rparr>)"
proof -
  obtain r w1 where r: "sys_rand w = (r, w1)" by fastforce
  define len where "len = nat (r mod int MAX_PAYLOAD + 1)"
  have len: "1 \<le> len" "len \<le> MAX_PAYLOAD" and w1: "w1 = w\<lparr>drawn := drawn w + 1\<rparr>"
    using rand_mod [OF r, of MAX_PAYLOAD] by (auto simp: len_def MAX_PAYLOAD_def)
  have "ok (fill_random len 0 (stack_array MAX_PAYLOAD w1) w1) (\<lambda>(bs, w').
          length bs = MAX_PAYLOAD \<and> w' = w1\<lparr>drawn := drawn w1 + len\<rparr>)"
    using fill_random_ok [of 0 len "stack_array MAX_PAYLOAD w1" w1] len by simp
  then show ?thesis
    unfolding raw_draw_def r prod.case Let_def len_def [symmetric] wp
    by (rule ok_weaken) (use len w1 in \<open>auto simp: wp\<close>)
qed

text \<open>The random frame is laid out by hand, and yet it is a frame of the server's format.\<close>

lemma header_by_hand:
  assumes "length hs = 6" "length is = 4"
  shows "do { h \<leftarrow> memcpy_at hs 0 is; h \<leftarrow> memcpy_at h 4 [x]; memcpy_at h 5 [y] } = Some (is @ [x, y])"
proof -
  obtain a b c d e f where "hs = [a, b, c, d, e, f]" using assms(1) by (auto simp: length_Suc_conv eval_nat_numeral)
  moreover obtain a' b' c' d' where "is = [a', b', c', d']" using assms(2) by (auto simp: length_Suc_conv eval_nat_numeral)
  ultimately show ?thesis by (simp add: memcpy_at_def)
qed

lemma valid_draw_ok:
  "ok (valid_draw w) (\<lambda>(out, w'). \<exists>p ty dn. length p < MAX_PAYLOAD \<and> ty < 3 \<and> dn < 2 \<and>
     out = (if p = [] then [raw_header 0 ty dn] else [raw_header (of_nat (length p)) ty dn, p]) \<and>
     w' = w\<lparr>drawn := drawn w'\<rparr>)"
proof -
  obtain r w1 where r: "sys_rand w = (r, w1)" by fastforce
  obtain r2 w2 where r2: "sys_rand w1 = (r2, w2)" by fastforce
  obtain r3 w3 where r3: "sys_rand w2 = (r3, w3)" by fastforce
  define len where "len = (word_of_int (r mod int MAX_PAYLOAD) :: 32 word)"
  define ty where "ty = (word_of_int (r2 mod 3) :: byte)"
  define dn where "dn = (word_of_int (r3 mod 2) :: byte)"
  have "unat len = nat (r mod int MAX_PAYLOAD)"
    using rand_mod(1,2) [OF r, of MAX_PAYLOAD] by (simp add: len_def MAX_PAYLOAD_def unat_eq_nat_uint uint_word_of_int)
  then have len: "unat len < MAX_PAYLOAD" using rand_mod(1,2) [OF r, of MAX_PAYLOAD] by (simp add: MAX_PAYLOAD_def)
  have w3: "w3 = w\<lparr>drawn := drawn w + 3\<rparr>"
    using rand_mod(3) [OF r, of 1] rand_mod(3) [OF r2, of 1] rand_mod(3) [OF r3, of 1] by simp
  have ty: "ty < 3" and dn: "dn < 2"
    using rand_mod(1,2) [OF r2, of 3] rand_mod(1,2) [OF r3, of 2]
    by (simp_all add: ty_def dn_def word_less_def uint_word_of_int)
  obtain h1 h2 where h: "memcpy_at (stack_array 6 w1) 0 (u32_image (htonl len)) = Some h1" "memcpy_at h1 4 [ty] = Some h2"
    "memcpy_at h2 5 [dn] = Some (raw_header len ty dn)"
    using header_by_hand [of "stack_array 6 w1" "u32_image (htonl len)" ty dn]
    by (auto simp: u32_image_def raw_header_def header_image_def bind_eq_Some_conv)
  have "ok (fill_random (unat len) 0 (stack_array MAX_PAYLOAD w3) w3) (\<lambda>(bs, w').
          length bs = MAX_PAYLOAD \<and> w' = w3\<lparr>drawn := drawn w3 + unat len\<rparr>)"
    using fill_random_ok [of 0 "unat len" "stack_array MAX_PAYLOAD w3" w3] len by simp
  then obtain bs w4 where f: "fill_random (unat len) 0 (stack_array MAX_PAYLOAD w3) w3 = Some (bs, w4)"
    "length bs = MAX_PAYLOAD" "w4 = w3\<lparr>drawn := drawn w3 + unat len\<rparr>"
    by (auto simp: ok_conv)
  let ?p = "take (unat len) bs"
  have sl: "slice bs 0 (unat len) = Some ?p" and p: "length ?p = unat len" "0 < len \<longleftrightarrow> ?p \<noteq> []"
    using len f(2) by (auto simp: slice_def MAX_PAYLOAD_def word_less_nat_alt)
  have "valid_draw w = Some (if 0 < len then [raw_header len ty dn, ?p] else [raw_header len ty dn], w4)"
    unfolding valid_draw_def r prod.case Let_def len_def [symmetric] h(1) bind.simps r2 ty_def [symmetric] h(2)
      r3 dn_def [symmetric] h(3) f(1) sl by simp
  moreover have "len = of_nat (length ?p)" using p(1) by simp
  ultimately have eq: "valid_draw w = Some (if ?p = [] then [raw_header 0 ty dn]
      else [raw_header (of_nat (length ?p)) ty dn, ?p], w4)"
    using p by (cases "?p = []") simp_all
  show ?thesis
    unfolding eq ok_Some prod.case
    by (intro exI [of _ ?p] exI [of _ ty] exI [of _ dn] conjI refl ty dn) (use len f(3) w3 p(1) in simp_all)
qed

section \<open>The programs end\<close>

text \<open>
  What both programs rely on: a draw gives one or two sends that fit the array, together one unit of
  traffic, and consumes random numbers only.
\<close>

locale fuzz_traffic =
  fixes draw :: "fuzz \<Rightarrow> (byte list list \<times> fuzz) option"
    and traffic_unit :: "byte list \<Rightarrow> bool"
  assumes draw_ok: "ok (draw w) (\<lambda>(out, w'). out \<noteq> [] \<and> length out \<le> 2 \<and> traffic_unit (concat out) \<and>
     (\<forall>x \<in> set out. length x \<le> MAX_PAYLOAD) \<and> w' = w\<lparr>drawn := drawn w'\<rparr>)"

fun thread_effort :: "nat \<Rightarrow> fuzz_thread \<Rightarrow> nat" where
  "thread_effort m Absent = 3 * m + 3"
| "thread_effort m Starting = 3 * m + 2"
| "thread_effort m (Sending d i out) =
     (if out = [] then 3 * (m - i) + 1 else 3 * (m - (i + 1)) + 1 + length out)"
| "thread_effort m Finished = 0"

definition crew_effort :: "fuzz_args \<Rightarrow> crew \<Rightarrow> nat" where
  "crew_effort fa s =
     (case main_at s of Spawning i \<Rightarrow> 2 * length (threads s) - i + 2 | Joining i \<Rightarrow> length (threads s) - i + 1
      | _ \<Rightarrow> 0) + sum_list (map (thread_effort (nat (messages fa))) (threads s))"

definition create_fails :: "int list \<Rightarrow> nat \<Rightarrow> bool" where
  "create_fails cs j \<longleftrightarrow> j < length cs \<and> cs ! j \<noteq> 0"

text \<open>Where \<open>main\<close> stands determines which threads exist; \<open>cs\<close> is the initial script of pthread_create.\<close>

definition control :: "nat \<Rightarrow> int list \<Rightarrow> crew \<Rightarrow> bool" where
  "control n cs s \<longleftrightarrow> length (threads s) = n \<and>
     (case main_at s of
        Spawning i \<Rightarrow> i \<le> n \<and> creates (world s) = drop i cs \<and>
          (\<forall>j<n. threads s ! j = Absent \<longleftrightarrow> i \<le> j \<or> create_fails cs j)
      | Joining i \<Rightarrow> i \<le> n \<and> (\<forall>j<n. threads s ! j = Absent \<longleftrightarrow> create_fails cs j) \<and>
          (\<forall>j<i. threads s ! j = Finished)
      | Exited r \<Rightarrow> r = 0 \<and> (\<forall>j<n. threads s ! j = Finished \<and> \<not> create_fails cs j)
      | Undefined \<Rightarrow> \<exists>j<n. create_fails cs j)"

lemma control_start: "control n (creates w) (fuzz_main n w)"
  by (simp add: control_def fuzz_main_def)

lemma pop_create: "pop_default 0 (drop i cs) = (if i < length cs then cs ! i else 0, drop (i + 1) cs)"
  by (cases "i < length cs") (simp_all add: Cons_nth_drop_Suc [symmetric])

lemma effort_update:
  assumes "k < length ts" "thread_effort m t < thread_effort m (ts ! k)"
  shows "(\<Sum>t\<leftarrow>ts[k := t]. thread_effort m t) < (\<Sum>t\<leftarrow>ts. thread_effort m t)"
proof -
  have "thread_effort m (ts ! k) \<le> (\<Sum>t\<leftarrow>ts. thread_effort m t)"
    using elem_le_sum_list [of k "map (thread_effort m) ts"] assms(1) by simp
  then show ?thesis using assms by (simp add: map_update sum_list_update)
qed

lemma main_step_control:
  assumes "control n cs s" "running s" "fuzz_main_step s = Some s'"
  shows "control n cs s' \<and> crew_effort fa s' < crew_effort fa s"
proof (cases "main_at s")
  case (Spawning i)
  show ?thesis
  proof (cases "i < n")
    case True
    let ?m = "nat (messages fa)" and ?i = "Spawning (i + 1)"
    have "(\<Sum>t\<leftarrow>(threads s)[i := Starting]. thread_effort ?m t) < (\<Sum>t\<leftarrow>threads s. thread_effort ?m t)"
      using effort_update [of i "threads s" ?m Starting] assms(1) Spawning True by (fastforce simp: control_def)
    moreover have "main_at s' = ?i" "threads s' = threads s \<or> threads s' = (threads s)[i := Starting]"
      using assms Spawning True by (auto simp: control_def fuzz_main_step_def split: prod.splits)
    moreover have "length (threads s) = n" using assms(1) by (simp add: control_def)
    ultimately have "crew_effort fa s' < crew_effort fa s"
      using Spawning True unfolding crew_effort_def by auto
    moreover have "control n cs s'"
      using assms Spawning True
      by (auto simp: control_def fuzz_main_step_def pop_create create_fails_def nth_list_update
          less_Suc_eq_le Suc_le_eq split: if_splits)
    ultimately show ?thesis by simp
  qed (use assms Spawning in \<open>auto simp: control_def fuzz_main_step_def crew_effort_def\<close>)
next
  case (Joining i)
  then show ?thesis
    using assms
    by (auto simp: control_def fuzz_main_step_def crew_effort_def less_Suc_eq split: if_splits fuzz_thread.splits)
qed (use assms in \<open>auto simp: running_def\<close>)

lemma fuzz_connect_thread:
  "fuzz_connect fa w = (t, w') \<Longrightarrow> creates w' = creates w \<and> (t = Finished \<or> (\<exists>d. t = Sending d 0 []))"
  by (auto simp: fuzz_connect_def sys_socket_def sys_connect_def sys_close_def Let_def
      split: list.splits sock_ev.splits if_splits prod.splits)

lemma sys_write_creates: "sys_write d data w = (r, w') \<Longrightarrow> creates w' = creates w"
  by (auto simp: sys_write_def Let_def split: if_splits list.splits wr_ev.splits)

context fuzz_traffic
begin

lemma client_moves:
  assumes "t \<notin> {Absent, Finished}"
  shows "\<exists>t' w'. fuzz_client draw fa t w = Some (t', w') \<and> t' \<noteq> Absent \<and> creates w' = creates w \<and>
    thread_effort (nat (messages fa)) t' < thread_effort (nat (messages fa)) t"
proof (cases t)
  case Starting
  then show ?thesis
    by (cases "fuzz_connect fa w") (auto dest!: fuzz_connect_thread)
next
  case (Sending d i out)
  show ?thesis
  proof (cases out)
    case Nil
    obtain out' w' where d: "draw w = Some (out', w')" "out' \<noteq> []" "length out' \<le> 2" "w' = w\<lparr>drawn := drawn w'\<rparr>"
      using draw_ok [of w] by (auto simp: ok_conv)
    then have "creates w' = creates w" by (metis (no_types, lifting) fuzz.select_convs(7) fuzz.surjective fuzz.update_convs(6))
    then show ?thesis
      using d Sending Nil by (cases "int i < messages fa") (auto simp: fuzz_close_def sys_close_def Let_def split: prod.splits)
  next
    case (Cons data rest)
    obtain r w1 where s: "sys_send d data w = (r, w1)" by fastforce
    then have "creates w1 = creates w"
      by (auto simp: sys_send_def Let_def dest: sys_write_creates split: prod.splits if_splits)
    then show ?thesis
      using s Sending Cons by (cases "rest = []") (auto simp: fuzz_pause_def)
  qed
qed (use assms in auto)

lemma step_control:
  assumes "control n cs s" "fuzz_step draw fa s s'"
  shows "control n cs s' \<and> crew_effort fa s' < crew_effort fa s"
  using assms(2)
proof cases
  case main_moves
  then show ?thesis using main_step_control [OF assms(1)] by blast
next
  case (thread_moves k t w)
  then have t: "t \<noteq> Absent" "creates w = creates (world s)"
      "thread_effort (nat (messages fa)) t < thread_effort (nat (messages fa)) (threads s ! k)"
    using client_moves [of "threads s ! k" fa "world s"] by auto
  have "control n cs s'"
    using assms(1) thread_moves(2-4) t(1,2)
    by (auto simp: control_def running_def thread_moves(1) nth_list_update split: main_at.splits)
  moreover have "crew_effort fa s' < crew_effort fa s"
    using effort_update [OF thread_moves(3) t(3)] by (simp add: crew_effort_def thread_moves(1) split: main_at.split)
  ultimately show ?thesis by simp
next
  case (thread_faults k)
  then show ?thesis
    using client_moves [of "threads s ! k" fa "world s"] by (cases "threads s ! k") auto
qed

lemma steps_control:
  assumes "(fuzz_step draw fa ^^ k) s s'" "control n cs s"
  shows "control n cs s' \<and> k + crew_effort fa s' \<le> crew_effort fa s"
  using assms
proof (induction k arbitrary: s')
  case (Suc k)
  then obtain s1 where s1: "(fuzz_step draw fa ^^ k) s s1" "fuzz_step draw fa s1 s'" by auto
  then show ?case using Suc.IH [OF s1(1) Suc.prems(2)] step_control [OF _ s1(2), of n cs] by fastforce
qed simp

lemma stuck_over:
  assumes "control n cs s" "\<not> killed (world s)" "\<And>s'. \<not> fuzz_step draw fa s s'"
  shows "main_at s = (if \<exists>j<n. create_fails cs j then Undefined else Exited 0)"
proof (cases "running s")
  case True
  have none: "fuzz_main_step s = None" using fuzz_step.main_moves [OF True] assms(3) by (cases "fuzz_main_step s") auto
  show ?thesis
  proof (cases "main_at s")
    case (Joining i)
    then have i: "i < length (threads s)" "threads s ! i \<notin> {Absent, Finished}"
      using none by (auto simp: fuzz_main_step_def split: if_splits fuzz_thread.splits)
    then obtain t w where "fuzz_client draw fa (threads s ! i) (world s) = Some (t, w)"
      using client_moves by blast
    then show ?thesis using fuzz_step.thread_moves [OF True i] assms(3) by blast
  qed (use none True in \<open>auto simp: fuzz_main_step_def running_def split: if_splits prod.splits\<close>)
next
  case False
  then show ?thesis using assms(1,2) by (auto simp: running_def control_def split: main_at.splits)
qed

lemma effort_start: "crew_effort fa (fuzz_main n w) = 2 * n + 2 + n * (3 * nat (messages fa) + 3)"
  by (simp add: crew_effort_def fuzz_main_def map_replicate sum_list_replicate)

lemma program_ends:
  assumes "(fuzz_step draw fa ^^ k) (fuzz_main n w) s"
  shows "k \<le> 2 * n + 2 + n * (3 * nat (messages fa) + 3)"
    and "(\<forall>s'. \<not> fuzz_step draw fa s s') \<Longrightarrow> killed (world s) \<or>
       main_at s = (if \<exists>j<n. create_fails (creates w) j then Undefined else Exited 0)"
proof -
  have c: "control n (creates w) s \<and> k + crew_effort fa s \<le> crew_effort fa (fuzz_main n w)"
    by (rule steps_control [OF assms control_start])
  then show "k \<le> 2 * n + 2 + n * (3 * nat (messages fa) + 3)" by (simp add: effort_start)
  show "killed (world s) \<or> main_at s = (if \<exists>j<n. create_fails (creates w) j then Undefined else Exited 0)"
    if "\<forall>s'. \<not> fuzz_step draw fa s s'"
    using stuck_over [OF conjunct1 [OF c]] that by blast
qed

end

section \<open>What the connections carry\<close>

definition units :: "(byte list \<Rightarrow> bool) \<Rightarrow> nat \<Rightarrow> byte list \<Rightarrow> bool" where
  "units P k bs \<longleftrightarrow> (\<exists>us. bs = concat us \<and> length us = k \<and> (\<forall>u \<in> set us. P u))"

text \<open>Every socket connects and takes what it is given at once, for the sends of \<open>m\<close> rounds.\<close>

definition takes_whole :: "wr_ev list \<Rightarrow> bool" where
  "takes_whole ws \<longleftrightarrow> (\<forall>v \<in> set ws. case v of WrAccept a \<Rightarrow> MAX_PAYLOAD \<le> a | WrErr _ \<Rightarrow> False)"

definition all_welcome :: "nat \<Rightarrow> fuzz \<Rightarrow> bool" where
  "all_welcome m w \<longleftrightarrow> (\<forall>e \<in> set (sockets w). case e of SockFails \<Rightarrow> True
     | SockOpens d c ws \<Rightarrow> 0 \<le> c \<and> 2 * m \<le> length ws \<and> takes_whole ws)"

fun channel_of :: "fuzz_thread \<Rightarrow> fd option" where
  "channel_of (Sending d i out) = Some d"
| "channel_of _ = None"

abbreviation connected :: "fuzz_thread \<Rightarrow> nat" where
  "connected t \<equiv> (if channel_of t = None then 0 else 1)"

definition thread_in_order :: "(byte list \<Rightarrow> bool) \<Rightarrow> nat \<Rightarrow> fuzz \<Rightarrow> fuzz_thread \<Rightarrow> bool" where
  "thread_in_order P m w t = (case t of
      Sending d i out \<Rightarrow>
        (let j = (if out = [] then i else i + 1)
         in opened w d \<and> j \<le> m \<and> takes_whole (outq w d) \<and> length out + 2 * (m - j) \<le> length (outq w d) \<and>
            (\<forall>x \<in> set out. length x \<le> MAX_PAYLOAD) \<and> units P j (sent w d @ concat out))
    | _ \<Rightarrow> True)"

definition traffic :: "(byte list \<Rightarrow> bool) \<Rightarrow> nat \<Rightarrow> crew \<Rightarrow> bool" where
  "traffic P m s \<longleftrightarrow> \<not> killed (world s) \<and> all_welcome m (world s) \<and>
     (\<forall>t \<in> set (threads s). thread_in_order P m (world s) t) \<and>
     (\<forall>j<length (threads s). \<forall>k<length (threads s). j \<noteq> k \<longrightarrow>
        channel_of (threads s ! j) = None \<or> channel_of (threads s ! j) \<noteq> channel_of (threads s ! k)) \<and>
     (\<forall>bs \<in> set (streams (world s)). units P m bs) \<and>
     length (streams (world s)) + (\<Sum>t\<leftarrow>threads s. connected t) = length (dialled (world s))"

text \<open>What one step of one thread keeps, for itself and for the other threads.\<close>

definition thread_kept :: "(byte list \<Rightarrow> bool) \<Rightarrow> nat \<Rightarrow> fuzz_thread \<Rightarrow> fuzz \<Rightarrow> fuzz_thread \<Rightarrow> fuzz \<Rightarrow> bool" where
  "thread_kept P m t w t' w' \<longleftrightarrow> thread_in_order P m w' t' \<and> all_welcome m w' \<and> \<not> killed w' \<and>
     (\<forall>bs \<in> set (streams w'). bs \<in> set (streams w) \<or> units P m bs) \<and>
     (\<forall>d. opened w d \<longrightarrow> channel_of t \<noteq> Some d \<longrightarrow>
        opened w' d \<and> outq w' d = outq w d \<and> sent w' d = sent w d) \<and>
     (\<forall>d. channel_of t' = Some d \<longrightarrow> channel_of t = Some d \<or> \<not> opened w d) \<and>
     length (streams w') + connected t' + length (dialled w) = length (streams w) + connected t + length (dialled w')"

lemma connect_kept:
  assumes "fuzz_connect fa w = (t', w')" "all_welcome m w" "\<not> killed w"
  shows "thread_kept P m Starting w t' w'"
proof (cases "sockets w")
  case Nil
  then show ?thesis
    using assms by (auto simp: fuzz_connect_def sys_socket_def thread_kept_def thread_in_order_def)
next
  case (Cons e r)
  show ?thesis
  proof (cases "\<exists>d c ws. e = SockOpens d c ws \<and> 0 \<le> d \<and> \<not> opened w d")
    case True
    then obtain d c ws where e: "e = SockOpens d c ws" "0 \<le> d" "\<not> opened w d" by blast
    then have "0 \<le> c" "2 * m \<le> length ws" "takes_whole ws" "\<forall>e \<in> set r. case e of SockFails \<Rightarrow> True
     | SockOpens d c ws \<Rightarrow> 0 \<le> c \<and> 2 * m \<le> length ws \<and> takes_whole ws"
      using assms(2) Cons by (auto simp: all_welcome_def)
    then show ?thesis
      using assms(1,3) e Cons
      by (auto simp: fuzz_connect_def sys_socket_def sys_connect_def Let_def thread_kept_def thread_in_order_def
          all_welcome_def units_def)
  next
    case False
    then have "fuzz_connect fa w = (Finished, w\<lparr>sockets := r\<rparr>)"
      using Cons by (auto simp: fuzz_connect_def sys_socket_def split: sock_ev.splits)
    then show ?thesis
      using assms Cons by (auto simp: thread_kept_def thread_in_order_def all_welcome_def)
  qed
qed

lemma close_kept:
  assumes "thread_in_order P m w (Sending d m [])" "all_welcome m w" "\<not> killed w"
  shows "thread_kept P m (Sending d m []) w Finished (fuzz_close d w)"
proof -
  have "opened w d" "units P m (sent w d)" using assms(1) by (simp_all add: thread_in_order_def)
  then show ?thesis
    using assms(2,3)
    by (auto simp: fuzz_close_def sys_close_def Let_def thread_kept_def thread_in_order_def all_welcome_def split: prod.splits)
qed

lemma send_kept:
  assumes "thread_in_order P m w (Sending d i (data # out))" "all_welcome m w" "\<not> killed w"
    and "fuzz_client draw fa (Sending d i (data # out)) w = Some (t', w')"
  shows "thread_kept P m (Sending d i (data # out)) w t' w'"
proof -
  have o: "opened w d" "i < m" "takes_whole (outq w d)" "length out + 1 + 2 * (m - (i + 1)) \<le> length (outq w d)"
    "length data \<le> MAX_PAYLOAD" "\<forall>x \<in> set out. length x \<le> MAX_PAYLOAD" "units P (i + 1) (sent w d @ data @ concat out)"
    using assms(1) by (auto simp: thread_in_order_def)
  then obtain v q where q: "outq w d = v # q" by (cases "outq w d") auto
  obtain a where a: "outq w d = WrAccept a # q" "MAX_PAYLOAD \<le> a" "takes_whole q"
    using o(3) q by (cases v) (auto simp: takes_whole_def)
  let ?w = "w\<lparr>outq := (outq w)(d := q), sent := (sent w)(d := sent w d @ data)\<rparr>"
  have "sys_send d data w = (Inr (length data), ?w)"
    using a(1,2) o(1,5) by (simp add: sys_send_def sys_write_def Let_def)
  then have "(t', w') = (if out = [] then (Sending d (i + 1) [], fuzz_pause fa ?w) else (Sending d i out, ?w))"
    using assms(4) by (simp split: if_splits)
  then show ?thesis
    using o a assms(2,3)
    by (cases "out = []") (auto simp: thread_kept_def thread_in_order_def all_welcome_def fuzz_pause_def)
qed

lemma others_in_order:
  assumes "thread_kept P m t w t' w'" "thread_in_order P m w u" "channel_of t = None \<or> channel_of t \<noteq> channel_of u"
  shows "thread_in_order P m w' u"
proof (cases u)
  case (Sending d i out)
  then have "opened w d" using assms(2) by (simp add: thread_in_order_def Let_def)
  moreover have "channel_of t \<noteq> Some d" using assms(3) Sending by auto
  ultimately have "opened w' d \<and> outq w' d = outq w d \<and> sent w' d = sent w d"
    using assms(1) by (simp add: thread_kept_def)
  then show ?thesis using assms(2) Sending by (simp add: thread_in_order_def Let_def)
qed (simp_all add: thread_in_order_def)

lemma thread_traffic:
  assumes tr: "traffic P m s" and k: "k < length (threads s)"
    and kept: "thread_kept P m (threads s ! k) (world s) t w"
  shows "traffic P m (s\<lparr>threads := (threads s)[k := t], world := w\<rparr>)"
proof -
  let ?ts = "threads s" and ?w = "world s"
  have apart: "channel_of (?ts ! i) = None \<or> channel_of (?ts ! i) \<noteq> channel_of (?ts ! j)"
    if "i < length ?ts" "j < length ?ts" "i \<noteq> j" for i j using tr that by (simp add: traffic_def)
  have each: "thread_in_order P m ?w (?ts ! j)" if "j < length ?ts" for j using tr that by (simp add: traffic_def)
  have "thread_in_order P m w ((?ts[k := t]) ! j)" if j: "j < length ?ts" for j
  proof (cases "j = k")
    case True
    then show ?thesis using kept k by (simp add: thread_kept_def)
  next
    case False
    then show ?thesis using others_in_order [OF kept each [OF j]] apart [OF k j] by simp
  qed
  then have order: "\<forall>u \<in> set (?ts[k := t]). thread_in_order P m w u"
    by (auto simp: in_set_conv_nth)
  have fresh: "channel_of t = None \<or> channel_of t \<noteq> channel_of (?ts ! j)" if j: "j < length ?ts" "j \<noteq> k" for j
  proof (cases "channel_of t")
    case (Some d)
    then have "channel_of (?ts ! k) = Some d \<or> \<not> opened ?w d" using kept by (simp add: thread_kept_def)
    moreover have "opened ?w d" if "channel_of (?ts ! j) = Some d"
      using each [OF j(1)] that by (cases "?ts ! j") (auto simp: thread_in_order_def Let_def)
    ultimately show ?thesis using apart [OF k j(1)] j(2) Some by auto
  qed simp
  have distinct: "channel_of ((?ts[k := t]) ! i) = None \<or> channel_of ((?ts[k := t]) ! i) \<noteq> channel_of ((?ts[k := t]) ! j)"
    if "i < length ?ts" "j < length ?ts" "i \<noteq> j" for i j
    using apart [OF that] fresh [OF that(1)] fresh [OF that(2)] that
    by (cases "i = k"; cases "j = k") (force simp del: channel_of.simps)+
  have "connected (?ts ! k) \<le> (\<Sum>u\<leftarrow>?ts. connected u)"
    using elem_le_sum_list [of k "map (\<lambda>u. connected u) ?ts"] k by simp
  then have "(\<Sum>u\<leftarrow>?ts[k := t]. connected u) + connected (?ts ! k) = (\<Sum>u\<leftarrow>?ts. connected u) + connected t"
    using k by (simp add: map_update sum_list_update)
  then have count: "length (streams w) + (\<Sum>u\<leftarrow>?ts[k := t]. connected u) = length (dialled w)"
    using tr kept by (simp add: traffic_def thread_kept_def)
  have str: "\<forall>bs \<in> set (streams w). units P m bs" using tr kept by (auto simp: traffic_def thread_kept_def)
  show ?thesis
    using order distinct count str kept by (simp add: traffic_def thread_kept_def del: set_list_update)
qed

lemma thread_in_order_creates: "thread_in_order P m (w\<lparr>creates := cs\<rparr>) t = thread_in_order P m w t"
  by (cases t) (simp_all add: thread_in_order_def)

lemma traffic_cong:
  "traffic P m s \<Longrightarrow> threads s' = threads s \<Longrightarrow> world s' = (world s)\<lparr>creates := cs\<rparr> \<Longrightarrow> traffic P m s'"
  by (simp add: traffic_def all_welcome_def thread_in_order_creates)

lemma spawn_kept: "all_welcome m w \<Longrightarrow> \<not> killed w \<Longrightarrow> thread_kept P m Absent w Starting (w\<lparr>creates := cs\<rparr>)"
  by (simp add: thread_kept_def thread_in_order_def all_welcome_def)

lemma main_traffic:
  assumes tr: "traffic P m s" and st: "fuzz_main_step s = Some s'" and ct: "control n cs s"
  shows "traffic P m s'"
proof (cases "\<exists>i. main_at s = Spawning i \<and> i < length (threads s)")
  case True
  then obtain i where i: "main_at s = Spawning i" "i < length (threads s)" by blast
  then have ab: "threads s ! i = Absent" using ct by (simp add: control_def)
  obtain r c where rc: "pop_default 0 (creates (world s)) = (r, c)" by fastforce
  let ?w = "(world s)\<lparr>creates := c\<rparr>"
  have s': "s' = s\<lparr>main_at := Spawning (i + 1),
      threads := (if r = 0 then (threads s)[i := Starting] else threads s), world := ?w\<rparr>"
    using st i rc by (simp add: fuzz_main_step_def)
  show ?thesis
  proof (cases "r = 0")
    case True
    have "thread_kept P m (threads s ! i) (world s) Starting ?w"
      unfolding ab by (rule spawn_kept) (use tr in \<open>simp_all add: traffic_def\<close>)
    from thread_traffic [OF tr i(2) this] show ?thesis
      using True by (simp add: s' traffic_def)
  next
    case False
    then show ?thesis using traffic_cong [OF tr] by (simp add: s')
  qed
next
  case False
  then have "threads s' = threads s" "world s' = world s"
    using st by (auto simp: fuzz_main_step_def split: main_at.splits if_splits fuzz_thread.splits)
  then show ?thesis using traffic_cong [OF tr, of s' "creates (world s)"] by simp
qed

context fuzz_traffic
begin

lemma client_kept:
  assumes "thread_in_order traffic_unit (nat (messages fa)) w t" "all_welcome (nat (messages fa)) w" "\<not> killed w"
    and "t \<notin> {Absent, Finished}" "fuzz_client draw fa t w = Some (t', w')"
  shows "thread_kept traffic_unit (nat (messages fa)) t w t' w'"
proof (cases t)
  case Starting
  then show ?thesis using connect_kept assms(2,3,5) by simp
next
  case (Sending d i out)
  show ?thesis
  proof (cases out)
    case Nil
    show ?thesis
    proof (cases "int i < messages fa")
      case True
      obtain out' w1 where d: "draw w = Some (out', w1)" "out' \<noteq> []" "length out' \<le> 2" "w1 = w\<lparr>drawn := drawn w1\<rparr>"
        "traffic_unit (concat out')" "\<forall>x \<in> set out'. length x \<le> MAX_PAYLOAD"
        using draw_ok [of w] by (auto simp: ok_conv)
      then obtain n where w1: "w1 = w\<lparr>drawn := n\<rparr>" by blast
      obtain us where us: "sent w d = concat us" "length us = i" "\<forall>u \<in> set us. traffic_unit u"
        using assms(1) Sending Nil by (auto simp: thread_in_order_def units_def)
      have "units traffic_unit (i + 1) (sent w d @ concat out')"
        unfolding units_def by (rule exI [of _ "us @ [concat out']"]) (use us d(5) in auto)
      then show ?thesis
        using assms Sending Nil True d(1-3,6) unfolding w1
        by (auto simp: thread_kept_def thread_in_order_def all_welcome_def)
    next
      case False
      then have "i = nat (messages fa)" using assms(1) Sending Nil by (auto simp: thread_in_order_def)
      then show ?thesis using close_kept [of traffic_unit i w d] assms Sending Nil False by simp
    qed
  next
    case (Cons data rest)
    then show ?thesis using send_kept assms Sending by blast
  qed
qed (use assms(4) in auto)

lemma step_traffic:
  assumes "traffic traffic_unit (nat (messages fa)) s" "control n cs s" "fuzz_step draw fa s s'"
  shows "traffic traffic_unit (nat (messages fa)) s'"
  using assms(3)
proof cases
  case main_moves
  then show ?thesis using main_traffic assms(1,2) by blast
next
  case (thread_moves k t w)
  have "thread_kept traffic_unit (nat (messages fa)) (threads s ! k) (world s) t w"
    using client_kept thread_moves assms(1) by (simp add: traffic_def)
  then show ?thesis unfolding thread_moves(1) by (rule thread_traffic [OF assms(1) thread_moves(3)])
next
  case (thread_faults k)
  then show ?thesis
    using client_moves [of "threads s ! k" fa "world s"] by (cases "threads s ! k") auto
qed

lemma steps_traffic:
  assumes "(fuzz_step draw fa)\<^sup>*\<^sup>* (fuzz_main n w) s" "all_welcome (nat (messages fa)) w" "\<not> killed w"
    "streams w = []" "dialled w = []"
  shows "control n (creates w) s \<and> traffic traffic_unit (nat (messages fa)) s"
  using assms(1)
proof (induction rule: rtranclp_induct)
  case base
  then show ?case
    using assms(2-) control_start [of n w] by (simp add: traffic_def fuzz_main_def thread_in_order_def sum_list_replicate)
next
  case (step s s')
  then show ?case using step_control step_traffic by blast
qed

lemma program_traffic:
  assumes "(fuzz_step draw fa)\<^sup>*\<^sup>* (fuzz_main n w) s" "all_welcome (nat (messages fa)) w" "\<not> killed w"
    "streams w = []" "dialled w = []"
  shows "\<not> killed (world s)" and "\<forall>bs \<in> set (streams (world s)). units traffic_unit (nat (messages fa)) bs"
    and "main_at s = Exited r \<Longrightarrow> length (streams (world s)) = length (dialled (world s))"
proof -
  note * = steps_traffic [OF assms]
  show "\<not> killed (world s)" "\<forall>bs \<in> set (streams (world s)). units traffic_unit (nat (messages fa)) bs"
    using * by (simp_all add: traffic_def)
  show "length (streams (world s)) = length (dialled (world s))" if "main_at s = Exited r"
  proof -
    have "\<forall>t \<in> set (threads s). channel_of t = None"
      using * that by (auto simp: control_def in_set_conv_nth)
    then have "(\<Sum>t\<leftarrow>threads s. connected t) = 0" by (simp add: sum_list_eq_0_iff)
    moreover have "length (streams (world s)) + (\<Sum>t\<leftarrow>threads s. connected t) = length (dialled (world s))"
      using * unfolding traffic_def by blast
    ultimately show ?thesis by linarith
  qed
qed

end

section \<open>The two programs\<close>

definition raw_chunk :: "byte list \<Rightarrow> bool" where
  "raw_chunk bs \<longleftrightarrow> 1 \<le> length bs \<and> length bs \<le> MAX_PAYLOAD"

definition fuzz_frame :: "raw_frame \<Rightarrow> bool" where
  "fuzz_frame f = (case f of (p, ty, dn) \<Rightarrow> length p < MAX_PAYLOAD \<and> ty < 3 \<and> dn < 2)"

lemma raw_draw_traffic:
  "ok (raw_draw w) (\<lambda>(out, w'). out \<noteq> [] \<and> length out \<le> 2 \<and> raw_chunk (concat out) \<and>
     (\<forall>x \<in> set out. length x \<le> MAX_PAYLOAD) \<and> w' = w\<lparr>drawn := drawn w'\<rparr>)"
  by (rule ok_weaken [OF raw_draw_ok]) (auto simp: raw_chunk_def)

lemma valid_draw_traffic:
  "ok (valid_draw w) (\<lambda>(out, w'). out \<noteq> [] \<and> length out \<le> 2 \<and>
     (\<exists>f. concat out = raw_bytes f \<and> fuzz_frame f) \<and>
     (\<forall>x \<in> set out. length x \<le> MAX_PAYLOAD) \<and> w' = w\<lparr>drawn := drawn w'\<rparr>)"
proof (rule ok_weaken [OF valid_draw_ok], goal_cases)
  case (1 x)
  then obtain out w' p ty dn where x: "x = (out, w')" and f: "length p < MAX_PAYLOAD" "ty < 3" "dn < 2"
    and out: "out = (if p = [] then [raw_header 0 ty dn] else [raw_header (of_nat (length p)) ty dn, p])"
    and w': "w' = w\<lparr>drawn := drawn w'\<rparr>"
    by (cases x) auto
  have "concat out = raw_bytes (p, ty, dn)" "fuzz_frame (p, ty, dn)"
    using f by (simp_all add: out raw_bytes_def fuzz_frame_def)
  moreover have "out \<noteq> []" "length out \<le> 2" "\<forall>x \<in> set out. length x \<le> MAX_PAYLOAD"
    using f(1) by (simp_all add: out HEADER_SIZE_def MAX_PAYLOAD_def)
  ultimately show ?case using w' unfolding x prod.case by blast
qed

interpretation raw_load: fuzz_traffic raw_draw raw_chunk
  by unfold_locales (rule raw_draw_traffic)

interpretation valid_load: fuzz_traffic valid_draw "\<lambda>bs. \<exists>f. bs = raw_bytes f \<and> fuzz_frame f"
  by unfold_locales (rule valid_draw_traffic)

lemma units_frames:
  assumes "units (\<lambda>bs. \<exists>f. bs = raw_bytes f \<and> fuzz_frame f) k bs"
  shows "\<exists>fs. bs = concat (map raw_bytes fs) \<and> length fs = k \<and> (\<forall>f \<in> set fs. fuzz_frame f)"
proof -
  obtain us where us: "bs = concat us" "length us = k" "\<forall>u \<in> set us. \<exists>f. u = raw_bytes f \<and> fuzz_frame f"
    using assms by (auto simp: units_def)
  obtain g where "\<forall>u \<in> set us. u = raw_bytes (g u) \<and> fuzz_frame (g u)" using us(3) by metis
  then have "map raw_bytes (map g us) = us" "\<forall>f \<in> set (map g us). fuzz_frame f"
    by (auto simp: map_idI)
  then show ?thesis using us(1,2) by (intro exI [of _ "map g us"]) simp
qed

text \<open>A run by a list of turns: 0 is a step of \<open>main\<close>, \<open>Suc k\<close> one of thread \<open>k\<close>.\<close>

definition fuzz_turn ::
  "(fuzz \<Rightarrow> (byte list list \<times> fuzz) option) \<Rightarrow> fuzz_args \<Rightarrow> nat \<Rightarrow> crew \<Rightarrow> crew option" where
  "fuzz_turn draw fa i s =
     (if \<not> running s then None
      else case i of
             0 \<Rightarrow> fuzz_main_step s
           | Suc k \<Rightarrow>
               if k < length (threads s) \<and> threads s ! k \<notin> {Absent, Finished} then do {
                 (t, w) \<leftarrow> fuzz_client draw fa (threads s ! k) (world s);
                 Some (s\<lparr>threads := (threads s)[k := t], world := w\<rparr>)
               } else None)"

primrec fuzz_turns ::
  "(fuzz \<Rightarrow> (byte list list \<times> fuzz) option) \<Rightarrow> fuzz_args \<Rightarrow> nat list \<Rightarrow> crew \<Rightarrow> crew option" where
  "fuzz_turns draw fa [] s = Some s"
| "fuzz_turns draw fa (i # is) s = do { s1 \<leftarrow> fuzz_turn draw fa i s; fuzz_turns draw fa is s1 }"

lemma turn_steps:
  assumes "fuzz_turn draw fa i s = Some s'"
  shows "fuzz_step draw fa s s'"
proof (cases i)
  case 0
  then have "running s" "fuzz_main_step s = Some s'" using assms by (simp_all add: fuzz_turn_def split: if_splits)
  then show ?thesis by (rule fuzz_step.main_moves)
next
  case (Suc k)
  then obtain t w where "running s" "k < length (threads s)" "threads s ! k \<notin> {Absent, Finished}"
    "fuzz_client draw fa (threads s ! k) (world s) = Some (t, w)"
    and s': "s' = s\<lparr>threads := (threads s)[k := t], world := w\<rparr>"
    using assms by (auto simp: fuzz_turn_def bind_eq_Some_conv split: if_splits)
  then show ?thesis unfolding s' by (intro fuzz_step.thread_moves)
qed

lemma turns_steps: "fuzz_turns draw fa is s = Some s' \<Longrightarrow> (fuzz_step draw fa ^^ length is) s s'"
proof (induction "is" arbitrary: s)
  case (Cons i "is")
  then obtain s1 where "fuzz_turn draw fa i s = Some s1" "fuzz_turns draw fa is s1 = Some s'"
    by (auto simp: bind_eq_Some_conv)
  then show ?case using relpowp_Suc_I2 [OF turn_steps Cons.IH] by simp
qed simp

lemma turns_reach: "fuzz_turns draw fa is s = Some s' \<Longrightarrow> (fuzz_step draw fa)\<^sup>*\<^sup>* s s'"
  using turns_steps relpowp_imp_rtranclp by metis

definition fuzz0 :: fuzz where
  "fuzz0 = \<lparr>inq = (\<lambda>_. []), outq = (\<lambda>_. []), sent = (\<lambda>_. []), opened = (\<lambda>_. False),
     interest = (\<lambda>_. None), accepts = [], mallocs = [], epctls = [], fcntls = [], closes = [], clock = [],
     junk = (\<lambda>_. 0), brk = 16, live_bufs = 0,
     sockets = [SockOpens 3 0 [WrAccept 4096, WrAccept 4096]], connects = (\<lambda>_. 0), pton = (\<lambda>_. None),
     dialled = [], randoms = (\<lambda>i. if i = 2 then 1 else 0), drawn = 0, creates = [], slept = 0,
     killed = False, streams = []\<rparr>"

definition fuzz_args1 :: fuzz_args where
  "fuzz_args1 = \<lparr>ip = ''127.0.0.1'', port = 8000, messages = 1, delay_us = 0\<rparr>"

lemma valid_run1:
  "\<exists>s. fuzz_turns valid_draw fuzz_args1 [0, 0, 1, 1, 1, 1, 0, 0] (fuzz_main 1 fuzz0) = Some s \<and>
     main_at s = Exited 0 \<and> streams (world s) = [raw_bytes ([], 0, 1)]"
proof -
  let ?st = "\<lambda>a t w. \<lparr>main_at = a, threads = [t], world = w\<rparr>" and ?turn = "fuzz_turn valid_draw fuzz_args1"
  let ?a = "\<lparr>sin_family = AF_INET, sin_port = htons 8000, sin_addr = [0, 0, 0, 0]\<rparr>"
  define w1 where "w1 = fuzz0\<lparr>sockets := [], opened := (opened fuzz0)(3 := True),
     outq := (outq fuzz0)(3 := [WrAccept 4096, WrAccept 4096]), sent := (sent fuzz0)(3 := []),
     connects := (connects fuzz0)(3 := 0), dialled := [?a]\<rparr>"
  define w2 where "w2 = w1\<lparr>drawn := 3\<rparr>"
  let ?f = "raw_header 0 0 1"
  define w3 where "w3 = w2\<lparr>outq := (outq w2)(3 := [WrAccept 4096]), sent := (sent w2)(3 := ?f)\<rparr>"
  obtain h1 h2 where h: "memcpy_at (stack_array 6 (w1\<lparr>drawn := 1\<rparr>)) 0 (u32_image (htonl 0)) = Some h1"
    "memcpy_at h1 4 [0] = Some h2" "memcpy_at h2 5 [1] = Some ?f"
    using header_by_hand [of "stack_array 6 (w1\<lparr>drawn := 1\<rparr>)" "u32_image (htonl 0)" 0 1]
    by (auto simp: u32_image_def raw_header_def header_image_def bind_eq_Some_conv)
  have d: "valid_draw w1 = Some ([?f], w2)"
    by (simp add: valid_draw_def sys_rand_def w1_def w2_def fuzz0_def slice_def h [unfolded w1_def fuzz0_def, simplified])
  have c: "fuzz_connect fuzz_args1 fuzz0 = (Sending 3 0 [], w1)"
    by (simp add: fuzz_connect_def sys_socket_def sys_connect_def w1_def fuzz0_def fuzz_args1_def Let_def)
  have alive: "\<not> killed fuzz0" "\<not> killed w1" "\<not> killed w2" "\<not> killed w3" by (simp_all add: w3_def w2_def w1_def fuzz0_def)
  have "?turn 0 (fuzz_main 1 fuzz0) = Some (?st (Spawning 1) Starting fuzz0)"
    by (simp add: fuzz_turn_def running_def fuzz_main_def fuzz_main_step_def fuzz0_def)
  moreover have "?turn 0 (?st (Spawning 1) Starting fuzz0) = Some (?st (Joining 0) Starting fuzz0)"
    by (simp add: fuzz_turn_def running_def fuzz_main_step_def alive)
  moreover have "?turn 1 (?st (Joining 0) Starting fuzz0) = Some (?st (Joining 0) (Sending 3 0 []) w1)"
    by (simp add: fuzz_turn_def running_def alive c)
  moreover have "?turn 1 (?st (Joining 0) (Sending 3 0 []) w1) = Some (?st (Joining 0) (Sending 3 0 [?f]) w2)"
    by (simp add: fuzz_turn_def running_def alive d fuzz_args1_def)
  moreover have "?turn 1 (?st (Joining 0) (Sending 3 0 [?f]) w2) = Some (?st (Joining 0) (Sending 3 1 []) w3)"
    by (simp add: fuzz_turn_def running_def alive fuzz_args1_def sys_send_def sys_write_def w3_def w2_def w1_def fuzz0_def
        fuzz_pause_def HEADER_SIZE_def Let_def)
  moreover have "?turn 1 (?st (Joining 0) (Sending 3 1 []) w3) = Some (?st (Joining 0) Finished (fuzz_close 3 w3))"
    by (simp add: fuzz_turn_def running_def alive fuzz_args1_def)
  moreover have cl: "\<not> killed (fuzz_close 3 w3)" "streams (fuzz_close 3 w3) = [?f]"
    by (simp_all add: fuzz_close_def sys_close_def w3_def w2_def w1_def fuzz0_def)
  moreover have "?turn 0 (?st (Joining 0) Finished (fuzz_close 3 w3)) = Some (?st (Joining 1) Finished (fuzz_close 3 w3))"
    by (simp add: fuzz_turn_def running_def cl fuzz_main_step_def)
  moreover have "?turn 0 (?st (Joining 1) Finished (fuzz_close 3 w3)) = Some (?st (Exited 0) Finished (fuzz_close 3 w3))"
    by (simp add: fuzz_turn_def running_def cl fuzz_main_step_def)
  ultimately show ?thesis by (simp add: raw_bytes_def)
qed

lemma valid_traffic:
  assumes "(fuzz_step valid_draw fa)\<^sup>*\<^sup>* (fuzz_main n u) s" "all_welcome (nat (messages fa)) u" "\<not> killed u"
    "streams u = []" "dialled u = []" "bs \<in> set (streams (world s))"
  shows "\<exists>fs. bs = concat (map raw_bytes fs) \<and> length fs = nat (messages fa) \<and> (\<forall>f \<in> set fs. fuzz_frame f)"
  using valid_load.program_traffic(2) [OF assms(1-5)] assms(6) units_frames by blast

lemma raw_traffic:
  assumes "(fuzz_step raw_draw fa)\<^sup>*\<^sup>* (fuzz_main n u) s" "all_welcome (nat (messages fa)) u" "\<not> killed u"
    "streams u = []" "dialled u = []" "bs \<in> set (streams (world s))"
  shows "nat (messages fa) \<le> length bs \<and> length bs \<le> nat (messages fa) * MAX_PAYLOAD"
proof -
  have "units raw_chunk (nat (messages fa)) bs" using raw_load.program_traffic(2) [OF assms(1-5)] assms(6) by blast
  then obtain us where us: "bs = concat us" "length us = nat (messages fa)" "\<forall>u \<in> set us. raw_chunk u"
    by (auto simp: units_def)
  have "length us \<le> length (concat us) \<and> length (concat us) \<le> length us * MAX_PAYLOAD"
    using us(3) by (induction us) (auto simp: raw_chunk_def)
  then show ?thesis using us by simp
qed

text \<open>The program \<open>fuzzer_valid\<close> as it is: 1000 clients, 500 frames each.\<close>

lemma valid_fuzzer_streams:
  assumes "valid_fuzzer u s" "all_welcome 500 u" "\<not> killed u" "streams u = []" "dialled u = []"
    "bs \<in> set (streams (world s))"
  shows "\<exists>fs. bs = concat (map raw_bytes fs) \<and> length fs = 500 \<and> (\<forall>f \<in> set fs. fuzz_frame f)"
  using valid_traffic [of valid_args 1000 u s bs] assms by (simp add: valid_fuzzer_def valid_args_def)

lemma raw_fuzzer_streams:
  assumes "raw_fuzzer u s" "all_welcome 50 u" "\<not> killed u" "streams u = []" "dialled u = []"
    "bs \<in> set (streams (world s))"
  shows "50 \<le> length bs \<and> length bs \<le> 204800"
  using raw_traffic [of raw_args 10000 u s bs] assms by (simp add: raw_fuzzer_def raw_args_def MAX_PAYLOAD_def)

section \<open>Properties\<close>

text \<open>
  Claim C25. Let every socket connect and take each send whole, a short or failed send being ignored by the code.
  Then every connection that \<open>fuzzer_valid\<close> closes, under every interleaving of its threads and for all random
  numbers, carried exactly \<open>messages\<close> whole frames of the server's format, each with a payload under the server's
  limit of 4096 bytes; and when \<open>main\<close> has returned every connection that was made has been closed so. The header that the generator puts together by hand agrees with
  the one of src/common/protocol.c.
\<close>

theorem valid_streams_are_frames:
  assumes "(fuzz_step valid_draw fa)\<^sup>*\<^sup>* (fuzz_main n u) s" "all_welcome (nat (messages fa)) u" "\<not> killed u"
    "streams u = []" "dialled u = []"
  shows "(\<forall>bs \<in> set (streams (world s)). \<exists>fs. bs = concat (map raw_bytes fs) \<and> length fs = nat (messages fa) \<and>
       (\<forall>(p, ty, dn) \<in> set fs. length p < 4096 \<and> ty < 3 \<and> dn < 2)) \<and>
     (main_at s = Exited 0 \<longrightarrow> length (streams (world s)) = length (dialled (world s)))"
proof -
  have "\<exists>fs. bs = concat (map raw_bytes fs) \<and> length fs = nat (messages fa) \<and>
       (\<forall>(p, ty, dn) \<in> set fs. length p < 4096 \<and> ty < 3 \<and> dn < 2)" if "bs \<in> set (streams (world s))" for bs
    using valid_traffic [OF assms that] by (simp add: fuzz_frame_def MAX_PAYLOAD_def case_prod_beta)
  then show ?thesis using valid_load.program_traffic(3) [OF assms] by blast
qed

lemma fuzz0_ready: "all_welcome (nat (messages fuzz_args1)) fuzz0" "\<not> killed fuzz0" "streams fuzz0 = []" "dialled fuzz0 = []"
  by (simp_all add: all_welcome_def takes_whole_def fuzz0_def fuzz_args1_def MAX_PAYLOAD_def)

theorem valid_streams_are_frames_witness:
  "\<exists>s. fuzz_turns valid_draw fuzz_args1 [0, 0, 1, 1, 1, 1, 0, 0] (fuzz_main 1 fuzz0) = Some s \<and>
     main_at s = Exited 0 \<and> length (streams (world s)) = length (dialled (world s)) \<and> streams (world s) \<noteq> [] \<and>
     (\<forall>bs \<in> set (streams (world s)). \<exists>fs. bs = concat (map raw_bytes fs) \<and> length fs = 1)"
proof -
  obtain s where s: "fuzz_turns valid_draw fuzz_args1 [0, 0, 1, 1, 1, 1, 0, 0] (fuzz_main 1 fuzz0) = Some s"
    "main_at s = Exited 0" "streams (world s) \<noteq> []" using valid_run1 by auto
  have m: "nat (messages fuzz_args1) = 1" by (simp add: fuzz_args1_def)
  show ?thesis
    using valid_streams_are_frames [OF turns_reach [OF s(1)] fuzz0_ready] s unfolding m by blast
qed

text \<open>
  Claim C30. Both generators end, in a number of steps that the numbers of clients and messages bound, whatever the
  system answers and however the threads are interleaved, and no step of theirs leaves an array: a run that
  cannot go on was killed by SIGPIPE, or \<open>main\<close> has returned 0 and every thread is done, or else some
  pthread_create had failed, and then \<open>main\<close> has joined a thread that was never created.
\<close>

theorem fuzzers_end:
  assumes "draw = raw_draw \<or> draw = valid_draw" "(fuzz_step draw fa ^^ k) (fuzz_main n u) s"
  shows "k \<le> 2 * n + 2 + n * (3 * nat (messages fa) + 3) \<and>
     ((\<forall>s'. \<not> fuzz_step draw fa s s') \<longrightarrow> killed (world s) \<or>
        main_at s = (if \<exists>j<n. j < length (creates u) \<and> creates u ! j \<noteq> 0 then Undefined else Exited 0))"
  using assms(1)
proof
  assume d: "draw = raw_draw"
  show ?thesis
    using raw_load.program_ends [OF assms(2) [unfolded d]] unfolding d create_fails_def by blast
next
  assume d: "draw = valid_draw"
  show ?thesis
    using valid_load.program_ends [OF assms(2) [unfolded d]] unfolding d create_fails_def by blast
qed

theorem fuzzers_end_witness:
  "\<exists>s. (fuzz_step raw_draw raw_args ^^ 3) (fuzz_main 1 (fuzz0\<lparr>creates := [11]\<rparr>)) s \<and>
     (\<forall>s'. \<not> fuzz_step raw_draw raw_args s s') \<and> main_at s = Undefined"
proof -
  let ?u = "fuzz0\<lparr>creates := [11]\<rparr>"
  obtain s where run: "fuzz_turns raw_draw raw_args [0, 0, 0] (fuzz_main 1 ?u) = Some s" and k: "\<not> killed (world s)"
    and nr: "\<not> running s"
    by (simp add: fuzz_turn_def running_def fuzz_main_def fuzz_main_step_def fuzz0_def)
  have "length [0, 0, 0 :: nat] = 3" by simp
  with turns_steps [OF run] have s: "(fuzz_step raw_draw raw_args ^^ 3) (fuzz_main 1 ?u) s" by (simp only:)
  have stuck: "\<forall>s'. \<not> fuzz_step raw_draw raw_args s s'" using nr by (auto elim: fuzz_stepE)
  have "\<exists>j<1. j < length (creates ?u) \<and> creates ?u ! j \<noteq> 0" by simp
  then have "main_at s = Undefined" using fuzzers_end [OF disjI1 [OF refl] s] stuck k by (simp only: if_True simp_thms)
  then show ?thesis using s stuck by blast
qed

text \<open>
  Claim C24. The generator against the server. Let every socket of \<open>fuzzer_valid\<close> connect and take each send whole,
  and let what one of its threads sent be what waits at the server for one of its registered clients that is
  between two messages. Then the server loop runs without a fault, and over any run, interleaved with any other events, the room hears from this client the messages that the
  \<open>messages\<close> random frames assemble to, in order, none twice and none skipped, as long as it stays and is open; and once
  its bytes are used up it has heard them all. The last state of the room is the one the loop leaves behind,
  or, when the loop returns 0, a halting one from which the shutdown sequence leads to it.
\<close>

theorem fuzzed_frames_are_heard:
  assumes fuzzer: "(fuzz_step valid_draw fa)\<^sup>*\<^sup>* (fuzz_main n u) s" "all_welcome (nat (messages fa)) u" "\<not> killed u"
      "streams u = []" "dialled u = []" "bs \<in> set (streams (world s))"
    and server: "server_inv w" "c \<in> set (roster w)" "unsaid w c = []" "input_view c w = bs"
  shows "\<exists>fs. bs = concat (map raw_bytes fs) \<and> length fs = nat (messages fa) \<and>
     ok (server_loop as w) (\<lambda>(r, w'). \<exists>es w1. room_run (room_of w) es (room_of w1) \<and>
       (if r = Some 0 then halting (room_of w1) \<and> stop_server w1 = Some (0, w') else w' = w1) \<and>
       (Leave c \<notin> set es \<longrightarrow> \<not> is_closed w1 c \<longrightarrow>
          (\<exists>ls. fst (assemble [] fs) = heard c es @ ls) \<and>
          (input_view c w1 = [] \<longrightarrow> assemble [] fs = (heard c es, unsaid w1 c))))"
proof -
  obtain fs where fs: "bs = concat (map raw_bytes fs)" "length fs = nat (messages fa)" "\<forall>f \<in> set fs. fuzz_frame f"
    using valid_traffic [OF fuzzer] by blast
  have "\<forall>f \<in> set fs. length (fst f) < 2 ^ 32" using fs(3) by (fastforce simp: fuzz_frame_def MAX_PAYLOAD_def)
  from frames_are_heard [OF server(1,2) server(4) [unfolded fs(1)] this, of as] show ?thesis
    using fs(1,2) unfolding server(3) by blast
qed

theorem fuzzed_frames_are_heard_witness:
  "\<exists>s bs. fuzz_turns valid_draw fuzz_args1 [0, 0, 1, 1, 1, 1, 0, 0] (fuzz_main 1 fuzz0) = Some s \<and>
     streams (world s) = [bs] \<and> (\<exists>fs. bs = concat (map raw_bytes fs) \<and> length fs = 1 \<and>
     ok (server_loop [WaitReady [(7, EPOLLIN)]] (two_clients [RdData bs] [])) (\<lambda>(r, w'). \<exists>es w1.
       room_run (room_of (two_clients [RdData bs] [])) es (room_of w1) \<and>
       (if r = Some 0 then halting (room_of w1) \<and> stop_server w1 = Some (0, w') else w' = w1) \<and>
       (Leave 16 \<notin> set es \<longrightarrow> \<not> is_closed w1 16 \<longrightarrow> (\<exists>ls. fst (assemble [] fs) = heard 16 es @ ls) \<and>
          (input_view 16 w1 = [] \<longrightarrow> assemble [] fs = (heard 16 es, unsaid w1 16)))))"
proof -
  let ?bs = "raw_bytes ([], 0, 1)"
  let ?w = "two_clients [RdData ?bs] []"
  obtain s where s: "fuzz_turns valid_draw fuzz_args1 [0, 0, 1, 1, 1, 1, 0, 0] (fuzz_main 1 fuzz0) = Some s"
    "streams (world s) = [?bs]" using valid_run1 by auto
  have m: "nat (messages fuzz_args1) = 1" by (simp add: fuzz_args1_def)
  have inv: "server_inv ?w" by (rule two_clients_inv) (simp add: raw_bytes_def HEADER_SIZE_def BUF_SIZE_def)
  have iv: "input_view 16 ?w = ?bs" "unsaid ?w 16 = []" "16 \<in> set (roster ?w)"
    by (simp_all add: input_view_def taken_def unsaid_def)
  have "?bs \<in> set (streams (world s))" using s(2) by simp
  from fuzzed_frames_are_heard [OF turns_reach [OF s(1)] fuzz0_ready this inv iv(3,2,1)] s show ?thesis
    unfolding m by blast
qed

end
