(* ===== verification/Spec2Isabelle.thy ===== *)
theory Spec2Isabelle
  imports Chat_Fuzz
begin

text \<open>
  A verification of a multi-user chat server and its command-line client written in C
  (src/server, src/client, src/common, include), and of their load generators (tests).

  \<^bold>\<open>The program.\<close> The server is one thread around \<open>epoll_wait\<close>. It accepts connections into a fixed
  registry of 1000 clients, reads from each of them frames of a six-byte header and at most 4096
  bytes of payload, joins the payloads of frames into messages, and handles each message: the first
  one is the client's name, one that starts with a slash is a command (\<open>/list\<close>, \<open>/whisper\<close>,
  \<open>/shutdown\<close>), any other is sent to everybody else. What cannot be written at once waits in a queue
  of packets that the write readiness of the socket empties later. The client runs two threads: \<open>main\<close>
  reads lines from the terminal, handles \<open>/quit\<close> and sends frames; the other prints what arrives.

  \<^bold>\<open>Conventions.\<close> A C function is a function from the state to an option of its result and the new
  state (\<open>Chat_Prelude\<close>). None means that C gives the run no meaning or that it never returns: a NULL
  or freed block is used, an array is left, a mutex is locked twice, a loop does not end. \<open>ok m Q\<close>
  says that the run has an outcome and that the outcome satisfies Q, so each theorem stated with it
  contains memory safety and termination. Return codes are the integers of the code. \<open>size_t\<close> is nat
  with the wrap-around written out (\<open>sz_add\<close>, \<open>sz_sub\<close>, \<open>sz_mul\<close>); the header's length is a 32-bit word,
  its other fields and all data are 8-bit words. Loops that are not bounded by a list are
  \<open>partial_function (option)\<close>; no fuel is used anywhere.

  \<^bold>\<open>The theories\<close>, each importing the one before it:
  \<^item> \<open>Chat_Prelude\<close>: scalars, outcomes and the collection \<open>wp\<close>, buffers, C strings, \<open>strtok_r\<close>.
  \<^item> \<open>Chat_OS\<close>: the kernel, the allocator and the clock as the record \<open>os\<close>. A descriptor has a script of
    what \<open>read\<close> will return and of how much each \<open>write\<close> will take, and the bytes sent so far; other
    scripts say which allocations, \<open>close\<close>, \<open>fcntl\<close> and \<open>epoll_ctl\<close> calls fail and who connects. Every
    theorem holds for all scripts that its hypotheses allow.
  \<^item> \<open>Chat_Protocol\<close>: src/common/protocol.c and src/common/io.c, with the locales \<open>stream_codec\<close> and
    \<open>stream_decoder\<close> of self-delimiting encodings, interpreted as \<open>frames\<close> on the wire format. \<open>absorb\<close> and \<open>absorbs\<close>
    compute from the script of a descriptor whether it takes one blocking write, or a list of them, whole; the
    theorems on whispers and on the client say with them exactly when a write fails.
  \<^item> \<open>Chat_State\<close>: the structures of include/client_info.h, msg_queue.h, msg_packet.h and
    server_state.h as the records \<open>client_info\<close>, \<open>msg_queue\<close>, \<open>msg_packet\<close> and \<open>server\<close>, the last an extension
    of \<open>os\<close> by two heaps (maps from addresses), the registry, its mutex and the shutdown flag;
    client_info_init.c and server_state.c.
  \<^item> \<open>Chat_Epoll\<close>: src/common/epoll_mod.c. \<open>Chat_Queue\<close>: msg_packet.c, the enqueue of client_utils.c,
    client_try_write.c and the discarding loop; \<open>queue_rep\<close> relates a linked list to the list of its
    cells. \<open>Chat_Channel\<close>: the locale \<open>fifo_channel\<close>, what a sender may rely on, interpreted as \<open>chat_queue\<close>;
    \<open>accepted\<close> computes which of the offered messages were taken, and the locale \<open>bounded_channel\<close>, interpreted as
    \<open>chat_bounded\<close>, says when it is all of them.
  \<^item> \<open>Chat_Utils\<close>: the message buffer and the name (client_utils.c) and src/common/utils.c;
    \<open>Chat_Format\<close>: formatting.c.
  \<^item> \<open>Chat_Invariant\<close>: \<open>server_ok\<close>, the invariant of the server's memory, and \<open>delivered\<close> and \<open>evolves\<close>,
    what serving one client may change.
  \<^item> \<open>Chat_Broadcast\<close>: broadcast.c. \<open>Chat_Command\<close>: src/common/command.c, include/command_table.h,
    server_handle_command.c, process_payload.c.
  \<^item> \<open>Chat_Room\<close>: the abstract specification. A \<open>room\<close> has members with what they got and what is due to them;
    \<open>said\<close> gives the effect of each kind of message, \<open>room_step\<close> and \<open>room_run\<close> the behaviour over time, and
    \<open>room_of\<close> the room that a state of the server stands for. \<open>Chat_Read\<close>: handle_client_read.c. A call that returns 0 ends
    where the input \<open>pauses\<close> and the client \<open>awaits\<close> more; one that returns -1 does so for a cause that \<open>gives_up\<close> (in
    this call) or \<open>refused\<close> (a header refused in an earlier one) names.
  \<^item> \<open>Chat_Clients\<close>: client_list.c and accept_new_clients.c. \<open>Chat_Loop\<close>: server_loop.c and
    server_control.c. \<open>Chat_Server\<close>: the locale \<open>event_loop\<close>, interpreted as \<open>chat_loop\<close> on the server's
    pass, wait and dispatch; \<open>serves\<close>, an inductive relation, the whole rounds of the loop; the shutdown sequence.
  \<^item> \<open>Chat_Setup\<close>: common_setup.c, common_thread.c, logging.c, server_setup.c, client_setup.c and the
    server's \<open>main\<close> in server.c. The answers of the network calls are the record \<open>net\<close>.
  \<^item> \<open>Chat_Client\<close>: client.c, client_handle_command.c, client_listen.c and client_control.c. The state is
    the record \<open>client\<close>; \<open>client_run\<close> follows a list of turns of the two threads.
  \<^item> \<open>Chat_Session\<close>, \<open>Chat_Bounds\<close>, \<open>Chat_Listing\<close>: properties of several parts together: the lines typed
    into a client against the messages the server handles, the sizes of buffers, \<open>/list\<close> from end to end.
  \<^item> \<open>Chat_Refinement\<close>: the server implements the room. The locale \<open>refining_loop\<close> extends \<open>event_loop\<close> by the
    runs of an abstract machine and is interpreted as \<open>room_loop\<close>; \<open>accounted\<close> relates what the room hears from a
    client to the bytes taken from its connection.
  \<^item> \<open>Chat_Fuzz\<close>: tests/fuzzer_raw.c and tests/fuzzer_valid.c. Their threads are interleaved by single sends
    (\<open>fuzz_step\<close>, an inductive relation; \<open>fuzz_turns\<close> runs a list of turns); \<open>killed\<close> is the death by SIGPIPE,
    which they do not ignore. The locale \<open>fuzz_traffic\<close> holds what a random message must be, with the proofs that
    the programs end and what their connections carry, interpreted as \<open>raw_load\<close> and \<open>valid_load\<close>.

  \<^bold>\<open>The invariant.\<close> \<open>server_ok\<close>: the registered addresses are distinct, at most 1000, and each is that of
  a live structure with an open descriptor of its own, a queue of its own cells and a registration with
  epoll that leads back to it; buffers hold what their counters say. \<open>server_inv\<close> adds that the mutex is
  free and that no open client has over \<open>INPUT_MAX\<close> bytes (2 to the 60) to deliver, which keeps the
  doubling of a capacity away from the wrap-around of \<open>size_t\<close>; \<open>Chat_Bounds\<close> shows what lies beyond.
  The environment is constrained by \<open>env_ok\<close> alone: allocations of ordinary size succeed, the clock
  works, and fresh memory has a zero byte among its first 64, since the name of an unnamed client is
  read as a string. Addresses of structures are multiples of 16, which no listening descriptor is: the
  loop tells an event of the listening socket from that of a client by the low half of the pointer.
  Under these assumptions the heap overflow that TODO.md reports for \<open>msg_queue.tail->next\<close> (client_utils.c, line 77
  in this version) does not happen: by \<open>queue_rep\<close> the tail of a non-empty queue is a live packet of that queue. What
  is outside them and open in the code: the unchecked \<open>malloc\<close> in accept_new_clients.c, a \<open>realloc\<close> that fails, the
  low half of a client's address equal to the listening descriptor, a name without a zero byte. The leaks it reports
  are in the model: a client turned away, the early returns of accept_new_clients, a whisper that fails.

  \<^bold>\<open>What is shown.\<close> The server loop is safe for all answers of the kernel and every event it handles
  belongs to a live client; every run of it is a run of the room, which hears from a client the lines
  typed at its terminal; reading in pieces refines reading whole frames; flushing the linked queue is
  pouring a list of texts into the socket, a queue keeps its stream a sequence of whole frames in
  order, and peers decode a prefix of what was accepted; each kind of message has exactly its effect on
  every client; accepting, removing and shutting down do what they promise to the registry and release
  what they must; the two programs agree on lines and frames. The generators end, and
  what \<open>fuzzer_valid\<close> sends are, when each send is taken whole, whole frames that the server hears out. The
  iterations of the client make no fault but on a lone slash (\<open>client_iterations_stay_inside\<close>). The error theorems show where the code
  fails: a peer that closes in the middle of a payload is not noticed once EPOLLRDHUP is no longer asked for, a frame without payload ends the
  client's listener, a failed \<open>realloc\<close> or a lone slash faults, \<open>/shutdown\<close> in the client frees a block
  in use, \<open>main\<close> ignores failures of the set-up, and others.

  \<^bold>\<open>Not modelled.\<close> Diagnostics (\<open>printf\<close>, \<open>perror\<close>, prompts); the effect of shutdown(2), which the server calls on
  the listening socket and \<open>handle_quit\<close> of client_handle_command.c on its connection, each time right before the
  descriptor is closed; signals. \<open>signal(SIGPIPE, SIG_IGN)\<close> of server.c appears only in that a \<open>write\<close> to a closed
  connection reports EPIPE as any other error; in the client, where the signal would end the process, the model
  lets \<open>write\<close> report EPIPE too. The two threads of the client alternate by whole iterations, not by single
  instructions. In the fuzzers drawing the random numbers of one message is one step, and the time that
  \<open>usleep\<close> takes is only added up. \<open>struct client_thread_args\<close> and the write buffer fields of \<open>client_info\<close> are
  used by no code; prototypes and build files hold none.
\<close>

end
